(* ===== verification/Prelude.thy ===== *)
theory Prelude
  imports Main
begin

text \<open>
  What the component theories share: the result type of code that can throw, the
  sequencing of such results over lists, sums over a finite set of threads when one thread
  moves, and the interface of a transition system with an inductive invariant.
\<close>

named_theorems res_simps "equations of the result combinators"

section \<open>Results of code that may throw\<close>

text \<open>
  A C++ expression that may throw is a value of \<open>'e + 'a\<close>: \<open>Inl\<close> the exception, \<open>Inr\<close> the
  value.
\<close>

definition bind_res :: "('e + 'a) \<Rightarrow> ('a \<Rightarrow> 'e + 'b) \<Rightarrow> 'e + 'b" where
  "bind_res r f = (case r of Inl e \<Rightarrow> Inl e | Inr x \<Rightarrow> f x)"

lemma bind_res_Inl [simp, res_simps]: "bind_res (Inl e) f = Inl e"
  by (simp add: bind_res_def)

lemma bind_res_Inr [simp, res_simps]: "bind_res (Inr x) f = f x"
  by (simp add: bind_res_def)

lemma bind_res_eq_Inr: "bind_res r f = Inr y \<longleftrightarrow> (\<exists>x. r = Inr x \<and> f x = Inr y)"
  by (cases r) auto

lemma bind_res_eq_Inl: "bind_res r f = Inl e \<longleftrightarrow> r = Inl e \<or> (\<exists>x. r = Inr x \<and> f x = Inl e)"
  by (cases r) auto

text \<open>A loop whose body may throw: it stops at the first exception.\<close>

fun map_res :: "('a \<Rightarrow> 'e + 'b) \<Rightarrow> 'a list \<Rightarrow> 'e + 'b list" where
  "map_res f [] = Inr []"
| "map_res f (x # xs) = bind_res (f x) (\<lambda>y. bind_res (map_res f xs) (\<lambda>ys. Inr (y # ys)))"

lemma map_res_Inr_map:
  "(\<And>x. x \<in> set xs \<Longrightarrow> f (g x) = Inr (h x)) \<Longrightarrow> map_res f (map g xs) = Inr (map h xs)"
  by (induction xs) auto

lemma map_res_length: "map_res f xs = Inr ys \<Longrightarrow> length ys = length xs"
  by (induction xs arbitrary: ys) (auto simp: bind_res_eq_Inr)

section \<open>Sums over threads\<close>

text \<open>
  \<open>tally g f T\<close> adds up a weight \<open>g\<close> of the per-thread value \<open>f\<close> over the finite set of
  threads \<open>T\<close>. It is kept folded, so that an update of one thread rewrites to a difference.
\<close>

definition tally :: "('a \<Rightarrow> int) \<Rightarrow> ('i \<Rightarrow> 'a) \<Rightarrow> 'i set \<Rightarrow> int" where
  "tally g f T = (\<Sum>i\<in>T. g (f i))"

lemma tally_upd:
  assumes "finite T" and "i \<in> T"
  shows "tally g (f(i := x)) T = tally g f T - g (f i) + g x"
proof -
  have "(\<Sum>j\<in>T - {i}. g ((f(i := x)) j)) = (\<Sum>j\<in>T - {i}. g (f j))"
    by (rule sum.cong) auto
  then show ?thesis
    using sum.remove [OF assms, of "\<lambda>j. g (f j)"] sum.remove [OF assms, of "\<lambda>j. g ((f(i := x)) j)"]
    by (simp add: tally_def)
qed

lemma tally_cong: "(\<And>v. g (h v) = g v) \<Longrightarrow> tally g (\<lambda>i. h (f i)) T = tally g f T"
  by (simp add: tally_def)

lemma tally_nonneg: "(\<And>v. 0 \<le> g v) \<Longrightarrow> 0 \<le> tally g f T"
  by (simp add: tally_def sum_nonneg)

lemma tally_member:
  assumes "finite T" and "i \<in> T" and "\<And>v. 0 \<le> g v"
  shows "g (f i) \<le> tally g f T"
  unfolding tally_def using assms by (intro member_le_sum) auto

lemma tally_zero:
  assumes "finite T" and "\<And>v. 0 \<le> g v" and "tally g f T = 0" and "i \<in> T"
  shows "g (f i) = 0"
  using tally_member [of T i g f, OF assms(1,4,2)] assms(2) [of "f i"] assms(3) by simp

lemma tally_null: "(\<And>i. i \<in> T \<Longrightarrow> g (f i) = 0) \<Longrightarrow> tally g f T = 0"
  by (simp add: tally_def)

section \<open>Transition systems\<close>

text \<open>
  The interface every concurrent component offers: start states, a step relation that holds
  one atomic section of one thread at a time, and a predicate every step keeps. Clients of
  the interface get that the predicate holds after any interleaving.
\<close>

locale transition_invariant =
  fixes start :: "'s \<Rightarrow> bool"
    and step :: "'s \<Rightarrow> 's \<Rightarrow> bool"
    and inv :: "'s \<Rightarrow> bool"
  assumes start_inv: "start s \<Longrightarrow> inv s"
    and step_inv: "step s t \<Longrightarrow> inv s \<Longrightarrow> inv t"
begin

lemma run_inv: "step\<^sup>*\<^sup>* s t \<Longrightarrow> inv s \<Longrightarrow> inv t"
  by (induction rule: rtranclp_induct) (auto intro: step_inv)

lemma reachable_inv:
  assumes "start s" and "step\<^sup>*\<^sup>* s t"
  shows "inv t"
  using run_inv [OF assms(2) start_inv [OF assms(1)]] .

end

end
