(* ===== verification/Util.thy ===== *)
theory Util
  imports Prelude
begin

text \<open>
  The generic helpers of \<open>include/mp/util.h\<close>: the compile-time list splitter \<open>Split\<close>, the
  type-name trimmer \<open>TypeName\<close>, the scoped unlocking of \<open>UnlockGuard\<close> and \<open>Unlock\<close>, and
  \<open>TryFinally\<close>.
\<close>

section \<open>Split\<close>

text \<open>
  \<open>Split<index, List, First>\<close> moves the first \<open>index\<close> types of the list to \<open>First\<close>. Template
  instantiation is evaluation, and a list that is too short has no matching specialisation:
  the program does not compile, the value \<open>None\<close>.
\<close>

fun split_types :: "nat \<Rightarrow> 't list \<Rightarrow> 't list \<Rightarrow> ('t list \<times> 't list) option" where
  "split_types 0 ts first = Some (first, ts)"
| "split_types (Suc n) (t # ts) first = split_types n ts (first @ [t])"
| "split_types (Suc n) [] first = None"

lemma split_types_accum:
  "split_types n ts first = (if n \<le> length ts then Some (first @ take n ts, drop n ts) else None)"
  by (induction n ts first rule: split_types.induct) auto

text \<open>The default \<open>First\<close> is the empty list, as in every use of the template.\<close>

definition Split :: "nat \<Rightarrow> 't list \<Rightarrow> ('t list \<times> 't list) option" where
  "Split n ts = split_types n ts []"

lemma Split_eq: "Split n ts = (if n \<le> length ts then Some (take n ts, drop n ts) else None)"
  by (simp add: Split_def split_types_accum)

lemma Split_append: "Split n ts = Some (xs, ys) \<Longrightarrow> xs @ ys = ts \<and> length xs = n"
  by (auto simp: Split_eq split: if_splits)

section \<open>TypeName\<close>

text \<open>
  \<open>strchr\<close> finds the first colon of the display name; the name after it is returned, the
  whole name when there is none.
\<close>

definition TypeName :: "string \<Rightarrow> string" where
  "TypeName display_name =
     (let short_name = dropWhile (\<lambda>c. c \<noteq> CHR '':'') display_name
      in if short_name \<noteq> [] then tl short_name else display_name)"

lemma TypeName_prefix: "CHR '':'' \<notin> set f \<Longrightarrow> TypeName (f @ '':'' @ n) = n"
  by (induction f) (auto simp: TypeName_def Let_def)

lemma TypeName_no_colon: "CHR '':'' \<notin> set n \<Longrightarrow> TypeName n = n"
  by (simp add: TypeName_def Let_def dropWhile_eq_Nil_conv)

section \<open>Actions that may throw\<close>

text \<open>
  A callable run for its effect and result: the state it leaves is kept when it throws.
\<close>

type_synonym ('s, 'e, 'a) action = "'s \<Rightarrow> ('e + 'a) \<times> 's"

subsection \<open>TryFinally\<close>

text \<open>
  The \<open>try\<close> block runs \<open>fn\<close>, sets \<open>success\<close>, and runs \<open>after\<close>; the \<open>catch\<close> block runs
  \<open>after\<close> when \<open>success\<close> is not set, and rethrows. An exception of \<open>after\<close> in the handler
  replaces the one being handled.
\<close>

definition TryFinally :: "('s, 'e, 'a) action \<Rightarrow> ('s, 'e, unit) action \<Rightarrow> ('s, 'e, 'a) action" where
  "TryFinally fn after s =
     (let (r, success, s1) =
        (case fn s of
           (Inl e, s1) \<Rightarrow> (Inl e, False, s1)
         | (Inr result, s1) \<Rightarrow>
             (case after s1 of
                (Inl e, s2) \<Rightarrow> (Inl e, True, s2)
              | (Inr _, s2) \<Rightarrow> (Inr result, True, s2)))
      in case r of
           Inr result \<Rightarrow> (Inr result, s1)
         | Inl e \<Rightarrow>
             if \<not> success
             then (case after s1 of (Inl e', s2) \<Rightarrow> (Inl e', s2) | (Inr _, s2) \<Rightarrow> (Inl e, s2))
             else (Inl e, s1))"

text \<open>The reference: \<open>after\<close> runs once, in the state \<open>fn\<close> left, and its exception wins.\<close>

definition finally_spec :: "('s, 'e, 'a) action \<Rightarrow> ('s, 'e, unit) action \<Rightarrow> ('s, 'e, 'a) action" where
  "finally_spec fn after s =
     (let (r, s1) = fn s; (ra, s2) = after s1
      in (case ra of Inl e \<Rightarrow> Inl e | Inr _ \<Rightarrow> r, s2))"

lemma TryFinally_eq_spec: "TryFinally fn after s = finally_spec fn after s"
  by (auto simp: TryFinally_def finally_spec_def Let_def split: prod.splits sum.splits)

subsection \<open>Lock and Unlock\<close>

text \<open>
  The state of a \<open>Lock\<close> is whether it owns its mutex. \<open>unique_lock::unlock\<close> throws when the
  mutex is not owned, \<open>unique_lock::lock\<close> when it already is; in the destructor of
  \<open>UnlockGuard\<close>, which is \<open>noexcept\<close>, the latter terminates the program.
\<close>

datatype 'e lock_exn = OperationNotPermitted | Terminate | Thrown 'e

type_synonym ('s, 'e, 'a) lock_action = "(bool \<times> 's, 'e lock_exn, 'a) action"

definition UnlockGuard_ctor :: "('s, 'e, unit) lock_action" where
  "UnlockGuard_ctor = (\<lambda>(owns, s). if owns then (Inr (), (False, s)) else (Inl OperationNotPermitted, (owns, s)))"

definition UnlockGuard_dtor :: "('s, 'e, unit) lock_action" where
  "UnlockGuard_dtor = (\<lambda>(owns, s). if owns then (Inl Terminate, (owns, s)) else (Inr (), (True, s)))"

definition Unlock :: "('s, 'e, unit) lock_action \<Rightarrow> ('s, 'e, unit) lock_action" where
  "Unlock callback s =
     (case UnlockGuard_ctor s of
        (Inl e, s1) \<Rightarrow> (Inl e, s1)
      | (Inr _, s1) \<Rightarrow>
          (let (r, s2) = callback s1 in
           case UnlockGuard_dtor s2 of (Inl e, s3) \<Rightarrow> (Inl e, s3) | (Inr _, s3) \<Rightarrow> (r, s3)))"

text \<open>
  Called with the mutex held, \<open>Unlock\<close> runs the callback without it and holds it again
  afterwards, whether the callback returned or threw.
\<close>

lemma Unlock_owned:
  "callback (False, s) = (r, (False, s')) \<Longrightarrow> Unlock callback (True, s) = (r, (True, s'))"
  by (simp add: Unlock_def UnlockGuard_ctor_def UnlockGuard_dtor_def)

end
