(* ===== verification/Escape.thy ===== *)
theory Escape
  imports Prelude
begin

text \<open>
  \<open>LogEscape\<close> of \<open>src/mp/util.cpp\<close>, which turns the text form of a message (a
  \<open>kj::StringTree\<close>, visited as a list of pieces) into printable ASCII of bounded length.
\<close>

section \<open>Escaping one character\<close>

text \<open>
  \<open>char\<close> is signed or unsigned by platform: the comparisons of the code see the code
  \<open>0..255\<close> of the byte or its two's complement reading.
\<close>

definition byte :: "char \<Rightarrow> nat" where
  "byte c = of_char c"

definition char_value :: "bool \<Rightarrow> char \<Rightarrow> int" where
  "char_value signed c =
     (let n = int (byte c) in if signed \<and> 128 \<le> n then n - 256 else n)"

definition hex_digit :: "nat \<Rightarrow> char" where
  "hex_digit n = (if n < 10 then char_of (48 + n) else char_of (87 + n))"

text \<open>\<open>snprintf(escape, 4, "\%02x", (unsigned char)c)\<close>: two lower-case digits, zero padded.\<close>

definition hex_escape :: "char \<Rightarrow> string" where
  "hex_escape c = (let n = byte c in [CHR 0x5C, hex_digit (n div 16), hex_digit (n mod 16)])"

definition escape_char :: "bool \<Rightarrow> char \<Rightarrow> string" where
  "escape_char signed c =
     (if c = CHR 0x5C then [CHR 0x5C, CHR 0x5C]
      else if char_value signed c < 0x20 \<or> char_value signed c > 0x7e then hex_escape c
      else [c])"

section \<open>The visitor and its fold over the pieces\<close>

text \<open>
  The loop over a piece appends one escaped character, then tests the size: past the
  limit it appends the ellipsis and breaks.
\<close>

fun escape_piece :: "bool \<Rightarrow> nat \<Rightarrow> string \<Rightarrow> string \<Rightarrow> string" where
  "escape_piece signed max_size result [] = result"
| "escape_piece signed max_size result (c # piece) =
     (let result' = result @ escape_char signed c
      in if length result' > max_size then result' @ ''...''
         else escape_piece signed max_size result' piece)"

definition visit_piece :: "bool \<Rightarrow> nat \<Rightarrow> string \<Rightarrow> string \<Rightarrow> string" where
  "visit_piece signed max_size result piece =
     (if length result > max_size then result else escape_piece signed max_size result piece)"

definition LogEscape :: "bool \<Rightarrow> string list \<Rightarrow> nat \<Rightarrow> string" where
  "LogEscape signed pieces max_size = foldl (visit_piece signed max_size) [] pieces"

section \<open>Characters\<close>

lemma byte_less_256: "byte c < 256"
  using nat_of_char_less_256 [of c] by (simp add: byte_def)

lemma byte_inj: "byte c = byte d \<longleftrightarrow> c = d"
  by (simp add: byte_def)

lemma byte_char_of: "n < 256 \<Longrightarrow> byte (char_of n) = n"
  by (simp add: byte_def)

lemma char_of_byte: "char_of (byte c) = c"
  by (simp add: byte_def)

lemma byte_literals: "byte (CHR 0x5C) = 92" "byte (CHR 0x2E) = 46"
  by (simp_all add: byte_def)

lemma char_value_plain:
  "char_value s c < 0x20 \<or> char_value s c > 0x7e \<longleftrightarrow> byte c < 0x20 \<or> byte c > 0x7e"
  using byte_less_256 [of c] by (auto simp: char_value_def Let_def)

text \<open>The result does not depend on the signedness of \<open>char\<close>.\<close>

lemma escape_char_plain:
  "escape_char s c =
     (if c = CHR 0x5C then [CHR 0x5C, CHR 0x5C]
      else if byte c < 0x20 \<or> byte c > 0x7e then hex_escape c else [c])"
  unfolding escape_char_def char_value_plain ..

lemma escape_char_sign: "escape_char True c = escape_char False c"
  by (simp add: escape_char_plain)

lemma escape_piece_sign: "escape_piece True m r p = escape_piece False m r p"
  by (induction p arbitrary: r) (simp_all add: Let_def escape_char_sign)

lemma length_escape_char: "1 \<le> length (escape_char s c) \<and> length (escape_char s c) \<le> 3"
  by (simp add: escape_char_plain hex_escape_def Let_def)

definition printable :: "char \<Rightarrow> bool" where
  "printable c \<longleftrightarrow> 0x20 \<le> byte c \<and> byte c \<le> 0x7e"

lemma byte_hex_digit: "n < 16 \<Longrightarrow> byte (hex_digit n) = (if n < 10 then 48 + n else 87 + n)"
  by (simp add: hex_digit_def byte_char_of)

lemma byte_div_16: "byte c div 16 < 16"
  using byte_less_256 [of c] by simp

lemma hex_digit_printable: "n < 16 \<Longrightarrow> printable (hex_digit n)"
  by (simp add: printable_def byte_hex_digit)

lemma escape_char_printable: "list_all printable (escape_char s c)"
proof -
  have "printable (CHR 0x5C)" by (simp add: printable_def byte_literals)
  then show ?thesis
    by (simp add: escape_char_plain hex_escape_def Let_def hex_digit_printable byte_div_16)
       (simp add: printable_def)
qed

section \<open>The fold\<close>

text \<open>
  With \<open>full\<close> the complete escaped text, the visitor produces \<open>full\<close> while it fits, and
  otherwise the shortest run of escaped characters that is longer than the limit, then an
  ellipsis.
\<close>

definition full_escape :: "string \<Rightarrow> string" where
  "full_escape cs = concat (map (escape_char False) cs)"

lemma full_escape_simps [simp]:
  "full_escape [] = []"
  "full_escape (c # cs) = escape_char False c @ full_escape cs"
  "full_escape (xs @ ys) = full_escape xs @ full_escape ys"
  by (simp_all add: full_escape_def)

fun first_over :: "nat \<Rightarrow> string \<Rightarrow> string \<Rightarrow> string" where
  "first_over m r [] = r"
| "first_over m r (c # cs) =
     (let r' = r @ escape_char False c in if length r' > m then r' else first_over m r' cs)"

lemma escape_piece_fits:
  "length (r @ full_escape p) \<le> m \<Longrightarrow> escape_piece False m r p = r @ full_escape p"
  by (induction p arbitrary: r) (auto simp: Let_def)

lemma escape_piece_over:
  "length r \<le> m \<Longrightarrow> m < length (r @ full_escape p) \<Longrightarrow>
   escape_piece False m r p = first_over m r p @ ''...''"
  by (induction p arbitrary: r) (auto simp: Let_def)

lemma first_over_bounds:
  "length r \<le> m \<Longrightarrow> m < length (r @ full_escape p) \<Longrightarrow>
   m < length (first_over m r p) \<and> length (first_over m r p) \<le> m + 3"
proof (induction p arbitrary: r)
  case Nil
  then show ?case by simp
next
  case (Cons c p)
  then show ?case using length_escape_char [of False c] by (auto simp: Let_def)
qed

lemma escape_piece_append:
  "length (r @ full_escape p) \<le> m \<Longrightarrow>
   escape_piece False m r (p @ q) = escape_piece False m (r @ full_escape p) q"
  by (induction p arbitrary: r) (auto simp: Let_def)

lemma first_over_append:
  "length r \<le> m \<Longrightarrow> m < length (r @ full_escape p) \<Longrightarrow> first_over m r (p @ q) = first_over m r p"
  by (induction p arbitrary: r) (auto simp: Let_def)

lemma first_over_extend:
  "length (r @ full_escape p) \<le> m \<Longrightarrow> first_over m r (p @ q) = first_over m (r @ full_escape p) q"
  by (induction p arbitrary: r) (auto simp: Let_def)

text \<open>The reference: what the buffer holds after the characters \<open>cs\<close>, however split.\<close>

definition escape_spec :: "nat \<Rightarrow> string \<Rightarrow> string" where
  "escape_spec m cs =
     (if length (full_escape cs) \<le> m then full_escape cs else first_over m [] cs @ ''...'')"

lemma visit_piece_spec: "visit_piece False m (escape_spec m cs) p = escape_spec m (cs @ p)"
proof (cases "length (full_escape cs) \<le> m")
  case fits: True
  show ?thesis
  proof (cases "length (full_escape (cs @ p)) \<le> m")
    case True
    with fits show ?thesis
      by (simp add: visit_piece_def escape_spec_def escape_piece_fits)
  next
    case False
    with fits show ?thesis
      using first_over_extend [of "[]" cs m p]
      by (simp add: visit_piece_def escape_spec_def escape_piece_over)
  qed
next
  case False
  then have "m < length (first_over m [] cs)"
    using first_over_bounds [of "[]" m cs] by simp
  with False show ?thesis
    by (simp add: visit_piece_def escape_spec_def first_over_append)
qed

lemma fold_visit_spec:
  "foldl (visit_piece False m) (escape_spec m cs) ps = escape_spec m (cs @ concat ps)"
  by (induction ps arbitrary: cs) (simp_all add: visit_piece_spec)

lemma visit_piece_sign: "visit_piece s m = visit_piece False m"
  by (cases s) (auto simp: visit_piece_def escape_piece_sign fun_eq_iff)

section \<open>Reading the escaped text back\<close>

definition hex_value :: "char \<Rightarrow> nat" where
  "hex_value c = (let n = byte c in if n < 58 then n - 48 else n - 87)"

fun unescape :: "string \<Rightarrow> string option" where
  "unescape [] = Some []"
| "unescape (c # cs) =
     (if c \<noteq> CHR 0x5C then map_option (\<lambda>r. c # r) (unescape cs)
      else case cs of
          [] \<Rightarrow> None
        | d # ds \<Rightarrow>
            if d = CHR 0x5C then map_option (\<lambda>r. CHR 0x5C # r) (unescape ds)
            else case ds of
                [] \<Rightarrow> None
              | e # es \<Rightarrow>
                  map_option (\<lambda>r. char_of (16 * hex_value d + hex_value e) # r) (unescape es))"

lemma hex_value_digit: "n < 16 \<Longrightarrow> hex_value (hex_digit n) = n"
  by (simp add: hex_value_def byte_hex_digit)

lemma hex_digit_no_backslash: "n < 16 \<Longrightarrow> hex_digit n \<noteq> CHR 0x5C"
  using byte_hex_digit [of n] byte_literals(1) by (auto split: if_splits)

lemma unescape_escape_char:
  "unescape (escape_char False c @ r) = map_option (\<lambda>cs. c # cs) (unescape r)"
proof (cases "c = CHR 0x5C \<or> \<not> (byte c < 0x20 \<or> byte c > 0x7e)")
  case True
  then show ?thesis by (auto simp: escape_char_plain)
next
  case False
  have "16 * (byte c div 16) + byte c mod 16 = byte c" by simp
  with False show ?thesis
    by (simp add: escape_char_plain hex_escape_def Let_def hex_digit_no_backslash byte_div_16
        hex_value_digit char_of_byte)
qed

lemma unescape_full_escape: "unescape (full_escape cs) = Some cs"
  by (induction cs) (simp_all add: unescape_escape_char)

lemma full_escape_printable: "list_all printable (full_escape cs)"
  by (induction cs) (auto simp: escape_char_printable)

lemma first_over_printable: "list_all printable r \<Longrightarrow> list_all printable (first_over m r cs)"
  by (induction cs arbitrary: r) (auto simp: Let_def escape_char_printable)

section \<open>Properties\<close>

text \<open>
  C34. \<open>LogEscape\<close> computes the reference: the escaped text when it fits the limit, otherwise
  the escaped characters up to and including the first that passes the limit, followed by an
  ellipsis; how the text is split into pieces and the signedness of \<open>char\<close> do not matter.
\<close>

theorem LogEscape_reference:
  "LogEscape signed pieces max_size =
     (if length (full_escape (concat pieces)) \<le> max_size
      then full_escape (concat pieces)
      else first_over max_size [] (concat pieces) @ ''...'')"
  using fold_visit_spec [of max_size "[]" pieces]
  unfolding LogEscape_def visit_piece_sign [of signed] by (simp add: escape_spec_def)

lemma LogEscape_spec: "LogEscape signed pieces m = escape_spec m (concat pieces)"
  using fold_visit_spec [of m "[]" pieces]
  unfolding LogEscape_def visit_piece_sign [of signed] by (simp add: escape_spec_def)

text \<open>
  The result is printable ASCII and at most six characters longer than the limit:
  the last escape sequence and the ellipsis.
\<close>

theorem LogEscape_printable_bounded:
  "list_all printable (LogEscape signed pieces max_size) \<and>
   length (LogEscape signed pieces max_size) \<le> max_size + 6"
proof -
  have "list_all printable ''...''" by (simp add: printable_def byte_literals)
  moreover have "length (first_over max_size [] (concat pieces)) \<le> max_size + 3"
    if "\<not> length (full_escape (concat pieces)) \<le> max_size"
    using that first_over_bounds [of "[]" max_size "concat pieces"] by simp
  ultimately show ?thesis
    by (auto simp: LogEscape_spec escape_spec_def full_escape_printable first_over_printable)
qed

text \<open>
  Nothing is lost while the text fits: unescaping a result that is no longer than the
  limit gives the bytes of the message back.
\<close>

theorem LogEscape_roundtrip:
  assumes "length (LogEscape signed pieces max_size) \<le> max_size"
  shows "unescape (LogEscape signed pieces max_size) = Some (concat pieces)"
proof -
  have "length (full_escape (concat pieces)) \<le> max_size"
    using assms first_over_bounds [of "[]" max_size "concat pieces"]
    by (auto simp: LogEscape_spec escape_spec_def split: if_splits)
  then show ?thesis by (simp add: LogEscape_spec escape_spec_def unescape_full_escape)
qed

theorem LogEscape_roundtrip_witness:
  "unescape (LogEscape True [''a'', [CHR 0x5C, CHR 0x0A]] 8) = Some [CHR ''a'', CHR 0x5C, CHR 0x0A]"
proof -
  have "length (LogEscape True [''a'', [CHR 0x5C, CHR 0x0A]] 8) \<le> 8" by code_simp
  from LogEscape_roundtrip [OF this] show ?thesis by simp
qed

end
