(* ===== verification/Logging.thy ===== *)
theory Logging
  imports Util
begin

text \<open>
  The logger of \<open>include/mp/proxy-io.h\<close>: severity levels, options, the \<open>Logger\<close> object that
  collects a message and delivers it from its destructor, the \<open>MP_LOGPLAIN\<close> and \<open>MP_LOG\<close>
  macros, and the thread names of \<open>src/mp/util.cpp\<close> and \<open>src/mp/proxy.cpp\<close> they print.
\<close>

section \<open>Levels\<close>

datatype Log = Trace | Debug | Info | Warning | Error | Raise

fun log_value :: "Log \<Rightarrow> nat" where
  "log_value Trace = 0"
| "log_value Debug = 1"
| "log_value Info = 2"
| "log_value Warning = 3"
| "log_value Error = 4"
| "log_value Raise = 5"

lemma log_value_inj: "log_value a = log_value b \<Longrightarrow> a = b"
  by (cases a; cases b) simp_all

instantiation Log :: linorder
begin

definition less_eq_Log :: "Log \<Rightarrow> Log \<Rightarrow> bool" where
  "less_eq_Log a b \<longleftrightarrow> log_value a \<le> log_value b"

definition less_Log :: "Log \<Rightarrow> Log \<Rightarrow> bool" where
  "less_Log a b \<longleftrightarrow> log_value a < log_value b"

instance
  by standard (auto simp: less_eq_Log_def less_Log_def dest: log_value_inj)

end

fun KJ_STRINGIFY :: "Log \<Rightarrow> string" where
  "KJ_STRINGIFY Trace = ''Trace''"
| "KJ_STRINGIFY Debug = ''Debug''"
| "KJ_STRINGIFY Info = ''Info''"
| "KJ_STRINGIFY Warning = ''Warning''"
| "KJ_STRINGIFY Error = ''Error''"
| "KJ_STRINGIFY Raise = ''Raise''"

section \<open>Options, messages, loggers\<close>

record LogMessage =
  message :: string
  level :: Log

text \<open>
  The callback acts on the embedding program's state and may throw, as callbacks do for
  messages of level \<open>Raise\<close>. An empty \<open>std::function\<close> is \<open>None\<close>.
\<close>

record ('s, 'e) LogOptions =
  log_fn :: "(LogMessage \<Rightarrow> ('s, 'e, unit) action) option"
  max_chars :: nat
  log_level :: Log

record Logger =
  m_log_level :: Log
  m_buffer :: string

definition new_logger :: "Log \<Rightarrow> Logger" where
  "new_logger l = \<lparr>m_log_level = l, m_buffer = []\<rparr>"

definition enabled :: "('s, 'e) LogOptions \<Rightarrow> Logger \<Rightarrow> bool" where
  "enabled opts lg \<longleftrightarrow> log_fn opts \<noteq> None \<and> m_log_level lg \<ge> log_level opts"

definition put :: "('s, 'e) LogOptions \<Rightarrow> string \<Rightarrow> Logger \<Rightarrow> Logger" where
  "put opts v lg = (if enabled opts lg then lg\<lparr>m_buffer := m_buffer lg @ v\<rparr> else lg)"

definition Logger_dtor :: "('s, 'e) LogOptions \<Rightarrow> Logger \<Rightarrow> ('s, 'e, unit) action" where
  "Logger_dtor opts lg s =
     (if enabled opts lg
      then (case log_fn opts of
              None \<Rightarrow> (Inr (), s)
            | Some f \<Rightarrow> f \<lparr>message = m_buffer lg, level = m_log_level lg\<rparr> s)
      else (Inr (), s))"

text \<open>
  \<open>if (Logger logger{opts, level}; logger) logger << part << part ...;\<close> --- the parts are
  evaluated when the logger converts to true, the destructor runs in either case.
\<close>

definition MP_LOGPLAIN ::
  "('s, 'e) LogOptions \<Rightarrow> Log \<Rightarrow> string list \<Rightarrow> ('s, 'e, unit) action" where
  "MP_LOGPLAIN opts l parts s =
     (let logger = new_logger l;
          logger = (if enabled opts logger then fold (put opts) parts logger else logger)
      in Logger_dtor opts logger s)"

section \<open>Thread names\<close>

fun decimal :: "nat \<Rightarrow> string" where
  "decimal n = (if n < 10 then [char_of (48 + n)] else decimal (n div 10) @ [char_of (48 + n mod 10)])"

declare decimal.simps [simp del]

text \<open>
  On Linux: \<open>pid\<close> is \<open>getpid()\<close>, \<open>tid\<close> is the kernel thread id, and \<open>thread_name\<close> the name
  \<open>pthread_getname_np\<close> returned (empty when there is none). A null \<open>exe_name\<close> is \<open>None\<close>.
\<close>

definition ThreadName :: "string option \<Rightarrow> nat \<Rightarrow> string \<Rightarrow> nat \<Rightarrow> string" where
  "ThreadName exe_name pid thread_name tid =
     (case exe_name of None \<Rightarrow> [] | Some e \<Rightarrow> e) @ ''-'' @ decimal pid @ ''/'' @
     (if thread_name \<noteq> [] then thread_name @ ''-'' else []) @ decimal tid"

definition LongThreadName :: "string \<Rightarrow> string option \<Rightarrow> nat \<Rightarrow> string \<Rightarrow> nat \<Rightarrow> string" where
  "LongThreadName context_name exe_name pid thread_name tid =
     (if context_name = [] then ThreadName exe_name pid thread_name tid else context_name)"

definition MP_LOG ::
  "('s, 'e) LogOptions \<Rightarrow> string \<Rightarrow> Log \<Rightarrow> string list \<Rightarrow> ('s, 'e, unit) action" where
  "MP_LOG opts long_thread_name l parts =
     MP_LOGPLAIN opts l (''{'' # long_thread_name # ''} '' # parts)"

section \<open>Lemmas\<close>

lemma fold_put:
  "enabled opts lg \<Longrightarrow> fold (put opts) parts lg = lg\<lparr>m_buffer := m_buffer lg @ concat parts\<rparr>"
proof (induction parts arbitrary: lg)
  case Nil
  then show ?case by simp
next
  case (Cons p parts)
  then have "enabled opts (put opts p lg)" by (simp add: enabled_def put_def)
  from Cons.IH [OF this] Cons.prems show ?case by (simp add: put_def)
qed

lemma enabled_new: "enabled opts (new_logger l) \<longleftrightarrow> log_fn opts \<noteq> None \<and> log_level opts \<le> l"
  by (simp add: enabled_def new_logger_def)

lemma decimal_nonempty: "decimal n \<noteq> []"
  by (subst decimal.simps) simp

section \<open>Properties\<close>

text \<open>
  A log statement delivers one message when a callback is set and the level reaches the
  threshold, with the parts in order after the thread name, and then behaves as the callback
  does, exceptions included; otherwise it does nothing.
\<close>

theorem MP_LOG_delivers:
  "MP_LOG opts name l parts s =
     (case log_fn opts of
        Some f \<Rightarrow>
          if log_level opts \<le> l
          then f \<lparr>message = ''{'' @ name @ ''} '' @ concat parts, level = l\<rparr> s
          else (Inr (), s)
      | None \<Rightarrow> (Inr (), s))"
proof -
  let ?parts = "''{'' # name # ''} '' # parts"
  have "fold (put opts) ?parts (new_logger l) = \<lparr>m_log_level = l, m_buffer = concat ?parts\<rparr>"
    if "enabled opts (new_logger l)"
    using fold_put [OF that, of ?parts] by (simp add: new_logger_def)
  then show ?thesis
    by (auto simp: MP_LOG_def MP_LOGPLAIN_def Logger_dtor_def enabled_new Let_def enabled_def
        new_logger_def split: option.splits)
qed

section \<open>Other users of the log callback\<close>

text \<open>
  The error handler of the task set of the event loop, and the callback that the older
  constructor of \<open>EventLoop\<close> makes of a function that takes a flag, with the default options.
\<close>

definition taskFailed :: "('s, 'e) LogOptions \<Rightarrow> string \<Rightarrow> ('s, 'e, unit) action" where
  "taskFailed opts thread = MP_LOG opts thread Error [''Uncaught exception in daemonized task.'']"

definition default_options :: "(LogMessage \<Rightarrow> ('s, 'e, unit) action) \<Rightarrow> ('s, 'e) LogOptions" where
  "default_options f = \<lparr>log_fn = Some f, max_chars = 200, log_level = Trace\<rparr>"

definition old_log_fn :: "(bool \<Rightarrow> string \<Rightarrow> ('s, 'e, unit) action) \<Rightarrow> LogMessage \<Rightarrow> ('s, 'e, unit) action" where
  "old_log_fn old_callback log_data = old_callback (level log_data = Raise) (message log_data)"

text \<open>The old function gets every message, with the flag set for those of level \<open>Raise\<close> only.\<close>

theorem old_callback_gets_all:
  "MP_LOG (default_options (old_log_fn f)) name l parts s =
     f (l = Raise) (''{'' @ name @ ''} '' @ concat parts) s"
  by (cases l) (simp_all add: MP_LOG_delivers default_options_def old_log_fn_def less_eq_Log_def)

end
