(* ===== verification/Cancel.thy ===== *)
theory Cancel
  imports Prelude
begin

text \<open>
  \<open>CancelMonitor\<close> and \<open>CancelProbe\<close> of \<open>include/mp/util.h\<close>: two objects with separate
  owners that point at each other, the probe destroyed with a promise, the monitor by the
  code that fulfils it. Objects live in a store of addresses, so that a dangling pointer is a
  missing entry.
\<close>

section \<open>Objects\<close>

text \<open>\<open>m_on_cancel\<close> acts on the state \<open>'u\<close> of the code that installed it.\<close>

record 'u CancelMonitor =
  m_canceled :: bool
  m_on_cancel :: "('u \<Rightarrow> 'u) option"
  m_probe :: "nat option"

record CancelProbe =
  m_monitor :: "nat option"

record 'u cancel_heap =
  monitors :: "nat \<Rightarrow> 'u CancelMonitor option"
  probes :: "nat \<Rightarrow> CancelProbe option"
  user :: 'u

datatype cancel_fault = Assertion_failed | Use_after_free

section \<open>Operations\<close>

definition CancelMonitor_ctor :: "nat \<Rightarrow> 'u cancel_heap \<Rightarrow> 'u cancel_heap" where
  "CancelMonitor_ctor a h =
     h\<lparr>monitors := (monitors h)(a \<mapsto> \<lparr>m_canceled = False, m_on_cancel = None, m_probe = None\<rparr>)\<rparr>"

definition CancelProbe_ctor :: "nat \<Rightarrow> nat \<Rightarrow> 'u cancel_heap \<Rightarrow> cancel_fault + 'u cancel_heap" where
  "CancelProbe_ctor p a h =
     (case monitors h a of
        None \<Rightarrow> Inl Use_after_free
      | Some m \<Rightarrow>
          if m_probe m \<noteq> None then Inl Assertion_failed
          else Inr (h\<lparr>probes := (probes h)(p \<mapsto> \<lparr>m_monitor = Some a\<rparr>),
                      monitors := (monitors h)(a \<mapsto> m\<lparr>m_probe := Some p\<rparr>)\<rparr>))"

definition promiseDestroyed :: "nat \<Rightarrow> nat \<Rightarrow> 'u cancel_heap \<Rightarrow> cancel_fault + 'u cancel_heap" where
  "promiseDestroyed a p h =
     (case monitors h a of
        None \<Rightarrow> Inl Use_after_free
      | Some m \<Rightarrow>
          if m_probe m \<noteq> Some p then Inl Assertion_failed
          else
            (let u = (case m_on_cancel m of None \<Rightarrow> user h | Some f \<Rightarrow> f (user h))
             in Inr (h\<lparr>user := u,
                       monitors := (monitors h)(a \<mapsto> m\<lparr>m_canceled := True, m_probe := None\<rparr>)\<rparr>)))"

definition CancelProbe_dtor :: "nat \<Rightarrow> 'u cancel_heap \<Rightarrow> cancel_fault + 'u cancel_heap" where
  "CancelProbe_dtor p h =
     (case probes h p of
        None \<Rightarrow> Inl Use_after_free
      | Some pr \<Rightarrow>
          bind_res (case m_monitor pr of None \<Rightarrow> Inr h | Some a \<Rightarrow> promiseDestroyed a p h)
            (\<lambda>h'. Inr (h'\<lparr>probes := (probes h')(p := None)\<rparr>)))"

definition CancelMonitor_dtor :: "nat \<Rightarrow> 'u cancel_heap \<Rightarrow> cancel_fault + 'u cancel_heap" where
  "CancelMonitor_dtor a h =
     (case monitors h a of
        None \<Rightarrow> Inl Use_after_free
      | Some m \<Rightarrow>
          bind_res
            (case m_probe m of
               None \<Rightarrow> Inr h
             | Some p \<Rightarrow>
                 (case probes h p of
                    None \<Rightarrow> Inl Use_after_free
                  | Some pr \<Rightarrow>
                      if m_monitor pr \<noteq> Some a then Inl Assertion_failed
                      else Inr (h\<lparr>probes := (probes h)(p \<mapsto> pr\<lparr>m_monitor := None\<rparr>)\<rparr>)))
            (\<lambda>h'. Inr (h'\<lparr>monitors := (monitors h')(a := None)\<rparr>)))"

definition set_on_cancel ::
  "nat \<Rightarrow> ('u \<Rightarrow> 'u) option \<Rightarrow> 'u cancel_heap \<Rightarrow> cancel_fault + 'u cancel_heap" where
  "set_on_cancel a f h =
     (case monitors h a of
        None \<Rightarrow> Inl Use_after_free
      | Some m \<Rightarrow> Inr (h\<lparr>monitors := (monitors h)(a \<mapsto> m\<lparr>m_on_cancel := f\<rparr>)\<rparr>))"

section \<open>Runs\<close>

text \<open>
  The two owners act in any order: objects are created at fresh addresses, a probe on a
  monitor without one (its constructor asserts that), and live objects are destroyed once.
\<close>

inductive cancel_step :: "'u cancel_heap \<Rightarrow> 'u cancel_heap \<Rightarrow> bool" where
  new_monitor: "monitors h a = None \<Longrightarrow> cancel_step h (CancelMonitor_ctor a h)"
| new_probe: "probes h p = None \<Longrightarrow> CancelProbe_ctor p a h = Inr h' \<Longrightarrow> cancel_step h h'"
| on_cancel: "set_on_cancel a f h = Inr h' \<Longrightarrow> cancel_step h h'"
| delete_probe: "CancelProbe_dtor p h = Inr h' \<Longrightarrow> cancel_step h h'"
| delete_monitor: "CancelMonitor_dtor a h = Inr h' \<Longrightarrow> cancel_step h h'"

definition cancel_start :: "'u cancel_heap \<Rightarrow> bool" where
  "cancel_start h \<longleftrightarrow> monitors h = Map.empty \<and> probes h = Map.empty"

section \<open>The two pointers agree\<close>

text \<open>
  The two pointer fields read as partial functions between addresses, a dead object pointing
  nowhere. The invariant is that they are inverse to each other.
\<close>

definition mon_probe :: "'u cancel_heap \<Rightarrow> nat \<Rightarrow> nat option" where
  "mon_probe h a = Option.bind (monitors h a) m_probe"

definition probe_mon :: "'u cancel_heap \<Rightarrow> nat \<Rightarrow> nat option" where
  "probe_mon h p = Option.bind (probes h p) m_monitor"

lemma mon_probe_upd [simp]:
  "mon_probe (h\<lparr>monitors := (monitors h)(a := x)\<rparr>) = (mon_probe h)(a := Option.bind x m_probe)"
  "mon_probe (h\<lparr>probes := P\<rparr>) = mon_probe h"
  "mon_probe (h\<lparr>user := u\<rparr>) = mon_probe h"
  by (auto simp: mon_probe_def)

lemma probe_mon_upd [simp]:
  "probe_mon (h\<lparr>probes := (probes h)(p := x)\<rparr>) = (probe_mon h)(p := Option.bind x m_monitor)"
  "probe_mon (h\<lparr>monitors := M\<rparr>) = probe_mon h"
  "probe_mon (h\<lparr>user := u\<rparr>) = probe_mon h"
  by (auto simp: probe_mon_def)

lemma mon_probe_Some: "monitors h a = Some m \<Longrightarrow> mon_probe h a = m_probe m"
  by (simp add: mon_probe_def)

lemma probe_mon_Some: "probes h p = Some pr \<Longrightarrow> probe_mon h p = m_monitor pr"
  by (simp add: probe_mon_def)

definition inverse_maps :: "('a \<Rightarrow> 'b option) \<Rightarrow> ('b \<Rightarrow> 'a option) \<Rightarrow> bool" where
  "inverse_maps f g \<longleftrightarrow> (\<forall>a p. f a = Some p \<longleftrightarrow> g p = Some a)"

lemma inverse_mapsD1: "inverse_maps f g \<Longrightarrow> f a = Some p \<Longrightarrow> g p = Some a"
  by (simp add: inverse_maps_def)

lemma inverse_mapsD2: "inverse_maps f g \<Longrightarrow> g p = Some a \<Longrightarrow> f a = Some p"
  by (simp add: inverse_maps_def)

lemma inverse_maps_link:
  assumes i: "inverse_maps f g" and fa: "f a = None" and gp: "g p = None"
  shows "inverse_maps (f(a := Some p)) (g(p := Some a))"
proof (unfold inverse_maps_def, intro allI)
  fix x q
  have e: "f y = Some r \<longleftrightarrow> g r = Some y" for y r
    using i unfolding inverse_maps_def by blast
  show "(f(a := Some p)) x = Some q \<longleftrightarrow> (g(p := Some a)) q = Some x"
    using e [of x q] e [of a q] e [of x p] fa gp by (cases "x = a"; cases "q = p") simp_all
qed

lemma inverse_maps_unlink:
  assumes i: "inverse_maps f g" and fa: "f a = Some p"
  shows "inverse_maps (f(a := None)) (g(p := None))"
proof (unfold inverse_maps_def, intro allI)
  fix x q
  have e: "f y = Some r \<longleftrightarrow> g r = Some y" for y r
    using i unfolding inverse_maps_def by blast
  have gp: "g p = Some a" using e [of a p] fa by simp
  show "(f(a := None)) x = Some q \<longleftrightarrow> (g(p := None)) q = Some x"
    using e [of x q] e [of a q] e [of x p] fa gp by (cases "x = a"; cases "q = p") simp_all
qed

definition linked :: "'u cancel_heap \<Rightarrow> bool" where
  "linked h \<longleftrightarrow> inverse_maps (mon_probe h) (probe_mon h)"

lemma linked_probeD:
  assumes "linked h" and "probes h p = Some pr" and "m_monitor pr = Some a"
  shows "\<exists>m. monitors h a = Some m \<and> m_probe m = Some p"
proof -
  have "mon_probe h a = Some p"
    using assms inverse_mapsD2 by (fastforce simp: linked_def probe_mon_Some)
  then show ?thesis by (auto simp: mon_probe_def bind_eq_Some_conv)
qed

lemma linked_monitorD:
  assumes "linked h" and "monitors h a = Some m" and "m_probe m = Some p"
  shows "\<exists>pr. probes h p = Some pr \<and> m_monitor pr = Some a"
proof -
  have "probe_mon h p = Some a"
    using assms inverse_mapsD1 by (fastforce simp: linked_def mon_probe_Some)
  then show ?thesis by (auto simp: probe_mon_def bind_eq_Some_conv)
qed

lemma linked_ctor: "linked h \<Longrightarrow> monitors h a = None \<Longrightarrow> linked (CancelMonitor_ctor a h)"
proof -
  assume l: "linked h" and "monitors h a = None"
  then have "(mon_probe h)(a := None) = mon_probe h"
    by (intro fun_upd_idem) (simp add: mon_probe_def)
  with l show ?thesis by (simp add: linked_def CancelMonitor_ctor_def)
qed

lemma linked_probe_ctor:
  assumes "linked h" and "probes h p = None" and "CancelProbe_ctor p a h = Inr h'"
  shows "linked h'"
proof -
  from assms(3) obtain m where m: "monitors h a = Some m" "m_probe m = None"
    and h': "h' = h\<lparr>probes := (probes h)(p \<mapsto> \<lparr>m_monitor = Some a\<rparr>),
                    monitors := (monitors h)(a \<mapsto> m\<lparr>m_probe := Some p\<rparr>)\<rparr>"
    by (auto simp: CancelProbe_ctor_def split: option.splits if_splits)
  have "mon_probe h' = (mon_probe h)(a \<mapsto> p)" "probe_mon h' = (probe_mon h)(p \<mapsto> a)"
    by (auto simp: h' mon_probe_def probe_mon_def)
  moreover have "mon_probe h a = None" "probe_mon h p = None"
    using m assms(2) by (simp_all add: mon_probe_def probe_mon_def)
  ultimately show ?thesis using assms(1) by (simp add: linked_def inverse_maps_link)
qed

lemma linked_on_cancel: "linked h \<Longrightarrow> set_on_cancel a f h = Inr h' \<Longrightarrow> linked h'"
proof -
  assume l: "linked h" and s: "set_on_cancel a f h = Inr h'"
  then obtain m where m: "monitors h a = Some m"
    and h': "h' = h\<lparr>monitors := (monitors h)(a \<mapsto> m\<lparr>m_on_cancel := f\<rparr>)\<rparr>"
    by (auto simp: set_on_cancel_def split: option.splits)
  have "mon_probe h' = mon_probe h" by (auto simp: h' mon_probe_def m)
  with l show ?thesis by (simp add: linked_def h')
qed

lemma linked_probe_dtor:
  assumes l: "linked h" and d: "CancelProbe_dtor p h = Inr h'"
  shows "linked h'"
proof -
  from d obtain pr where pr: "probes h p = Some pr"
    by (auto simp: CancelProbe_dtor_def split: option.splits)
  show ?thesis
  proof (cases "m_monitor pr")
    case None
    with pr have "(probe_mon h)(p := None) = probe_mon h"
      by (intro fun_upd_idem) (simp add: probe_mon_def)
    with None pr l d show ?thesis by (auto simp: linked_def CancelProbe_dtor_def)
  next
    case (Some a)
    then obtain m where m: "monitors h a = Some m" "m_probe m = Some p"
      using linked_probeD [OF l pr] by blast
    with d pr Some have "mon_probe h' = (mon_probe h)(a := None)"
      and "probe_mon h' = (probe_mon h)(p := None)"
      by (auto simp: CancelProbe_dtor_def promiseDestroyed_def Let_def mon_probe_def probe_mon_def)
    with m l show ?thesis
      by (simp add: linked_def inverse_maps_unlink mon_probe_Some)
  qed
qed

lemma linked_monitor_dtor:
  assumes l: "linked h" and d: "CancelMonitor_dtor a h = Inr h'"
  shows "linked h'"
proof -
  from d obtain m where m: "monitors h a = Some m"
    by (auto simp: CancelMonitor_dtor_def split: option.splits)
  show ?thesis
  proof (cases "m_probe m")
    case None
    with m have "(mon_probe h)(a := None) = mon_probe h"
      by (intro fun_upd_idem) (simp add: mon_probe_def)
    with None m l d show ?thesis by (auto simp: linked_def CancelMonitor_dtor_def)
  next
    case (Some p)
    then obtain pr where pr: "probes h p = Some pr" "m_monitor pr = Some a"
      using linked_monitorD [OF l m] by blast
    with d m Some have "mon_probe h' = (mon_probe h)(a := None)"
      and "probe_mon h' = (probe_mon h)(p := None)"
      by (auto simp: CancelMonitor_dtor_def mon_probe_def probe_mon_def)
    with m Some l show ?thesis
      by (simp add: linked_def inverse_maps_unlink mon_probe_Some)
  qed
qed

lemma linked_step: "cancel_step h h' \<Longrightarrow> linked h \<Longrightarrow> linked h'"
  by (induction rule: cancel_step.induct)
     (blast intro: linked_ctor linked_probe_ctor linked_on_cancel linked_probe_dtor linked_monitor_dtor)+

lemma linked_start: "cancel_start h \<Longrightarrow> linked h"
  by (simp add: cancel_start_def linked_def inverse_maps_def mon_probe_def probe_mon_def)

interpretation cancel: transition_invariant cancel_start cancel_step linked
  by unfold_locales (rule linked_start, assumption, rule linked_step)

section \<open>Properties\<close>

text \<open>A concrete run: a monitor at 3 with a handler that counts, a probe at 7 linked to it.\<close>

definition no_objects :: "nat cancel_heap" where
  "no_objects = \<lparr>monitors = Map.empty, probes = Map.empty, user = 0\<rparr>"

definition linked_pair :: "nat cancel_heap" where
  "linked_pair = \<lparr>
     monitors = [3 \<mapsto> \<lparr>m_canceled = False, m_on_cancel = Some Suc, m_probe = Some 7\<rparr>],
     probes = [7 \<mapsto> \<lparr>m_monitor = Some 3\<rparr>], user = 0\<rparr>"

lemma no_objects_start: "cancel_start no_objects"
  by (simp add: cancel_start_def no_objects_def)

lemma linked_pair_reached: "cancel_step\<^sup>*\<^sup>* no_objects linked_pair"
proof -
  let ?h1 = "CancelMonitor_ctor 3 no_objects"
  let ?h2 = "?h1\<lparr>monitors := [3 \<mapsto> \<lparr>m_canceled = False, m_on_cancel = Some Suc, m_probe = None\<rparr>]\<rparr>"
  have "cancel_step no_objects ?h1"
    by (rule cancel_step.new_monitor) (simp add: no_objects_def)
  moreover have "cancel_step ?h1 ?h2"
    by (rule cancel_step.on_cancel [of 3 "Some Suc"])
      (simp add: set_on_cancel_def CancelMonitor_ctor_def no_objects_def)
  moreover have "cancel_step ?h2 linked_pair"
    by (rule cancel_step.new_probe [of _ 7 3])
      (simp_all add: CancelProbe_ctor_def CancelMonitor_ctor_def no_objects_def linked_pair_def)
  ultimately show ?thesis
    by (blast intro: converse_rtranclp_into_rtranclp)
qed

text \<open>
  C35. However the two owners interleave, destroying a live probe or a live monitor fails no
  assertion and follows no dangling pointer.
\<close>

theorem cancel_no_fault:
  assumes "cancel_start h0" and "cancel_step\<^sup>*\<^sup>* h0 h"
  shows "(probes h p \<noteq> None \<longrightarrow> (\<exists>h'. CancelProbe_dtor p h = Inr h')) \<and>
         (monitors h a \<noteq> None \<longrightarrow> (\<exists>h'. CancelMonitor_dtor a h = Inr h'))"
proof -
  have l: "linked h" using assms by (rule cancel.reachable_inv)
  have "\<exists>h'. CancelProbe_dtor p h = Inr h'" if pr: "probes h p = Some pr" for pr
    using linked_probeD [OF l pr] pr
    by (auto simp: CancelProbe_dtor_def promiseDestroyed_def Let_def split: option.splits)
  moreover have "\<exists>h'. CancelMonitor_dtor a h = Inr h'" if m: "monitors h a = Some m" for m
    using linked_monitorD [OF l m] m
    by (auto simp: CancelMonitor_dtor_def split: option.splits)
  ultimately show ?thesis by auto
qed

theorem cancel_no_fault_witness:
  "(\<exists>h'. CancelProbe_dtor 7 linked_pair = Inr h') \<and> (\<exists>h'. CancelMonitor_dtor 3 linked_pair = Inr h')"
  using cancel_no_fault [OF no_objects_start linked_pair_reached, of 7 3]
  by (simp add: linked_pair_def)

text \<open>
  Destroying the probe of a live monitor reports the cancellation to it, calling its
  handler once; after the monitor is gone, destroying the probe has no effect but its own.
\<close>

theorem cancel_reported:
  assumes "cancel_start h0" and "cancel_step\<^sup>*\<^sup>* h0 h" and "probes h p = Some pr"
  shows "CancelProbe_dtor p h =
    (case m_monitor pr of
       None \<Rightarrow> Inr (h\<lparr>probes := (probes h)(p := None)\<rparr>)
     | Some a \<Rightarrow>
         (let m = the (monitors h a)
          in Inr (h\<lparr>user := (case m_on_cancel m of None \<Rightarrow> user h | Some f \<Rightarrow> f (user h)),
                    monitors := (monitors h)(a \<mapsto> m\<lparr>m_canceled := True, m_probe := None\<rparr>),
                    probes := (probes h)(p := None)\<rparr>)))"
proof -
  have "linked h" using assms(1,2) by (rule cancel.reachable_inv)
  with assms(3) show ?thesis
    using linked_probeD [of h p pr]
    by (auto simp: CancelProbe_dtor_def promiseDestroyed_def Let_def split: option.splits)
qed

theorem cancel_reported_witness:
  "\<exists>h'. CancelProbe_dtor 7 linked_pair = Inr h' \<and> user h' = 1 \<and>
     map_option m_canceled (monitors h' 3) = Some True"
proof -
  have "probes linked_pair 7 = Some \<lparr>m_monitor = Some 3\<rparr>"
    by (simp add: linked_pair_def)
  from cancel_reported [OF no_objects_start linked_pair_reached this] show ?thesis
    by (simp add: linked_pair_def Let_def)
qed

end
