(* ===== verification/EventLoop.thy ===== *)
theory EventLoop
  imports Prelude
begin

text \<open>
  The event loop of \<open>src/mp/proxy.cpp\<close>: \<open>EventLoopRef\<close>, \<open>EventLoop::loop\<close>, \<open>post\<close>,
  \<open>addAsyncCleanup\<close>, \<open>startAsyncThread\<close> and \<open>done\<close>, as one transition system. A step is one
  section of code a thread runs with \<open>m_mutex\<close> held, or one system call between two such
  sections. Waiting on \<open>m_cv\<close> is explicit: a thread whose condition is false falls asleep and
  runs again only after a \<open>notify_all\<close>.
\<close>

section \<open>State\<close>

type_synonym tid = nat

text \<open>
  Where a thread stands in \<open>EventLoop::post\<close>, or in the write of \<open>EventLoopRef::reset\<close>.
  \<open>Check\<close> is awake and about to evaluate the wait condition, \<open>Sleep\<close> is blocked in
  \<open>m_cv.wait\<close>.
\<close>

datatype client_pc =
    C_Idle
  | C_Check1 | C_Sleep1
  | C_Write
  | C_Check2 | C_Sleep2
  | C_Signal

datatype loop_pc = L_Read | L_Run tid | L_Closing | L_Finish | L_Closed

datatype 'f async_pc = A_Unstarted | A_Check | A_Sleep | A_Run 'f | A_Signal | A_Exit

text \<open>
  \<open>m_post_fn\<close> points to a local variable of the posting thread, so the pointer is the
  thread. \<open>pipe\<close> counts the bytes written to \<open>m_post_fd\<close> and not yet read from \<open>m_wait_fd\<close>.
  \<open>refs\<close> are the \<open>EventLoopRef\<close> objects a thread is responsible for. The last five fields
  record history: calls of \<open>post\<close> begun and past their last wait, posted functions run, cleanup functions
  added and run.
\<close>

record 'f EventLoop =
  m_post_fn :: "tid option"
  m_async_fns :: "'f list option"
  m_num_clients :: int
  pipe :: nat
  fd_open :: bool
  refs :: "tid \<Rightarrow> nat"
  cpc :: "tid \<Rightarrow> client_pc"
  lpc :: loop_pc
  apc :: "'f async_pc"
  called :: "tid \<Rightarrow> nat"
  returned :: "tid \<Rightarrow> nat"
  ran :: "tid \<Rightarrow> nat"
  async_added :: "'f list"
  async_ran :: "'f list"

section \<open>Operations\<close>

text \<open>
  An assertion that fails, or a null optional that is dereferenced, is the result \<open>None\<close>.
\<close>

fun wake :: "client_pc \<Rightarrow> client_pc" where
  "wake C_Sleep1 = C_Check1"
| "wake C_Sleep2 = C_Check2"
| "wake p = p"

definition notify_all :: "'f EventLoop \<Rightarrow> 'f EventLoop" where
  "notify_all s = s\<lparr>cpc := (\<lambda>i. wake (cpc s i)), apc := (if apc s = A_Sleep then A_Check else apc s)\<rparr>"

definition done_cond :: "'f EventLoop \<Rightarrow> bool option" where
  "done_cond s =
     (if m_num_clients s < 0 then None
      else if m_num_clients s \<noteq> 0 then Some False
      else (case m_async_fns s of None \<Rightarrow> None | Some fns \<Rightarrow> Some (fns = [])))"

definition EventLoopRef_ctor :: "'f EventLoop \<Rightarrow> 'f EventLoop" where
  "EventLoopRef_ctor s = s\<lparr>m_num_clients := m_num_clients s + 1\<rparr>"

text \<open>
  The locked part of \<open>EventLoopRef::reset\<close> on a reference that is not null. The flag says
  that the loop is done: the caller has notified and, after unlocking, writes to the pipe.
\<close>

definition EventLoopRef_reset :: "'f EventLoop \<Rightarrow> (bool \<times> 'f EventLoop) option" where
  "EventLoopRef_reset s =
     (if m_num_clients s > 0
      then
        (let s1 = s\<lparr>m_num_clients := m_num_clients s - 1\<rparr>
         in case done_cond s1 of
              None \<Rightarrow> None
            | Some d \<Rightarrow> Some (d, if d then notify_all s1 else s1))
      else None)"

subsection \<open>post\<close>

text \<open>
  On the loop thread the function is called directly. On another thread: take a reference,
  wait until the slot is free and fill it; write a byte; wait until the loop has emptied the
  slot; drop the reference, and write another byte if that was the last one.
\<close>

definition post_direct :: "tid \<Rightarrow> 'f EventLoop \<Rightarrow> 'f EventLoop" where
  "post_direct i s =
     s\<lparr>called := (called s)(i := called s i + 1), ran := (ran s)(i := ran s i + 1),
       returned := (returned s)(i := returned s i + 1)\<rparr>"

definition post_wait1 :: "tid \<Rightarrow> 'f EventLoop \<Rightarrow> 'f EventLoop" where
  "post_wait1 i s =
     (if m_post_fn s = None
      then s\<lparr>m_post_fn := Some i, cpc := (cpc s)(i := C_Write)\<rparr>
      else s\<lparr>cpc := (cpc s)(i := C_Sleep1)\<rparr>)"

definition post_begin :: "tid \<Rightarrow> 'f EventLoop \<Rightarrow> 'f EventLoop" where
  "post_begin i s =
     post_wait1 i (EventLoopRef_ctor (s\<lparr>called := (called s)(i := called s i + 1)\<rparr>))"

definition post_write :: "tid \<Rightarrow> 'f EventLoop \<Rightarrow> 'f EventLoop" where
  "post_write i s = s\<lparr>pipe := pipe s + 1, cpc := (cpc s)(i := C_Check2)\<rparr>"

definition post_wait2 :: "tid \<Rightarrow> 'f EventLoop \<Rightarrow> 'f EventLoop option" where
  "post_wait2 i s =
     (if m_post_fn s \<noteq> Some i
      then
        (case EventLoopRef_reset s of
           None \<Rightarrow> None
         | Some (d, s1) \<Rightarrow>
             Some (s1\<lparr>cpc := (cpc s1)(i := if d then C_Signal else C_Idle),
                      returned := (returned s1)(i := returned s1 i + 1)\<rparr>))
      else Some (s\<lparr>cpc := (cpc s)(i := C_Sleep2)\<rparr>))"

text \<open>Dropping a reference outside \<open>post\<close>, and the write that may follow either way.\<close>

definition release_ref :: "tid \<Rightarrow> 'f EventLoop \<Rightarrow> 'f EventLoop option" where
  "release_ref i s =
     (case EventLoopRef_reset s of
        None \<Rightarrow> None
      | Some (d, s1) \<Rightarrow>
          Some (s1\<lparr>cpc := (cpc s1)(i := if d then C_Signal else C_Idle),
                   refs := (refs s1)(i := refs s1 i - 1)\<rparr>))"

definition signal_write :: "tid \<Rightarrow> 'f EventLoop \<Rightarrow> 'f EventLoop" where
  "signal_write i s = s\<lparr>pipe := pipe s + 1, cpc := (cpc s)(i := C_Idle)\<rparr>"

subsection \<open>loop\<close>

definition loop_enter :: "'f EventLoop \<Rightarrow> 'f EventLoop option" where
  "loop_enter s =
     (case m_async_fns s of
        Some _ \<Rightarrow> None
      | None \<Rightarrow> Some (s\<lparr>m_async_fns := Some [], lpc := L_Read\<rparr>))"

definition loop_read :: "'f EventLoop \<Rightarrow> 'f EventLoop option" where
  "loop_read s =
     (let s1 = s\<lparr>pipe := pipe s - 1\<rparr>
      in case m_post_fn s1 of
           Some i \<Rightarrow> Some (s1\<lparr>lpc := L_Run i\<rparr>)
         | None \<Rightarrow>
             (case done_cond s1 of
                None \<Rightarrow> None
              | Some d \<Rightarrow> Some (if d then s1\<lparr>lpc := L_Closing\<rparr> else s1)))"

text \<open>The posted function has returned, or thrown an exception that was logged.\<close>

definition loop_ran :: "tid \<Rightarrow> 'f EventLoop \<Rightarrow> 'f EventLoop" where
  "loop_ran i s =
     notify_all (s\<lparr>m_post_fn := None, lpc := L_Read, ran := (ran s)(i := ran s i + 1)\<rparr>)"

definition loop_close :: "'f EventLoop \<Rightarrow> 'f EventLoop" where
  "loop_close s = s\<lparr>fd_open := False, lpc := L_Finish\<rparr>"

definition loop_finish :: "'f EventLoop \<Rightarrow> 'f EventLoop" where
  "loop_finish s = notify_all (s\<lparr>m_async_fns := None, lpc := L_Closed\<rparr>)"

text \<open>The assertions of \<open>~EventLoop\<close>, after it has joined the asynchronous thread.\<close>

definition EventLoop_dtor_asserts :: "'f EventLoop \<Rightarrow> bool" where
  "EventLoop_dtor_asserts s \<longleftrightarrow>
     m_post_fn s = None \<and> m_async_fns s = None \<and> \<not> fd_open s \<and> m_num_clients s = 0"

subsection \<open>Asynchronous cleanup\<close>

definition startAsyncThread :: "'f EventLoop \<Rightarrow> 'f EventLoop option" where
  "startAsyncThread s =
     (if apc s \<noteq> A_Unstarted then Some (notify_all s)
      else (case m_async_fns s of
              None \<Rightarrow> None
            | Some fns \<Rightarrow> Some (if fns \<noteq> [] then s\<lparr>apc := A_Check\<rparr> else s)))"

definition addAsyncCleanup :: "'f \<Rightarrow> 'f EventLoop \<Rightarrow> 'f EventLoop option" where
  "addAsyncCleanup fn s =
     (case m_async_fns s of
        None \<Rightarrow> None
      | Some fns \<Rightarrow>
          startAsyncThread (s\<lparr>m_async_fns := Some (fns @ [fn]), async_added := async_added s @ [fn]\<rparr>))"

definition async_check :: "'f EventLoop \<Rightarrow> 'f EventLoop" where
  "async_check s =
     (case m_async_fns s of
        None \<Rightarrow> s\<lparr>apc := A_Exit\<rparr>
      | Some [] \<Rightarrow> s\<lparr>apc := A_Sleep\<rparr>
      | Some (fn # fns) \<Rightarrow> (EventLoopRef_ctor s)\<lparr>m_async_fns := Some fns, apc := A_Run fn\<rparr>)"

definition async_done :: "'f \<Rightarrow> 'f EventLoop \<Rightarrow> 'f EventLoop option" where
  "async_done fn s =
     (case EventLoopRef_reset s of
        None \<Rightarrow> None
      | Some (d, s1) \<Rightarrow>
          Some (s1\<lparr>apc := if d then A_Signal else A_Check, async_ran := async_ran s1 @ [fn]\<rparr>))"

definition async_signal :: "'f EventLoop \<Rightarrow> 'f EventLoop" where
  "async_signal s = s\<lparr>pipe := pipe s + 1, apc := A_Check\<rparr>"

section \<open>Steps\<close>

text \<open>
  \<open>L\<close> is the loop thread, \<open>A\<close> the asynchronous worker, \<open>T\<close> all threads. A thread runs code
  of its own (so may start an operation) when it is in none: the loop thread between events or
  inside a posted function, the worker inside a cleanup function. Threads use the loop while
  they hold a reference to it; the worker holds one of its own while it runs a function.
\<close>

fun running_fn :: "'f async_pc \<Rightarrow> bool" where
  "running_fn (A_Run _) = True"
| "running_fn _ = False"

fun loop_active :: "loop_pc \<Rightarrow> bool" where
  "loop_active L_Read = True"
| "loop_active (L_Run _) = True"
| "loop_active _ = False"

definition active :: "tid \<Rightarrow> tid \<Rightarrow> tid \<Rightarrow> 'f EventLoop \<Rightarrow> bool" where
  "active L A i s \<longleftrightarrow>
     cpc s i = C_Idle \<and> (i = L \<longrightarrow> loop_active (lpc s)) \<and> (i = A \<longrightarrow> running_fn (apc s))"

definition holds_ref :: "tid \<Rightarrow> tid \<Rightarrow> 'f EventLoop \<Rightarrow> bool" where
  "holds_ref A i s \<longleftrightarrow> refs s i > 0 \<or> (i = A \<and> running_fn (apc s))"

inductive loop_step :: "tid \<Rightarrow> tid \<Rightarrow> tid set \<Rightarrow> 'f EventLoop \<Rightarrow> 'f EventLoop \<Rightarrow> bool"
  for L A T where
  new_ref: "i \<in> T \<Longrightarrow> active L A i s \<Longrightarrow> holds_ref A i s \<Longrightarrow>
    loop_step L A T s ((EventLoopRef_ctor s)\<lparr>refs := (refs s)(i := refs s i + 1)\<rparr>)"
| move_ref: "i \<in> T \<Longrightarrow> j \<in> T \<Longrightarrow> i \<noteq> j \<Longrightarrow> refs s i > 0 \<Longrightarrow>
    loop_step L A T s (s\<lparr>refs := (refs s)(i := refs s i - 1, j := refs s j + 1)\<rparr>)"
| drop_ref: "i \<in> T \<Longrightarrow> active L A i s \<Longrightarrow> refs s i > 0 \<Longrightarrow> release_ref i s = Some t \<Longrightarrow>
    loop_step L A T s t"
| signal: "i \<in> T \<Longrightarrow> cpc s i = C_Signal \<Longrightarrow> loop_step L A T s (signal_write i s)"
| post_on_loop: "L \<in> T \<Longrightarrow> active L A L s \<Longrightarrow> loop_step L A T s (post_direct L s)"
| post_start: "i \<in> T \<Longrightarrow> i \<noteq> L \<Longrightarrow> active L A i s \<Longrightarrow> holds_ref A i s \<Longrightarrow>
    loop_step L A T s (post_begin i s)"
| post_check1: "i \<in> T \<Longrightarrow> cpc s i = C_Check1 \<Longrightarrow> loop_step L A T s (post_wait1 i s)"
| post_byte: "i \<in> T \<Longrightarrow> cpc s i = C_Write \<Longrightarrow> loop_step L A T s (post_write i s)"
| post_check2: "i \<in> T \<Longrightarrow> cpc s i = C_Check2 \<Longrightarrow> post_wait2 i s = Some t \<Longrightarrow> loop_step L A T s t"
| read_byte: "lpc s = L_Read \<Longrightarrow> cpc s L = C_Idle \<Longrightarrow> pipe s > 0 \<Longrightarrow> loop_read s = Some t \<Longrightarrow>
    loop_step L A T s t"
| ran_fn: "lpc s = L_Run i \<Longrightarrow> cpc s L = C_Idle \<Longrightarrow> loop_step L A T s (loop_ran i s)"
| close_fd: "lpc s = L_Closing \<Longrightarrow> loop_step L A T s (loop_close s)"
| finish: "lpc s = L_Finish \<Longrightarrow> loop_step L A T s (loop_finish s)"
| add_async: "L \<in> T \<Longrightarrow> active L A L s \<Longrightarrow> refs s L > 0 \<Longrightarrow> addAsyncCleanup fn s = Some t \<Longrightarrow>
    loop_step L A T s t"
| async_wait: "apc s = A_Check \<Longrightarrow> loop_step L A T s (async_check s)"
| async_ret: "apc s = A_Run fn \<Longrightarrow> cpc s A = C_Idle \<Longrightarrow> async_done fn s = Some t \<Longrightarrow>
    loop_step L A T s t"
| async_byte: "apc s = A_Signal \<Longrightarrow> loop_step L A T s (async_signal s)"

text \<open>
  The loop starts with references held by some threads, as the constructors of the first
  connections leave them, and nobody inside an operation.
\<close>

definition EventLoop_ctor :: "'f EventLoop" where
  "EventLoop_ctor =
     \<lparr>m_post_fn = None, m_async_fns = None, m_num_clients = 0, pipe = 0, fd_open = True,
      refs = (\<lambda>_. 0), cpc = (\<lambda>_. C_Idle), lpc = L_Closed, apc = A_Unstarted,
      called = (\<lambda>_. 0), returned = (\<lambda>_. 0), ran = (\<lambda>_. 0), async_added = [], async_ran = []\<rparr>"

definition loop_start :: "tid \<Rightarrow> tid \<Rightarrow> tid set \<Rightarrow> 'f EventLoop \<Rightarrow> bool" where
  "loop_start L A T s \<longleftrightarrow>
     finite T \<and> L \<in> T \<and> A \<in> T \<and> L \<noteq> A \<and>
     (\<exists>r. 0 < tally int r T \<and>
        loop_enter (EventLoop_ctor\<lparr>refs := r, m_num_clients := tally int r T\<rparr>) = Some s)"

end
