(* ===== verification/LoopInv.thy ===== *)
theory LoopInv
  imports EventLoop
begin

text \<open>
  The invariant of the event loop of \<open>src/mp/proxy.cpp\<close>: the count of clients, the slot of \<open>post\<close>, the
  bytes in the pipe, the asynchronous thread and the calls that are counted; every step keeps it.
\<close>

section \<open>The invariant\<close>

fun in_post :: "client_pc \<Rightarrow> int" where
  "in_post C_Idle = 0"
| "in_post C_Signal = 0"
| "in_post _ = 1"

fun to_write :: "client_pc \<Rightarrow> int" where
  "to_write C_Write = 1"
| "to_write C_Signal = 1"
| "to_write _ = 0"

fun async_to_write :: "'f async_pc \<Rightarrow> int" where
  "async_to_write A_Signal = 1"
| "async_to_write _ = 0"

definition is_done :: "'f EventLoop \<Rightarrow> bool" where
  "is_done s \<longleftrightarrow> m_num_clients s = 0 \<and> m_async_fns s = Some []"

text \<open>The reference count is the number of references there are.\<close>

definition inv_count :: "tid set \<Rightarrow> 'f EventLoop \<Rightarrow> bool" where
  "inv_count T s \<longleftrightarrow>
     m_num_clients s =
       tally int (refs s) T + tally in_post (cpc s) T + (if running_fn (apc s) then 1 else 0)"

text \<open>The slot and the threads in \<open>post\<close> agree; no thread sleeps on a condition that holds.\<close>

fun pc_ok :: "tid option \<Rightarrow> tid \<Rightarrow> client_pc \<Rightarrow> bool" where
  "pc_ok m i C_Write = (m = Some i)"
| "pc_ok m i C_Sleep1 = (m \<noteq> None)"
| "pc_ok m i C_Sleep2 = (m = Some i)"
| "pc_ok m i _ = True"

fun owner_pc :: "client_pc \<Rightarrow> bool" where
  "owner_pc C_Write = True"
| "owner_pc C_Check2 = True"
| "owner_pc C_Sleep2 = True"
| "owner_pc _ = False"

definition slot_ok :: "tid set \<Rightarrow> (tid \<Rightarrow> client_pc) \<Rightarrow> tid option \<Rightarrow> bool" where
  "slot_ok T f m \<longleftrightarrow> (case m of None \<Rightarrow> True | Some i \<Rightarrow> i \<in> T \<and> owner_pc (f i))"

fun lpc_ok :: "tid option \<Rightarrow> loop_pc \<Rightarrow> bool" where
  "lpc_ok m (L_Run i) = (m = Some i)"
| "lpc_ok m _ = True"

definition inv_post :: "tid \<Rightarrow> tid \<Rightarrow> tid set \<Rightarrow> 'f EventLoop \<Rightarrow> bool" where
  "inv_post L A T s \<longleftrightarrow>
     slot_ok T (cpc s) (m_post_fn s) \<and>
     (\<forall>i. pc_ok (m_post_fn s) i (cpc s i)) \<and>
     (cpc s L = C_Idle \<or> cpc s L = C_Signal \<and> loop_active (lpc s)) \<and>
     (running_fn (apc s) \<or> cpc s A = C_Idle) \<and>
     lpc_ok (m_post_fn s) (lpc s)"

text \<open>
  One byte is in the pipe or about to be written for a posted function that the loop has not
  yet picked up, and one for the state in which the loop may exit; there are no others.
\<close>

definition inv_bytes :: "tid set \<Rightarrow> 'f EventLoop \<Rightarrow> bool" where
  "inv_bytes T s \<longleftrightarrow>
     int (pipe s) + tally to_write (cpc s) T + async_to_write (apc s) =
       (if lpc s = L_Read \<and> m_post_fn s \<noteq> None then 1 else 0) +
       (if loop_active (lpc s) \<and> is_done s then 1 else 0)"

definition inv_loop :: "'f EventLoop \<Rightarrow> bool" where
  "inv_loop s \<longleftrightarrow>
     (\<not> loop_active (lpc s) \<longrightarrow> m_num_clients s = 0 \<and> m_post_fn s = None) \<and>
     (lpc s \<in> {L_Closing, L_Finish} \<longrightarrow> m_async_fns s = Some []) \<and>
     (m_async_fns s = None \<longleftrightarrow> lpc s = L_Closed) \<and>
     (fd_open s \<longleftrightarrow> lpc s \<notin> {L_Finish, L_Closed})"

definition inv_async :: "'f EventLoop \<Rightarrow> bool" where
  "inv_async s \<longleftrightarrow>
     (apc s = A_Sleep \<longrightarrow> m_async_fns s = Some []) \<and>
     (apc s = A_Exit \<longrightarrow> m_async_fns s = None) \<and>
     (apc s = A_Unstarted \<longrightarrow> m_async_fns s = Some [] \<or> m_async_fns s = None) \<and>
     async_added s =
       async_ran s @ (case apc s of A_Run fn \<Rightarrow> [fn] | _ \<Rightarrow> []) @
       (case m_async_fns s of Some fns \<Rightarrow> fns | None \<Rightarrow> [])"

definition calls_ok :: "tid option \<Rightarrow> tid \<Rightarrow> client_pc \<Rightarrow> nat \<Rightarrow> nat \<Rightarrow> nat \<Rightarrow> bool" where
  "calls_ok m i p c rt rn \<longleftrightarrow>
     int c = int rt + in_post p \<and>
     rn = rt + (if (p = C_Check2 \<or> p = C_Sleep2) \<and> m \<noteq> Some i then 1 else 0)"

definition inv_calls :: "'f EventLoop \<Rightarrow> bool" where
  "inv_calls s \<longleftrightarrow>
     (\<forall>i. calls_ok (m_post_fn s) i (cpc s i) (called s i) (returned s i) (ran s i))"

definition loop_inv :: "tid \<Rightarrow> tid \<Rightarrow> tid set \<Rightarrow> 'f EventLoop \<Rightarrow> bool" where
  "loop_inv L A T s \<longleftrightarrow>
     finite T \<and> L \<in> T \<and> A \<in> T \<and> L \<noteq> A \<and>
     inv_count T s \<and> inv_post L A T s \<and> inv_bytes T s \<and> inv_loop s \<and> inv_async s \<and> inv_calls s"

lemmas loop_inv_defs =
  loop_inv_def inv_count_def inv_post_def inv_bytes_def inv_loop_def inv_async_def inv_calls_def

section \<open>Weights\<close>

lemma in_post_wake [simp]: "in_post (wake p) = in_post p"
  by (cases p) simp_all

lemma to_write_wake [simp]: "to_write (wake p) = to_write p"
  by (cases p) simp_all

lemma weights_nonneg [simp]: "0 \<le> in_post p" "0 \<le> to_write p" "0 \<le> async_to_write a"
  by (cases p; simp)+ (cases a; simp)

lemma tally_wake [simp]:
  "tally in_post (\<lambda>i. wake (cpc s i)) T = tally in_post (cpc s) T"
  "tally to_write (\<lambda>i. wake (cpc s i)) T = tally to_write (cpc s) T"
  by (simp_all add: tally_cong)

lemma wake_eq [simp]:
  "wake p = C_Idle \<longleftrightarrow> p = C_Idle" "wake p = C_Signal \<longleftrightarrow> p = C_Signal"
  "wake p = C_Write \<longleftrightarrow> p = C_Write" "wake p \<noteq> C_Sleep1" "wake p \<noteq> C_Sleep2"
  "wake p = C_Check1 \<longleftrightarrow> p = C_Check1 \<or> p = C_Sleep1"
  "wake p = C_Check2 \<longleftrightarrow> p = C_Check2 \<or> p = C_Sleep2"
  by (cases p; simp)+

lemma done_cond_eq:
  "0 \<le> m_num_clients s \<Longrightarrow> m_async_fns s \<noteq> None \<Longrightarrow> done_cond s = Some (is_done s)"
  by (auto simp: done_cond_def is_done_def split: option.splits)

text \<open>Anyone holding a reference, or inside \<open>post\<close>, keeps the count positive.\<close>

lemma count_nonneg: "inv_count T s \<Longrightarrow> 0 \<le> m_num_clients s"
  by (auto simp: inv_count_def tally_nonneg intro!: add_nonneg_nonneg)

lemma count_pos_ref:
  "loop_inv L A T s \<Longrightarrow> i \<in> T \<Longrightarrow> refs s i > 0 \<Longrightarrow> 0 < m_num_clients s"
  using tally_member [of T i int "refs s"] tally_nonneg [of in_post "cpc s" T]
  by (auto simp: loop_inv_def inv_count_def)

lemma count_pos_post:
  "loop_inv L A T s \<Longrightarrow> i \<in> T \<Longrightarrow> in_post (cpc s i) = 1 \<Longrightarrow> 0 < m_num_clients s"
  using tally_member [of T i in_post "cpc s"] tally_nonneg [of int "refs s" T]
  by (auto simp: loop_inv_def inv_count_def)

lemma count_pos_run: "loop_inv L A T s \<Longrightarrow> running_fn (apc s) \<Longrightarrow> 0 < m_num_clients s"
  using tally_nonneg [of in_post "cpc s" T] tally_nonneg [of int "refs s" T]
  by (auto simp: loop_inv_def inv_count_def)

lemma count_pos_holds: "loop_inv L A T s \<Longrightarrow> i \<in> T \<Longrightarrow> holds_ref A i s \<Longrightarrow> 0 < m_num_clients s"
  using count_pos_ref count_pos_run unfolding holds_ref_def by blast

lemma slotD: "loop_inv L A T s \<Longrightarrow> m_post_fn s = Some i \<Longrightarrow> i \<in> T \<and> owner_pc (cpc s i)"
  by (simp add: loop_inv_def inv_post_def slot_ok_def)

lemma owner_in_post: "owner_pc p \<Longrightarrow> in_post p = 1"
  by (cases p) simp_all

lemma count_pos_slot: "loop_inv L A T s \<Longrightarrow> m_post_fn s = Some i \<Longrightarrow> 0 < m_num_clients s"
  using slotD count_pos_post owner_in_post by blast

text \<open>While the count is positive the loop is running and its list of functions exists.\<close>

lemma count_pos_active:
  "loop_inv L A T s \<Longrightarrow> 0 < m_num_clients s \<Longrightarrow> loop_active (lpc s) \<and> m_async_fns s \<noteq> None \<and> \<not> is_done s"
  by (auto simp: loop_inv_def inv_loop_def is_done_def)

lemma pc_ok_wake: "pc_ok m i (wake p) \<longleftrightarrow> (p = C_Write \<longrightarrow> m = Some i)"
  by (cases p) simp_all

lemma pc_ok_wake': "pc_ok m i p \<Longrightarrow> pc_ok m i (wake p)"
  by (cases p) simp_all

lemma owner_pc_wake [simp]: "owner_pc (wake p) = owner_pc p"
  by (cases p) simp_all

lemma slot_ok_wake [simp]: "slot_ok T (\<lambda>i. wake (f i)) m = slot_ok T f m"
  by (simp add: slot_ok_def split: option.splits)

lemma calls_ok_wake [simp]: "calls_ok m i (wake p) c rt rn = calls_ok m i p c rt rn"
  by (cases p) (simp_all add: calls_ok_def)

lemma running_fn_eq: "running_fn a \<longleftrightarrow> (\<exists>fn. a = A_Run fn)"
  by (cases a) auto

section \<open>Every step keeps the invariant\<close>

text \<open>The fields each part of the invariant does not look at.\<close>

lemma inv_count_frame [simp]:
  "inv_count T (s\<lparr>m_post_fn := x1\<rparr>) = inv_count T s" "inv_count T (s\<lparr>m_async_fns := x2\<rparr>) = inv_count T s"
  "inv_count T (s\<lparr>pipe := x3\<rparr>) = inv_count T s" "inv_count T (s\<lparr>fd_open := x4\<rparr>) = inv_count T s"
  "inv_count T (s\<lparr>lpc := x5\<rparr>) = inv_count T s" "inv_count T (s\<lparr>called := x6\<rparr>) = inv_count T s"
  "inv_count T (s\<lparr>returned := x7\<rparr>) = inv_count T s" "inv_count T (s\<lparr>ran := x8\<rparr>) = inv_count T s"
  "inv_count T (s\<lparr>async_added := x9\<rparr>) = inv_count T s" "inv_count T (s\<lparr>async_ran := x10\<rparr>) = inv_count T s"
  by (simp_all add: inv_count_def)

lemma inv_post_frame [simp]:
  "inv_post L A T (s\<lparr>m_async_fns := x1\<rparr>) = inv_post L A T s" "inv_post L A T (s\<lparr>m_num_clients := x2\<rparr>) = inv_post L A T s"
  "inv_post L A T (s\<lparr>pipe := x3\<rparr>) = inv_post L A T s" "inv_post L A T (s\<lparr>fd_open := x4\<rparr>) = inv_post L A T s"
  "inv_post L A T (s\<lparr>refs := x5\<rparr>) = inv_post L A T s" "inv_post L A T (s\<lparr>called := x6\<rparr>) = inv_post L A T s"
  "inv_post L A T (s\<lparr>returned := x7\<rparr>) = inv_post L A T s" "inv_post L A T (s\<lparr>ran := x8\<rparr>) = inv_post L A T s"
  "inv_post L A T (s\<lparr>async_added := x9\<rparr>) = inv_post L A T s" "inv_post L A T (s\<lparr>async_ran := x10\<rparr>) = inv_post L A T s"
  by (simp_all add: inv_post_def)

lemma inv_bytes_frame [simp]:
  "inv_bytes T (s\<lparr>fd_open := x1\<rparr>) = inv_bytes T s" "inv_bytes T (s\<lparr>refs := x2\<rparr>) = inv_bytes T s"
  "inv_bytes T (s\<lparr>called := x3\<rparr>) = inv_bytes T s" "inv_bytes T (s\<lparr>returned := x4\<rparr>) = inv_bytes T s"
  "inv_bytes T (s\<lparr>ran := x5\<rparr>) = inv_bytes T s" "inv_bytes T (s\<lparr>async_added := x6\<rparr>) = inv_bytes T s"
  "inv_bytes T (s\<lparr>async_ran := x7\<rparr>) = inv_bytes T s"
  by (simp_all add: inv_bytes_def is_done_def)

lemma inv_loop_frame [simp]:
  "inv_loop (s\<lparr>pipe := x1\<rparr>) = inv_loop s" "inv_loop (s\<lparr>refs := x2\<rparr>) = inv_loop s"
  "inv_loop (s\<lparr>cpc := x3\<rparr>) = inv_loop s" "inv_loop (s\<lparr>apc := x4\<rparr>) = inv_loop s"
  "inv_loop (s\<lparr>called := x5\<rparr>) = inv_loop s" "inv_loop (s\<lparr>returned := x6\<rparr>) = inv_loop s"
  "inv_loop (s\<lparr>ran := x7\<rparr>) = inv_loop s" "inv_loop (s\<lparr>async_added := x8\<rparr>) = inv_loop s"
  "inv_loop (s\<lparr>async_ran := x9\<rparr>) = inv_loop s"
  by (simp_all add: inv_loop_def)

lemma inv_async_frame [simp]:
  "inv_async (s\<lparr>m_post_fn := x1\<rparr>) = inv_async s" "inv_async (s\<lparr>m_num_clients := x2\<rparr>) = inv_async s"
  "inv_async (s\<lparr>pipe := x3\<rparr>) = inv_async s" "inv_async (s\<lparr>fd_open := x4\<rparr>) = inv_async s"
  "inv_async (s\<lparr>refs := x5\<rparr>) = inv_async s" "inv_async (s\<lparr>cpc := x6\<rparr>) = inv_async s"
  "inv_async (s\<lparr>lpc := x7\<rparr>) = inv_async s" "inv_async (s\<lparr>called := x8\<rparr>) = inv_async s"
  "inv_async (s\<lparr>returned := x9\<rparr>) = inv_async s" "inv_async (s\<lparr>ran := x10\<rparr>) = inv_async s"
  by (simp_all add: inv_async_def)

lemma inv_calls_frame [simp]:
  "inv_calls (s\<lparr>m_async_fns := x1\<rparr>) = inv_calls s" "inv_calls (s\<lparr>m_num_clients := x2\<rparr>) = inv_calls s"
  "inv_calls (s\<lparr>pipe := x3\<rparr>) = inv_calls s" "inv_calls (s\<lparr>fd_open := x4\<rparr>) = inv_calls s"
  "inv_calls (s\<lparr>refs := x5\<rparr>) = inv_calls s" "inv_calls (s\<lparr>lpc := x6\<rparr>) = inv_calls s"
  "inv_calls (s\<lparr>apc := x7\<rparr>) = inv_calls s" "inv_calls (s\<lparr>async_added := x8\<rparr>) = inv_calls s"
  "inv_calls (s\<lparr>async_ran := x9\<rparr>) = inv_calls s"
  by (simp_all add: inv_calls_def)

lemma loop_invD:
  assumes "loop_inv L A T s"
  shows "finite T" "L \<in> T" "A \<in> T" "L \<noteq> A" "inv_count T s" "inv_post L A T s" "inv_bytes T s"
    "inv_loop s" "inv_async s" "inv_calls s"
  using assms by (simp_all add: loop_inv_def)

lemma pc_okD: "inv_post L A T s \<Longrightarrow> pc_ok (m_post_fn s) i (cpc s i)"
  by (simp add: inv_post_def)

lemma calls_okD: "inv_calls s \<Longrightarrow> calls_ok (m_post_fn s) i (cpc s i) (called s i) (returned s i) (ran s i)"
  by (simp add: inv_calls_def)

text \<open>
  Moving one thread from one place to another, the slot unchanged: what the parts of the
  invariant about threads need to know of the two places.
\<close>

lemma slot_ok_upd:
  "slot_ok T f m \<Longrightarrow> (m = Some i \<Longrightarrow> owner_pc p) \<Longrightarrow> slot_ok T (f(i := p)) m"
  by (cases m) (auto simp: slot_ok_def)

lemma inv_post_move:
  assumes "inv_post L A T s" "pc_ok (m_post_fn s) i p"
    "m_post_fn s = Some i \<Longrightarrow> owner_pc p"
    "i = L \<Longrightarrow> p = C_Idle \<or> p = C_Signal \<and> loop_active (lpc s)"
    "i = A \<Longrightarrow> running_fn (apc s) \<or> p = C_Idle"
  shows "inv_post L A T (s\<lparr>cpc := (cpc s)(i := p)\<rparr>)"
  using assms by (simp add: inv_post_def slot_ok_upd)

lemma inv_calls_move:
  assumes "inv_calls s" "calls_ok (m_post_fn s) i p c rt rn"
  shows "inv_calls (s\<lparr>cpc := (cpc s)(i := p), called := (called s)(i := c),
                      returned := (returned s)(i := rt), ran := (ran s)(i := rn)\<rparr>)"
  using assms by (simp add: inv_calls_def)

lemma inv_calls_pc:
  assumes "inv_calls s" "calls_ok (m_post_fn s) i p (called s i) (returned s i) (ran s i)"
  shows "inv_calls (s\<lparr>cpc := (cpc s)(i := p)\<rparr>)"
  using assms by (simp add: inv_calls_def)

text \<open>\<open>notify_all\<close> keeps the invariant: it only lets sleepers look again.\<close>

lemma inv_post_notify: "inv_post L A T s \<Longrightarrow> inv_post L A T (notify_all s)"
  by (cases "apc s") (simp_all add: inv_post_def notify_all_def pc_ok_wake')

lemma inv_async_notify: "inv_async s \<Longrightarrow> inv_async (notify_all s)"
  by (simp add: inv_async_def notify_all_def)

lemma inv_count_notify: "inv_count T (notify_all s) = inv_count T s"
  by (simp add: inv_count_def notify_all_def)

lemma inv_bytes_notify: "inv_bytes T (notify_all s) = inv_bytes T s"
  by (simp add: inv_bytes_def notify_all_def is_done_def)

lemma inv_loop_notify: "inv_loop (notify_all s) = inv_loop s"
  by (simp add: notify_all_def)

lemma inv_calls_notify: "inv_calls (notify_all s) = inv_calls s"
  by (simp add: inv_calls_def notify_all_def)

lemmas notify_inv =
  inv_post_notify inv_async_notify inv_count_notify inv_bytes_notify inv_loop_notify inv_calls_notify

lemma loop_inv_notify: "loop_inv L A T s \<Longrightarrow> loop_inv L A T (notify_all s)"
  by (simp add: loop_inv_def notify_inv)

text \<open>Rules that release no reference and change at most one thread in \<open>post\<close>.\<close>

lemma loop_inv_new_ref:
  assumes "loop_inv L A T s" "i \<in> T" "holds_ref A i s"
  shows "loop_inv L A T ((EventLoopRef_ctor s)\<lparr>refs := (refs s)(i := refs s i + 1)\<rparr>)"
proof -
  note pos = count_pos_holds [OF assms]
  note act = count_pos_active [OF assms(1) pos]
  note inv = loop_invD [OF assms(1)]
  have "inv_count T ((EventLoopRef_ctor s)\<lparr>refs := (refs s)(i := refs s i + 1)\<rparr>)"
    using inv assms(2) by (simp add: inv_count_def EventLoopRef_ctor_def tally_upd)
  moreover have "inv_bytes T (EventLoopRef_ctor s)"
    using inv pos act by (simp add: inv_bytes_def EventLoopRef_ctor_def is_done_def)
  moreover have "inv_loop (EventLoopRef_ctor s)"
    using inv pos act by (simp add: inv_loop_def EventLoopRef_ctor_def)
  ultimately show ?thesis
    using inv by (simp add: loop_inv_def EventLoopRef_ctor_def)
qed

lemma loop_inv_move_ref:
  assumes "loop_inv L A T s" "i \<in> T" "j \<in> T" "i \<noteq> j" "refs s i > 0"
  shows "loop_inv L A T (s\<lparr>refs := (refs s)(i := refs s i - 1, j := refs s j + 1)\<rparr>)"
proof -
  note inv = loop_invD [OF assms(1)]
  have "inv_count T (s\<lparr>refs := (refs s)(i := refs s i - 1, j := refs s j + 1)\<rparr>)"
    using inv assms by (simp add: inv_count_def tally_upd)
  then show ?thesis
    using inv by (simp add: loop_inv_def)
qed

lemma loop_inv_signal:
  assumes "loop_inv L A T s" "i \<in> T" "cpc s i = C_Signal"
  shows "loop_inv L A T (signal_write i s)"
proof -
  note inv = loop_invD [OF assms(1)]
  have "m_post_fn s \<noteq> Some i"
    using slotD [OF assms(1)] assms(3) by auto
  then have "inv_post L A T (signal_write i s)"
    using inv(6) slot_ok_upd [of T "cpc s" "m_post_fn s" i C_Idle]
    by (simp add: signal_write_def inv_post_def)
  moreover have "inv_calls (signal_write i s)"
    using inv(10) calls_okD [OF inv(10), of i] assms(3)
    by (simp add: signal_write_def inv_calls_def calls_ok_def)
  moreover have "inv_count T (signal_write i s)" "inv_bytes T (signal_write i s)"
    using inv assms by (simp_all add: inv_count_def inv_bytes_def signal_write_def tally_upd is_done_def)
  ultimately show ?thesis
    using inv by (simp add: loop_inv_def signal_write_def)
qed

lemma loop_inv_post_direct:
  assumes "loop_inv L A T s" "cpc s L = C_Idle"
  shows "loop_inv L A T (post_direct L s)"
proof -
  note inv = loop_invD [OF assms(1)]
  have "inv_calls (post_direct L s)"
    using inv(10) calls_okD [OF inv(10), of L] assms(2)
    by (simp add: post_direct_def inv_calls_def calls_ok_def)
  then show ?thesis
    using inv by (simp add: loop_inv_def post_direct_def)
qed

text \<open>Taking the slot, or falling asleep because it is taken.\<close>

lemma loop_inv_wait1:
  assumes "loop_inv L A T s" "i \<in> T" "cpc s i = C_Check1"
  shows "loop_inv L A T (post_wait1 i s)"
proof (cases "m_post_fn s")
  case None
  note inv = loop_invD [OF assms(1)]
  have pos: "0 < m_num_clients s"
    using count_pos_post [OF assms(1,2)] assms(3) by simp
  note act = count_pos_active [OF assms(1) pos]
  have read: "lpc s = L_Read"
    using inv(6) act None by (cases "lpc s") (simp_all add: inv_post_def)
  have eq: "post_wait1 i s = s\<lparr>m_post_fn := Some i, cpc := (cpc s)(i := C_Write)\<rparr>"
    using None by (simp add: post_wait1_def)
  have other: "pc_ok (Some i) j (cpc s j)" for j
    using pc_okD [OF inv(6), of j] None by (cases "cpc s j") simp_all
  have L: "L \<noteq> i" and A: "i = A \<Longrightarrow> running_fn (apc s)"
    using inv(6) assms(3) by (auto simp: inv_post_def)
  have "inv_post L A T (post_wait1 i s)"
    unfolding eq using inv(6) other L A assms(2) read
    by (auto simp: inv_post_def slot_ok_def)
  moreover have "inv_calls (post_wait1 i s)"
    unfolding eq using calls_okD [OF inv(10)] None assms(3)
    by (simp add: inv_calls_def calls_ok_def)
  moreover have "inv_count T (post_wait1 i s)" "inv_bytes T (post_wait1 i s)"
    unfolding eq using inv assms read None
    by (simp_all add: inv_count_def inv_bytes_def tally_upd is_done_def)
  moreover have "inv_loop (post_wait1 i s)"
    unfolding eq using inv act by (simp add: inv_loop_def)
  ultimately show ?thesis
    using inv by (simp add: loop_inv_def eq)
next
  case (Some k)
  note inv = loop_invD [OF assms(1)]
  have eq: "post_wait1 i s = s\<lparr>cpc := (cpc s)(i := C_Sleep1)\<rparr>"
    using Some by (simp add: post_wait1_def)
  have "k \<noteq> i"
    using slotD [OF assms(1) Some] assms(3) by auto
  then have "inv_post L A T (post_wait1 i s)"
    unfolding eq using inv(6) assms(3) Some
    by (intro inv_post_move) (auto simp: inv_post_def)
  moreover have "inv_calls (post_wait1 i s)"
    unfolding eq using calls_okD [OF inv(10), of i] assms(3) inv(10)
    by (intro inv_calls_pc) (simp_all add: calls_ok_def)
  moreover have "inv_count T (post_wait1 i s)" "inv_bytes T (post_wait1 i s)"
    unfolding eq using inv assms
    by (simp_all add: inv_count_def inv_bytes_def tally_upd is_done_def)
  ultimately show ?thesis
    using inv by (simp add: loop_inv_def eq)
qed

lemma post_wait1_pc: "post_wait1 i (s\<lparr>cpc := (cpc s)(i := p)\<rparr>) = post_wait1 i s"
  by (simp add: post_wait1_def)

lemma loop_inv_post_begin:
  assumes "loop_inv L A T s" "i \<in> T" "i \<noteq> L" "active L A i s" "holds_ref A i s"
  shows "loop_inv L A T (post_begin i s)"
proof -
  note inv = loop_invD [OF assms(1)]
  note pos = count_pos_holds [OF assms(1,2,5)]
  note act = count_pos_active [OF assms(1) pos]
  define u where "u = (EventLoopRef_ctor (s\<lparr>called := (called s)(i := called s i + 1)\<rparr>))
    \<lparr>cpc := (cpc s)(i := C_Check1)\<rparr>"
  have idle: "cpc s i = C_Idle" and A: "i = A \<Longrightarrow> running_fn (apc s)"
    using assms(4) by (simp_all add: active_def)
  have "m_post_fn s \<noteq> Some i"
    using slotD [OF assms(1)] idle by auto
  then have "inv_post L A T u"
    using inv(6) A assms(3) slot_ok_upd [of T "cpc s" "m_post_fn s" i C_Check1]
    by (auto simp: inv_post_def u_def EventLoopRef_ctor_def)
  moreover have "inv_calls u"
    using inv(10) calls_okD [OF inv(10), of i] idle
    by (simp add: inv_calls_def calls_ok_def u_def EventLoopRef_ctor_def)
  moreover have "inv_count T u" "inv_bytes T u"
    using inv assms(2) idle act pos
    by (simp_all add: inv_count_def inv_bytes_def tally_upd is_done_def u_def EventLoopRef_ctor_def)
  moreover have "inv_loop u" "inv_async u"
    using inv act by (simp_all add: inv_loop_def u_def EventLoopRef_ctor_def)
  ultimately have "loop_inv L A T u"
    using inv by (simp add: loop_inv_def)
  then have "loop_inv L A T (post_wait1 i u)"
    by (rule loop_inv_wait1 [OF _ assms(2)]) (simp add: u_def)
  moreover have "post_wait1 i u = post_begin i s"
    by (simp add: u_def post_begin_def EventLoopRef_ctor_def post_wait1_def)
  ultimately show ?thesis by simp
qed

lemma loop_inv_write:
  assumes "loop_inv L A T s" "i \<in> T" "cpc s i = C_Write"
  shows "loop_inv L A T (post_write i s)"
proof -
  note inv = loop_invD [OF assms(1)]
  have slot: "m_post_fn s = Some i"
    using pc_okD [OF inv(6), of i] assms(3) by simp
  have "inv_post L A T (s\<lparr>cpc := (cpc s)(i := C_Check2)\<rparr>)"
    using inv(6) assms(3) by (intro inv_post_move) (auto simp: inv_post_def)
  moreover have "inv_calls (s\<lparr>cpc := (cpc s)(i := C_Check2)\<rparr>)"
    using calls_okD [OF inv(10), of i] assms(3) inv(10) slot
    by (intro inv_calls_pc) (simp_all add: calls_ok_def)
  moreover have "inv_count T (post_write i s)" "inv_bytes T (post_write i s)"
    using inv assms by (simp_all add: inv_count_def inv_bytes_def tally_upd is_done_def post_write_def)
  ultimately show ?thesis
    using inv by (simp add: loop_inv_def inv_post_def inv_calls_def post_write_def)
qed

text \<open>
  Releasing a reference. \<open>release u\<close> is what \<open>EventLoopRef_reset\<close> leaves when it starts from
  \<open>u\<close>; the caller then records where its thread stands.
\<close>

lemma reset_eq:
  assumes "loop_inv L A T s" "0 < m_num_clients s"
  shows "EventLoopRef_reset s =
    (let u = s\<lparr>m_num_clients := m_num_clients s - 1\<rparr>
     in Some (is_done u, if is_done u then notify_all u else u))"
proof -
  note act = count_pos_active [OF assms]
  have "done_cond (s\<lparr>m_num_clients := m_num_clients s - 1\<rparr>) =
      Some (is_done (s\<lparr>m_num_clients := m_num_clients s - 1\<rparr>))"
    using assms(2) act by (intro done_cond_eq) auto
  then show ?thesis
    using assms(2) by (simp add: EventLoopRef_reset_def Let_def)
qed

text \<open>What is left of the invariant before the released reference is accounted for.\<close>

lemma released_loop:
  assumes "loop_inv L A T s" "0 < m_num_clients s"
  shows "inv_loop (s\<lparr>m_num_clients := m_num_clients s - 1\<rparr>)"
  using loop_invD(8) [OF assms(1)] count_pos_active [OF assms] by (auto simp: inv_loop_def)

lemma signal_or_idle [simp]:
  "to_write (if d then C_Signal else C_Idle) = (if d then 1 else 0)"
  "in_post (if d then C_Signal else C_Idle) = 0"
  "pc_ok m i (if d then C_Signal else C_Idle)"
  by simp_all

text \<open>A thread in \<open>T\<close> that releases, seen before the \<open>notify_all\<close>.\<close>

lemma loop_inv_released:
  assumes "loop_inv L A T s" "i \<in> T" "0 < m_num_clients s"
    and "d = is_done (s\<lparr>m_num_clients := m_num_clients s - 1\<rparr>)"
    and "u = s\<lparr>m_num_clients := m_num_clients s - 1,
             cpc := (cpc s)(i := if d then C_Signal else C_Idle), refs := r, returned := rt\<rparr>"
    and "m_post_fn s \<noteq> Some i" "to_write (cpc s i) = 0" "i = A \<longrightarrow> running_fn (apc s)"
    and "tally int r T = tally int (refs s) T - 1 + in_post (cpc s i)"
    and "\<And>j. calls_ok (m_post_fn s) j (if j = i then C_Idle else cpc s j) (called s j) (rt j) (ran s j)"
  shows "loop_inv L A T u"
proof -
  note inv = loop_invD [OF assms(1)]
  note act = count_pos_active [OF assms(1,3)]
  let ?p = "if d then C_Signal else C_Idle"
  have "inv_post L A T (s\<lparr>cpc := (cpc s)(i := ?p)\<rparr>)"
    using inv(6) assms(6,8) act by (intro inv_post_move) auto
  then have "inv_post L A T u"
    unfolding assms(5) by (simp add: inv_post_def)
  moreover have "calls_ok (m_post_fn s) j (((cpc s)(i := ?p)) j) (called s j) (rt j) (ran s j)" for j
    using assms(10) [of j] by (cases "j = i") (simp_all add: calls_ok_def)
  then have "inv_calls u"
    unfolding assms(5) by (simp add: inv_calls_def)
  moreover have "inv_count T u"
    using inv assms(2,9) unfolding assms(5) by (simp add: inv_count_def tally_upd)
  moreover have "inv_bytes T u"
    using inv(1,7) act assms(2,3,7) unfolding assms(4,5)
    by (simp add: inv_bytes_def is_done_def tally_upd algebra_simps)
  moreover have "inv_loop u"
    using released_loop [OF assms(1,3)] unfolding assms(5) by (simp add: inv_loop_def)
  ultimately show ?thesis
    using inv unfolding assms(5) by (simp add: loop_inv_def)
qed

lemma loop_inv_drop_ref:
  assumes "loop_inv L A T s" "i \<in> T" "active L A i s" "refs s i > 0" "release_ref i s = Some t"
  shows "loop_inv L A T t"
proof -
  note inv = loop_invD [OF assms(1)]
  note pos = count_pos_ref [OF assms(1,2,4)]
  define d where "d = is_done (s\<lparr>m_num_clients := m_num_clients s - 1\<rparr>)"
  define u where "u = s\<lparr>m_num_clients := m_num_clients s - 1,
    cpc := (cpc s)(i := if d then C_Signal else C_Idle), refs := (refs s)(i := refs s i - 1),
    returned := returned s\<rparr>"
  have idle: "cpc s i = C_Idle" and A: "i = A \<longrightarrow> running_fn (apc s)"
    using assms(3) by (simp_all add: active_def)
  have slot: "m_post_fn s \<noteq> Some i"
    using slotD [OF assms(1)] idle by auto
  have calls: "calls_ok (m_post_fn s) j (if j = i then C_Idle else cpc s j) (called s j) (returned s j)
      (ran s j)" for j
    using calls_okD [OF inv(10), of j] idle by (cases "j = i") simp_all
  have "loop_inv L A T u"
    using inv(1) assms(2,4) idle A slot calls
    by (intro loop_inv_released [OF assms(1,2) pos d_def u_def]) (simp_all add: tally_upd of_nat_diff)
  moreover have "t = (if d then notify_all u else u)"
    using assms(5) reset_eq [OF assms(1) pos] idle
    by (auto simp: release_ref_def Let_def d_def [symmetric] u_def notify_all_def fun_eq_iff
        intro!: EventLoop.equality)
  ultimately show ?thesis
    using loop_inv_notify by auto
qed

lemma loop_inv_wait2:
  assumes "loop_inv L A T s" "i \<in> T" "cpc s i = C_Check2" "post_wait2 i s = Some t"
  shows "loop_inv L A T t"
proof (cases "m_post_fn s = Some i")
  case True
  note inv = loop_invD [OF assms(1)]
  have t: "t = s\<lparr>cpc := (cpc s)(i := C_Sleep2)\<rparr>"
    using assms(4) True by (simp add: post_wait2_def)
  have "inv_post L A T t"
    unfolding t using inv(6) assms(3) True by (intro inv_post_move) (auto simp: inv_post_def)
  moreover have "inv_calls t"
    unfolding t using calls_okD [OF inv(10), of i] assms(3) inv(10)
    by (intro inv_calls_pc) (simp_all add: calls_ok_def)
  moreover have "inv_count T t" "inv_bytes T t"
    unfolding t using inv assms(2,3) by (simp_all add: inv_count_def inv_bytes_def tally_upd is_done_def)
  ultimately show ?thesis
    using inv by (simp add: loop_inv_def t)
next
  case False
  note inv = loop_invD [OF assms(1)]
  have pos: "0 < m_num_clients s"
    using count_pos_post [OF assms(1,2)] assms(3) by simp
  define d where "d = is_done (s\<lparr>m_num_clients := m_num_clients s - 1\<rparr>)"
  define u where "u = s\<lparr>m_num_clients := m_num_clients s - 1,
    cpc := (cpc s)(i := if d then C_Signal else C_Idle), refs := refs s,
    returned := (returned s)(i := returned s i + 1)\<rparr>"
  have A: "i = A \<longrightarrow> running_fn (apc s)"
    using inv(6) assms(3) by (auto simp: inv_post_def)
  have calls: "calls_ok (m_post_fn s) j (if j = i then C_Idle else cpc s j) (called s j)
      (((returned s)(i := returned s i + 1)) j) (ran s j)" for j
    using calls_okD [OF inv(10), of j] assms(3) False by (cases "j = i") (simp_all add: calls_ok_def)
  have "loop_inv L A T u"
    using inv assms(2,3) A False calls
    by (intro loop_inv_released [OF assms(1,2) pos d_def u_def]) simp_all
  moreover have "t = (if d then notify_all u else u)"
    using assms(3,4) reset_eq [OF assms(1) pos] False
    by (auto simp: post_wait2_def Let_def d_def [symmetric] u_def notify_all_def fun_eq_iff
        intro!: EventLoop.equality)
  ultimately show ?thesis
    using loop_inv_notify by auto
qed

text \<open>The loop thread.\<close>

lemma loop_inv_read:
  assumes "loop_inv L A T s" "lpc s = L_Read" "cpc s L = C_Idle" "pipe s > 0" "loop_read s = Some t"
  shows "loop_inv L A T t"
proof (cases "m_post_fn s")
  case (Some i)
  note inv = loop_invD [OF assms(1)]
  have t: "t = s\<lparr>pipe := pipe s - 1, lpc := L_Run i\<rparr>"
    using assms(5) Some by (simp add: loop_read_def Let_def)
  have "inv_post L A T t" "inv_bytes T t" "inv_loop t"
    unfolding t using inv assms(2,3,4) Some
    by (simp_all add: inv_post_def inv_bytes_def is_done_def inv_loop_def of_nat_diff)
  then show ?thesis
    using inv by (simp add: loop_inv_def t)
next
  case None
  note inv = loop_invD [OF assms(1)]
  have nonneg: "0 \<le> tally to_write (cpc s) T" "0 \<le> async_to_write (apc s)"
    by (simp_all add: tally_nonneg)
  have sum: "int (pipe s) + tally to_write (cpc s) T + async_to_write (apc s) =
      (if is_done s then 1 else 0)"
    using inv(7) assms(2) None by (simp add: inv_bytes_def)
  have d: "is_done s"
  proof (rule ccontr)
    assume "\<not> is_done s"
    then have "int (pipe s) + tally to_write (cpc s) T + async_to_write (apc s) = 0"
      using sum by simp
    then show False using nonneg assms(4) by linarith
  qed
  have "int (pipe s) + tally to_write (cpc s) T + async_to_write (apc s) = 1"
    using sum d by simp
  then have p: "int (pipe s) = 1" "tally to_write (cpc s) T + async_to_write (apc s) = 0"
    using nonneg assms(4) by linarith+
  have "done_cond (s\<lparr>pipe := pipe s - 1\<rparr>) = Some True"
    using d by (simp add: done_cond_def is_done_def)
  then have t: "t = s\<lparr>pipe := pipe s - 1, lpc := L_Closing\<rparr>"
    using assms(5) None by (simp add: loop_read_def Let_def)
  have "inv_post L A T t" "inv_bytes T t" "inv_loop t"
    unfolding t using inv assms(2,3,4) None d p
    by (simp_all add: inv_post_def inv_bytes_def is_done_def inv_loop_def)
  then show ?thesis
    using inv by (simp add: loop_inv_def t)
qed

text \<open>When the loop runs a posted function, nobody has a byte left to write.\<close>

lemma run_written:
  assumes "loop_inv L A T s" "lpc s = L_Run i"
  shows "m_post_fn s = Some i" "cpc s j \<noteq> C_Write" "cpc s i \<in> {C_Check2, C_Sleep2}"
proof -
  note inv = loop_invD [OF assms(1)]
  show slot: "m_post_fn s = Some i"
    using inv(6) assms(2) by (simp add: inv_post_def)
  have "\<not> is_done s"
    using count_pos_active [OF assms(1) count_pos_slot [OF assms(1) slot]] by simp
  then have "int (pipe s) + tally to_write (cpc s) T + async_to_write (apc s) = 0"
    using inv(7) assms(2) by (simp add: inv_bytes_def)
  then have "tally to_write (cpc s) T = 0"
    using tally_nonneg [of to_write "cpc s" T, OF weights_nonneg(2)] weights_nonneg(3) [of "apc s"]
    by linarith
  then have "to_write (cpc s i) = 0"
    using tally_zero [of T to_write "cpc s" i] inv(1) slotD [OF assms(1) slot] by simp
  then have "cpc s i \<noteq> C_Write" by auto
  then show "cpc s j \<noteq> C_Write"
    using pc_okD [OF inv(6), of j] slot by (cases "cpc s j") auto
  then show "cpc s i \<in> {C_Check2, C_Sleep2}"
    using \<open>cpc s i \<noteq> C_Write\<close> slotD [OF assms(1) slot] by (cases "cpc s i") auto
qed

lemma loop_inv_ran:
  assumes "loop_inv L A T s" "lpc s = L_Run i" "cpc s L = C_Idle"
  shows "loop_inv L A T (loop_ran i s)"
proof -
  note inv = loop_invD [OF assms(1)]
  note run = run_written [OF assms(1,2)]
  let ?u = "s\<lparr>m_post_fn := None, lpc := L_Read, ran := (ran s)(i := ran s i + 1)\<rparr>"
  have pc: "pc_ok None j (wake (cpc s j))" for j
    using run(2) [of j] by (simp add: pc_ok_wake)
  have "running_fn (apc (notify_all ?u)) = running_fn (apc s)"
    by (simp add: notify_all_def)
  then have "inv_post L A T (notify_all ?u)"
    using inv(6) assms(2,3) pc by (simp add: inv_post_def notify_all_def slot_ok_def)
  moreover have "calls_ok None j (cpc s j) (called s j) (returned s j)
      (((ran s)(i := ran s i + 1)) j)" for j
    using calls_okD [OF inv(10), of j] run by (cases "j = i") (auto simp: calls_ok_def)
  then have "inv_calls ?u"
    by (simp add: inv_calls_def)
  moreover have "inv_bytes T ?u" "inv_loop ?u"
    using inv assms(2) by (simp_all add: inv_bytes_def inv_loop_def is_done_def)
  ultimately show ?thesis
    using inv by (simp add: loop_inv_def loop_ran_def notify_inv)
qed

lemma loop_inv_close:
  assumes "loop_inv L A T s" "lpc s = L_Closing"
  shows "loop_inv L A T (loop_close s)"
  using loop_invD [OF assms(1)] assms(2)
  by (simp add: loop_inv_def inv_post_def inv_bytes_def inv_loop_def is_done_def loop_close_def)

lemma loop_inv_finish:
  assumes "loop_inv L A T s" "lpc s = L_Finish"
  shows "loop_inv L A T (loop_finish s)"
proof -
  note inv = loop_invD [OF assms(1)]
  let ?u = "s\<lparr>m_async_fns := None, lpc := L_Closed\<rparr>"
  have "inv_post L A T ?u" "inv_bytes T ?u" "inv_loop ?u"
    using inv assms(2) by (simp_all add: inv_post_def inv_bytes_def inv_loop_def is_done_def)
  moreover have "inv_async (notify_all ?u)"
    using inv(8,9) assms(2) by (auto simp: inv_async_def inv_loop_def notify_all_def)
  ultimately show ?thesis
    using inv by (simp add: loop_inv_def loop_finish_def notify_inv)
qed

text \<open>The asynchronous worker and the functions it is given.\<close>

lemma loop_inv_add_async:
  assumes "loop_inv L A T s" "L \<in> T" "refs s L > 0" "addAsyncCleanup fn s = Some t"
  shows "loop_inv L A T t"
proof -
  note inv = loop_invD [OF assms(1)]
  note pos = count_pos_ref [OF assms(1-3)]
  note act = count_pos_active [OF assms(1) pos]
  obtain fns where fns: "m_async_fns s = Some fns"
    using act by auto
  let ?u = "s\<lparr>m_async_fns := Some (fns @ [fn]), async_added := async_added s @ [fn]\<rparr>"
  have "lpc s \<notin> {L_Closing, L_Finish, L_Closed}"
    using act by auto
  then have base: "inv_count T ?u" "inv_post L A T ?u" "inv_bytes T ?u" "inv_loop ?u" "inv_calls ?u"
    using inv pos act by (simp_all add: inv_bytes_def inv_loop_def is_done_def)
  show ?thesis
  proof (cases "apc s = A_Unstarted")
    case True
    have t: "t = ?u\<lparr>apc := A_Check\<rparr>"
      using assms(4) fns True by (simp add: addAsyncCleanup_def startAsyncThread_def)
    have "inv_async t"
      unfolding t using inv(9) fns True by (simp add: inv_async_def)
    moreover have "inv_count T t" "inv_bytes T t"
      unfolding t using base True by (simp_all add: inv_count_def inv_bytes_def is_done_def)
    moreover have "inv_post L A T t"
      unfolding t using base(2) True by (simp add: inv_post_def)
    ultimately show ?thesis
      using inv base by (simp add: loop_inv_def t)
  next
    case False
    have t: "t = notify_all ?u"
      using assms(4) fns False by (simp add: addAsyncCleanup_def startAsyncThread_def)
    have "inv_async t"
      unfolding t using inv(9) fns False by (auto simp: inv_async_def notify_all_def)
    then show ?thesis
      using inv base by (simp add: loop_inv_def t notify_inv)
  qed
qed

lemma loop_inv_async_check:
  assumes "loop_inv L A T s" "apc s = A_Check"
  shows "loop_inv L A T (async_check s)"
proof (cases "m_async_fns s")
  case None
  have t: "async_check s = s\<lparr>apc := A_Exit\<rparr>"
    using None by (simp add: async_check_def)
  show ?thesis
    using loop_invD [OF assms(1)] assms(2) None unfolding t
    by (simp add: loop_inv_def inv_count_def inv_bytes_def inv_post_def inv_async_def is_done_def)
next
  case (Some fns)
  note inv = loop_invD [OF assms(1)]
  show ?thesis
  proof (cases fns)
    case Nil
    have t: "async_check s = s\<lparr>apc := A_Sleep\<rparr>"
      using Some Nil by (simp add: async_check_def)
    show ?thesis
      using inv assms(2) Some Nil unfolding t
      by (simp add: loop_inv_def inv_count_def inv_bytes_def inv_post_def inv_async_def is_done_def)
  next
    case (Cons fn rest)
    have t: "async_check s = (EventLoopRef_ctor s)\<lparr>m_async_fns := Some rest, apc := A_Run fn\<rparr>"
      using Some Cons by (simp add: async_check_def)
    have act: "loop_active (lpc s)"
      using inv(8) Some Cons by (cases "lpc s") (auto simp: inv_loop_def)
    have "inv_loop (async_check s)"
      unfolding t using inv(8) act Some by (auto simp: inv_loop_def EventLoopRef_ctor_def)
    moreover have "inv_async (async_check s)"
      unfolding t using inv(9) assms(2) Some Cons by (simp add: inv_async_def EventLoopRef_ctor_def)
    moreover have "inv_count T (async_check s)" "inv_post L A T (async_check s)"
      unfolding t using inv assms(2) by (simp_all add: inv_count_def inv_post_def EventLoopRef_ctor_def)
    moreover have "inv_bytes T (async_check s)"
      unfolding t using inv(7) count_nonneg [OF inv(5)] assms(2) Some Cons
      by (simp add: inv_bytes_def EventLoopRef_ctor_def is_done_def)
    moreover have "inv_calls (async_check s)"
      unfolding t using inv(10) by (simp add: EventLoopRef_ctor_def)
    ultimately show ?thesis
      using inv by (simp add: loop_inv_def)
  qed
qed

lemma loop_inv_async_done:
  assumes "loop_inv L A T s" "apc s = A_Run fn" "cpc s A = C_Idle" "async_done fn s = Some t"
  shows "loop_inv L A T t"
proof -
  note inv = loop_invD [OF assms(1)]
  have pos: "0 < m_num_clients s"
    using count_pos_run [OF assms(1)] assms(2) by simp
  note act = count_pos_active [OF assms(1) pos]
  define d where "d = is_done (s\<lparr>m_num_clients := m_num_clients s - 1\<rparr>)"
  define u where "u = s\<lparr>m_num_clients := m_num_clients s - 1, apc := if d then A_Signal else A_Check,
    async_ran := async_ran s @ [fn]\<rparr>"
  have "inv_loop u"
    using released_loop [OF assms(1) pos] by (simp add: u_def)
  moreover have "inv_async u"
    using inv(9) assms(2) by (simp add: u_def inv_async_def)
  moreover have "inv_post L A T u"
    using inv(6) assms(2,3) by (simp add: u_def inv_post_def)
  moreover have "inv_count T u"
    using inv(5) assms(2) by (simp add: u_def inv_count_def)
  moreover have "inv_bytes T u"
    using inv(7) assms(2) act pos unfolding u_def d_def by (simp add: inv_bytes_def is_done_def)
  ultimately have "loop_inv L A T u"
    using inv by (simp add: loop_inv_def u_def)
  moreover have "t = (if d then notify_all u else u)"
    using assms(2,4) reset_eq [OF assms(1) pos]
    by (auto simp: async_done_def Let_def d_def [symmetric] u_def notify_all_def
        intro!: EventLoop.equality)
  ultimately show ?thesis
    using loop_inv_notify by auto
qed

lemma loop_inv_async_signal:
  assumes "loop_inv L A T s" "apc s = A_Signal"
  shows "loop_inv L A T (async_signal s)"
  using loop_invD [OF assms(1)] assms(2) unfolding async_signal_def
  by (simp add: loop_inv_def inv_count_def inv_bytes_def inv_post_def inv_async_def is_done_def)

lemma loop_step_inv:
  assumes "loop_step L A T s t" "loop_inv L A T s"
  shows "loop_inv L A T t"
  using assms(1)
proof (cases rule: loop_step.cases)
  case new_ref then show ?thesis using loop_inv_new_ref [OF assms(2)] by (blast)
next
  case move_ref then show ?thesis using loop_inv_move_ref [OF assms(2)] by (blast)
next
  case drop_ref then show ?thesis using loop_inv_drop_ref [OF assms(2)] by (blast)
next
  case signal then show ?thesis using loop_inv_signal [OF assms(2)] by (blast)
next
  case post_on_loop then show ?thesis using loop_inv_post_direct [OF assms(2)] by (simp add: active_def)
next
  case post_start then show ?thesis using loop_inv_post_begin [OF assms(2)] by (blast)
next
  case post_check1 then show ?thesis using loop_inv_wait1 [OF assms(2)] by (blast)
next
  case post_byte then show ?thesis using loop_inv_write [OF assms(2)] by (blast)
next
  case post_check2 then show ?thesis using loop_inv_wait2 [OF assms(2)] by (blast)
next
  case read_byte then show ?thesis using loop_inv_read [OF assms(2)] by (blast)
next
  case ran_fn then show ?thesis using loop_inv_ran [OF assms(2)] by (blast)
next
  case close_fd then show ?thesis using loop_inv_close [OF assms(2)] by (blast)
next
  case finish then show ?thesis using loop_inv_finish [OF assms(2)] by (blast)
next
  case add_async then show ?thesis using loop_inv_add_async [OF assms(2)] by (blast)
next
  case async_wait then show ?thesis using loop_inv_async_check [OF assms(2)] by (blast)
next
  case async_ret then show ?thesis using loop_inv_async_done [OF assms(2)] by (blast)
next
  case async_byte then show ?thesis using loop_inv_async_signal [OF assms(2)] by (blast)
qed

lemma loop_start_inv:
  assumes "loop_start L A T s"
  shows "loop_inv L A T s"
proof -
  obtain r where r: "0 < tally int r T"
    and s: "s = EventLoop_ctor\<lparr>refs := r, m_num_clients := tally int r T,
        m_async_fns := Some [], lpc := L_Read\<rparr>"
    using assms by (auto simp: loop_start_def loop_enter_def EventLoop_ctor_def)
  have "finite T" "L \<in> T" "A \<in> T" "L \<noteq> A"
    using assms by (simp_all add: loop_start_def)
  moreover have "inv_count T s" "inv_post L A T s" "inv_bytes T s" "inv_loop s" "inv_async s" "inv_calls s"
    using r unfolding s EventLoop_ctor_def
    by (simp_all add: inv_count_def inv_post_def slot_ok_def inv_bytes_def is_done_def inv_loop_def
        inv_async_def inv_calls_def calls_ok_def tally_null)
  ultimately show ?thesis
    by (simp add: loop_inv_def)
qed

interpretation event_loop: transition_invariant "loop_start L A T" "loop_step L A T" "loop_inv L A T"
  for L A T
  by unfold_locales (fact loop_start_inv loop_step_inv)+

end
