(* ===== verification/LoopProps.thy ===== *)
theory LoopProps
  imports LoopInv
begin

text \<open>
  What the event loop of \<open>src/mp/proxy.cpp\<close> guarantees to the threads that use it, for every
  interleaving of their steps: the properties of the transition system of the theory
  \<open>EventLoop\<close>, drawn from its invariant.
\<close>

section \<open>Consequences of the invariant\<close>

text \<open>Facts about any state of the invariant, on which the properties rest.\<close>

lemma pending_write:
  assumes "loop_inv L A T s" "i \<in> T" "to_write (cpc s i) = 1"
  shows "loop_active (lpc s)"
proof -
  note inv = loop_invD [OF assms(1)]
  have "to_write (cpc s i) \<le> tally to_write (cpc s) T"
    using tally_member [of T i to_write "cpc s"] inv(1) assms(2) by simp
  then have "1 \<le> int (pipe s) + tally to_write (cpc s) T + async_to_write (apc s)"
    using assms(3) weights_nonneg(3) [of "apc s"] by linarith
  then show ?thesis
    using inv(7) by (auto simp: inv_bytes_def split: if_splits)
qed

lemma pending_async_write:
  assumes "loop_inv L A T s" "apc s = A_Signal"
  shows "loop_active (lpc s)"
proof -
  have "1 \<le> int (pipe s) + tally to_write (cpc s) T + async_to_write (apc s)"
    using assms(2) tally_nonneg [of to_write "cpc s" T, OF weights_nonneg(2)] by simp
  then show ?thesis
    using loop_invD(7) [OF assms(1)] by (auto simp: inv_bytes_def split: if_splits)
qed

lemma inactive_quiet:
  assumes "loop_inv L A T s" "\<not> loop_active (lpc s)"
  shows "pipe s = 0" "\<not> running_fn (apc s)" "i \<in> T \<Longrightarrow> refs s i = 0 \<and> cpc s i = C_Idle"
proof -
  note inv = loop_invD [OF assms(1)]
  have zero: "m_num_clients s = 0"
    using inv(8) assms(2) by (simp add: inv_loop_def)
  have "int (pipe s) + tally to_write (cpc s) T + async_to_write (apc s) = 0"
    using inv(7) assms(2) by (cases "lpc s") (simp_all add: inv_bytes_def)
  then have "int (pipe s) = 0"
    using tally_nonneg [of to_write "cpc s" T, OF weights_nonneg(2)] weights_nonneg(3) [of "apc s"]
    by linarith
  then show "pipe s = 0" by simp
  show "\<not> running_fn (apc s)"
    using count_pos_run [OF assms(1)] zero by auto
  assume i: "i \<in> T"
  have "in_post (cpc s i) \<noteq> 1" "to_write (cpc s i) \<noteq> 1"
    using count_pos_post [OF assms(1) i] pending_write [OF assms(1) i] zero assms(2) by auto
  then have "cpc s i = C_Idle"
    by (cases "cpc s i") simp_all
  moreover have "refs s i = 0"
    using count_pos_ref [OF assms(1) i] zero by (cases "refs s i") auto
  ultimately show "refs s i = 0 \<and> cpc s i = C_Idle" by simp
qed

text \<open>A concrete run: thread 2 holds the only reference to the loop of thread 0.\<close>

definition one_client :: "nat EventLoop" where
  "one_client = EventLoop_ctor\<lparr>refs := (\<lambda>_. 0)(2 := 1), m_num_clients := 1,
     m_async_fns := Some [], lpc := L_Read\<rparr>"

lemma one_client_start: "loop_start 0 1 {0, 1, 2} one_client"
  unfolding loop_start_def
proof (intro conjI exI)
  show "0 < tally int ((\<lambda>_. 0)(2 := 1)) {0, 1, 2::nat}"
    by (simp add: tally_def)
  show "loop_enter (EventLoop_ctor\<lparr>refs := (\<lambda>_. 0)(2 := 1),
      m_num_clients := tally int ((\<lambda>_. 0)(2 := 1)) {0, 1, 2::nat}\<rparr>) = Some one_client"
    by (simp add: tally_def loop_enter_def one_client_def EventLoop_ctor_def)
qed simp_all

lemma one_client_post: "(loop_step 0 1 {0, 1, 2})\<^sup>*\<^sup>* one_client (post_begin 2 one_client)"
proof (rule r_into_rtranclp)
  show "loop_step 0 1 {0, 1, 2} one_client (post_begin 2 one_client)"
    by (rule loop_step.post_start)
      (simp_all add: active_def holds_ref_def one_client_def EventLoop_ctor_def)
qed

lemmas one_client_eval =
  post_begin_def post_wait1_def EventLoopRef_ctor_def one_client_def EventLoop_ctor_def

text \<open>The same client drops its reference: the loop is done and one byte is to be written.\<close>

definition last_ref_dropped :: "nat EventLoop" where
  "last_ref_dropped = one_client\<lparr>m_num_clients := 0, refs := (\<lambda>_. 0),
     cpc := (\<lambda>_. C_Idle)(2 := C_Signal)\<rparr>"

lemma one_client_drop: "(loop_step 0 1 {0, 1, 2})\<^sup>*\<^sup>* one_client last_ref_dropped"
proof (rule r_into_rtranclp)
  have "release_ref 2 one_client = Some last_ref_dropped"
    by (auto simp: release_ref_def EventLoopRef_reset_def done_cond_def notify_all_def
        last_ref_dropped_def one_client_def EventLoop_ctor_def fun_eq_iff)
  then show "loop_step 0 1 {0, 1, 2} one_client last_ref_dropped"
    by (intro loop_step.drop_ref [of 2])
      (simp_all add: active_def one_client_def EventLoop_ctor_def)
qed

lemmas last_ref_eval = last_ref_dropped_def one_client_def EventLoop_ctor_def

text \<open>Whenever a thread is about to write a byte to \<open>m_post_fd\<close>, in \<open>post\<close> or in
  \<open>EventLoopRef::reset\<close>, the descriptor is still open: the loop cannot exit between the time
  the done condition is set and the time of the write, which is what the comments in
  \<open>EventLoop::loop\<close> and \<open>EventLoopRef::reset\<close> rely on.\<close>

theorem loop_write_succeeds:
  assumes "loop_start L A T s0" "(loop_step L A T)\<^sup>*\<^sup>* s0 s"
    and "(\<exists>i\<in>T. cpc s i \<in> {C_Write, C_Signal}) \<or> apc s = A_Signal"
  shows "fd_open s \<and> lpc s \<notin> {L_Closing, L_Finish, L_Closed}"
proof -
  note inv = event_loop.reachable_inv [OF assms(1,2)]
  have "loop_active (lpc s)"
    using assms(3) pending_write [OF inv] pending_async_write [OF inv] by auto
  then show ?thesis
    using loop_invD(8) [OF inv] by (cases "lpc s") (simp_all add: inv_loop_def)
qed

theorem loop_write_succeeds_witness:
  "fd_open (post_begin 2 one_client) \<and> fd_open last_ref_dropped"
proof -
  have "cpc (post_begin 2 one_client) 2 \<in> {C_Write, C_Signal}"
    by (simp add: one_client_eval)
  moreover have "cpc last_ref_dropped 2 \<in> {C_Write, C_Signal}"
    by (simp add: last_ref_dropped_def)
  ultimately show ?thesis
    using loop_write_succeeds [OF one_client_start one_client_post]
      loop_write_succeeds [OF one_client_start one_client_drop] by blast
qed

text \<open>C4. No wakeup is lost: a thread asleep in \<open>m_cv.wait\<close> in \<open>post\<close> is asleep for a
  condition that is false now (the slot is taken; the slot still holds its own function), and
  the worker of \<open>startAsyncThread\<close> is asleep only while there is no function to run and the
  loop is not closed.\<close>

theorem loop_no_lost_wakeup:
  assumes "loop_start L A T s0" "(loop_step L A T)\<^sup>*\<^sup>* s0 s"
  shows "(cpc s i = C_Sleep1 \<longrightarrow> m_post_fn s \<noteq> None) \<and>
    (cpc s i = C_Sleep2 \<longrightarrow> m_post_fn s = Some i) \<and>
    (apc s = A_Sleep \<longrightarrow> m_async_fns s = Some [])"
proof -
  note inv = loop_invD [OF event_loop.reachable_inv [OF assms]]
  have "pc_ok (m_post_fn s) i (cpc s i)" using pc_okD [OF inv(6)] .
  then show ?thesis using inv(9) by (auto simp: inv_async_def)
qed

theorem loop_no_lost_wakeup_witness:
  "\<exists>s. (loop_step 0 1 {0, 1, 2})\<^sup>*\<^sup>* one_client s \<and> cpc s 2 = C_Sleep2 \<and> m_post_fn s = Some 2"
proof -
  let ?b = "post_write 2 (post_begin 2 one_client)"
  let ?s = "?b\<lparr>cpc := (cpc ?b)(2 := C_Sleep2)\<rparr>"
  have "loop_step 0 1 {0, 1, 2} (post_begin 2 one_client) ?b"
    by (rule loop_step.post_byte) (simp_all add: one_client_eval)
  moreover have "loop_step 0 1 {0, 1, 2} ?b ?s"
    by (rule loop_step.post_check2 [of 2]) (simp_all add: post_write_def post_wait2_def one_client_eval)
  ultimately have run: "(loop_step 0 1 {0, 1, 2})\<^sup>*\<^sup>* one_client ?s"
    using one_client_post by (meson rtranclp.rtrancl_into_rtrancl)
  have "cpc ?s 2 = C_Sleep2" by simp
  with loop_no_lost_wakeup [OF one_client_start run, of 2] have "m_post_fn ?s = Some 2" by blast
  then show ?thesis using run \<open>cpc ?s 2 = C_Sleep2\<close> by blast
qed

text \<open>C16. No assertion of the loop can fail and no empty optional is dereferenced: releasing a
  reference, finishing \<open>post\<close>, reading a byte, adding an asynchronous cleanup function and
  finishing one all have a result in every reachable state, and the reference count is the
  number of references held, posts in progress and the worker's own.\<close>

theorem loop_no_assert_fails:
  assumes "loop_start L A T s0" "(loop_step L A T)\<^sup>*\<^sup>* s0 s"
  shows "m_num_clients s = tally int (refs s) T + tally in_post (cpc s) T +
      (if running_fn (apc s) then 1 else 0) \<and>
    (i \<in> T \<and> refs s i > 0 \<longrightarrow> release_ref i s \<noteq> None) \<and>
    (i \<in> T \<and> cpc s i = C_Check2 \<longrightarrow> post_wait2 i s \<noteq> None) \<and>
    (lpc s = L_Read \<longrightarrow> loop_read s \<noteq> None) \<and>
    (refs s L > 0 \<longrightarrow> addAsyncCleanup fn s \<noteq> None) \<and>
    (apc s = A_Run fn \<longrightarrow> async_done fn s \<noteq> None)"
proof (intro conjI impI)
  note inv' = event_loop.reachable_inv [OF assms]
  note inv = loop_invD [OF inv']
  show "m_num_clients s = tally int (refs s) T + tally in_post (cpc s) T +
      (if running_fn (apc s) then 1 else 0)"
    using inv(5) by (simp add: inv_count_def)
  show "i \<in> T \<and> refs s i > 0 \<Longrightarrow> release_ref i s \<noteq> None"
    using reset_eq [OF inv' count_pos_ref [OF inv', of i]] by (simp add: release_ref_def Let_def)
  show "i \<in> T \<and> cpc s i = C_Check2 \<Longrightarrow> post_wait2 i s \<noteq> None"
    using reset_eq [OF inv'] count_pos_post [OF inv', of i] by (simp add: post_wait2_def Let_def)
  show "lpc s = L_Read \<Longrightarrow> loop_read s \<noteq> None"
    using done_cond_eq [of "s\<lparr>pipe := pipe s - 1\<rparr>"] count_nonneg [OF inv(5)] inv(8)
    by (auto simp: loop_read_def inv_loop_def Let_def split: option.splits)
  show "refs s L > 0 \<Longrightarrow> addAsyncCleanup fn s \<noteq> None"
    using count_pos_active [OF inv' count_pos_ref [OF inv' inv(2)]]
    by (auto simp: addAsyncCleanup_def startAsyncThread_def)
  show "apc s = A_Run fn \<Longrightarrow> async_done fn s \<noteq> None"
    using reset_eq [OF inv' count_pos_run [OF inv']] by (simp add: async_done_def Let_def)
qed

theorem loop_no_assert_fails_witness:
  "release_ref 2 one_client \<noteq> None \<and> loop_read one_client \<noteq> None"
proof -
  have "refs one_client 2 > 0" "lpc one_client = L_Read"
    by (simp_all add: one_client_def)
  then show ?thesis
    using loop_no_assert_fails [OF one_client_start rtranclp.rtrancl_refl, of 2] by blast
qed

text \<open>C15. Every call of \<open>EventLoop::post\<close> runs its function exactly once, and before it
  returns: for every thread the functions run are the calls that have returned, plus at most
  the one in progress, and all of them when the thread is in no call.\<close>

theorem post_runs_once:
  assumes "loop_start L A T s0" "(loop_step L A T)\<^sup>*\<^sup>* s0 s"
  shows "returned s i \<le> ran s i \<and> ran s i \<le> called s i \<and> called s i \<le> returned s i + 1 \<and>
    (in_post (cpc s i) = 0 \<longrightarrow> ran s i = called s i \<and> returned s i = called s i) \<and>
    (in_post (cpc s i) = 1 \<longrightarrow> called s i = returned s i + 1)"
  using calls_okD [OF loop_invD(10) [OF event_loop.reachable_inv [OF assms]], of i]
  by (cases "cpc s i") (auto simp: calls_ok_def split: if_splits)

theorem post_runs_once_witness:
  "called (post_begin 2 one_client) 2 = 1 \<and> ran (post_begin 2 one_client) 2 \<le> 1 \<and>
   returned (post_begin 2 one_client) 2 = 0"
  using post_runs_once [OF one_client_start one_client_post, of 2] by (simp add: one_client_eval)

text \<open>The one byte that is due can always be written, and the loop thread is then free to read it.\<close>

lemma byte_arrives:
  assumes "loop_inv L A T s"
    and "int (pipe s) + tally to_write (cpc s) T + async_to_write (apc s) = 1"
  shows "\<exists>t. (loop_step L A T)\<^sup>*\<^sup>* s t \<and> loop_inv L A T t \<and> pipe t = 1 \<and> m_post_fn t = m_post_fn s \<and>
    ran t = ran s \<and> returned t = returned s \<and> lpc t = lpc s \<and> is_done t = is_done s"
proof -
  note inv = loop_invD [OF assms(1)]
  have step: ?thesis
    if "loop_step L A T s t" "pipe t = 1" "m_post_fn t = m_post_fn s" "ran t = ran s"
      "returned t = returned s" "lpc t = lpc s" "is_done t = is_done s" for t
    using that loop_step_inv [OF that(1) assms(1)] by blast
  have nonneg: "0 \<le> tally to_write (cpc s) T" "0 \<le> async_to_write (apc s)"
    by (simp_all add: tally_nonneg)
  consider "pipe s = 1" | "pipe s = 0" "apc s = A_Signal"
    | "pipe s = 0" "apc s \<noteq> A_Signal" "tally to_write (cpc s) T = 1"
  proof (cases "apc s = A_Signal")
    case True
    then have "async_to_write (apc s) = 1" by simp
    then show ?thesis using that(1,2) True assms(2) nonneg by linarith
  next
    case False
    then have "async_to_write (apc s) = 0" by (cases "apc s") simp_all
    then show ?thesis using that(1,3) False assms(2) nonneg by linarith
  qed
  then show ?thesis
  proof cases
    case 1 then show ?thesis using assms(1) by blast
  next
    case 2 then show ?thesis
      by (intro step [of "async_signal s"] loop_step.async_byte)
        (simp_all add: async_signal_def is_done_def)
  next
    case 3
    then obtain i where i: "i \<in> T" "to_write (cpc s i) \<noteq> 0"
      using tally_null [of T to_write "cpc s"] by auto
    then consider "cpc s i = C_Write" | "cpc s i = C_Signal"
      by (cases "cpc s i") simp_all
    then show ?thesis
    proof cases
      case 1 then show ?thesis using 3(1) i(1)
        by (intro step [of "post_write i s"] loop_step.post_byte)
          (simp_all add: post_write_def is_done_def)
    next
      case 2 then show ?thesis using 3(1) i(1)
        by (intro step [of "signal_write i s"] loop_step.signal)
          (simp_all add: signal_write_def is_done_def)
    qed
  qed
qed

lemma loop_thread_free:
  assumes "loop_inv L A T s" "tally to_write (cpc s) T = 0"
  shows "cpc s L = C_Idle"
proof -
  note inv = loop_invD [OF assms(1)]
  have "to_write (cpc s L) = 0"
    using tally_zero [of T to_write "cpc s" L] inv(1,2) assms(2) by simp
  then show ?thesis
    using inv(6) by (auto simp: inv_post_def)
qed

lemma no_other_bytes:
  assumes "loop_inv L A T s" "pipe s = 1"
    "int (pipe s) + tally to_write (cpc s) T + async_to_write (apc s) = 1"
  shows "cpc s L = C_Idle"
proof -
  have "tally to_write (cpc s) T = 0"
    using assms(2,3) tally_nonneg [of to_write "cpc s" T, OF weights_nonneg(2)]
      weights_nonneg(3) [of "apc s"] by linarith
  then show ?thesis by (rule loop_thread_free [OF assms(1)])
qed

text \<open>A function that is running ends, its poster wakes up and returns.\<close>

lemma running_served:
  assumes "loop_inv L A T s" "lpc s = L_Run i"
  shows "\<exists>t. (loop_step L A T)\<^sup>*\<^sup>* s t \<and> ran t i = ran s i + 1 \<and> returned t i = returned s i + 1"
proof -
  note inv = loop_invD [OF assms(1)]
  note run = run_written [OF assms]
  have i: "i \<in> T" using slotD [OF assms(1) run(1)] by simp
  have "\<not> is_done s"
    using count_pos_active [OF assms(1) count_pos_slot [OF assms(1) run(1)]] by simp
  then have "int (pipe s) + tally to_write (cpc s) T + async_to_write (apc s) = 0"
    using inv(7) assms(2) by (simp add: inv_bytes_def)
  then have "tally to_write (cpc s) T = 0"
    using tally_nonneg [of to_write "cpc s" T, OF weights_nonneg(2)] weights_nonneg(3) [of "apc s"]
    by linarith
  then have free: "cpc s L = C_Idle"
    by (rule loop_thread_free [OF assms(1)])
  let ?u = "loop_ran i s"
  have step: "loop_step L A T s ?u"
    using assms(2) free by (rule loop_step.ran_fn)
  have invu: "loop_inv L A T ?u"
    using loop_step_inv [OF step assms(1)] .
  have pcu: "cpc ?u i = C_Check2" and slot: "m_post_fn ?u = None"
    using run(3) by (auto simp: loop_ran_def notify_all_def)
  have "post_wait2 i ?u \<noteq> None"
    using reset_eq [OF invu] count_pos_post [OF invu i] pcu by (simp add: post_wait2_def Let_def)
  then obtain t where t: "post_wait2 i ?u = Some t" by auto
  have "loop_step L A T ?u t"
    using i pcu t by (rule loop_step.post_check2)
  moreover have "ran t = ran ?u \<and> returned t i = returned ?u i + 1"
    using t slot reset_eq [OF invu count_pos_post [OF invu i]] pcu
    by (auto simp: post_wait2_def Let_def notify_all_def split: if_splits)
  moreover have "ran ?u i = ran s i + 1" "returned ?u = returned s"
    by (simp_all add: loop_ran_def notify_all_def)
  ultimately show ?thesis
    using step by (metis rtranclp.simps)
qed

lemma loop_read_step:
  assumes "lpc s = L_Read" "cpc s L = C_Idle" "pipe s = 1" "m_post_fn s = Some i"
  shows "loop_step L A T s (s\<lparr>pipe := 0, lpc := L_Run i\<rparr>)"
  using assms by (intro loop_step.read_byte) (simp_all add: loop_read_def Let_def)

lemma slot_served:
  assumes "loop_inv L A T s" "m_post_fn s = Some i"
  shows "\<exists>t. (loop_step L A T)\<^sup>*\<^sup>* s t \<and> ran t i = ran s i + 1 \<and> returned t i = returned s i + 1"
proof (cases "lpc s = L_Read")
  case False
  then have "lpc s = L_Run i"
    using count_pos_active [OF assms(1) count_pos_slot [OF assms]] loop_invD(6) [OF assms(1)] assms(2)
    by (cases "lpc s") (simp_all add: inv_post_def)
  then show ?thesis by (rule running_served [OF assms(1)])
next
  case True
  have "\<not> is_done s"
    using count_pos_active [OF assms(1) count_pos_slot [OF assms]] by simp
  then have "int (pipe s) + tally to_write (cpc s) T + async_to_write (apc s) = 1"
    using loop_invD(7) [OF assms(1)] True assms(2) by (simp add: inv_bytes_def)
  from byte_arrives [OF assms(1) this] obtain u where
    u: "(loop_step L A T)\<^sup>*\<^sup>* s u" "loop_inv L A T u" "pipe u = 1" "m_post_fn u = Some i"
      "ran u = ran s" "returned u = returned s" "lpc u = L_Read" "is_done u = is_done s"
    using True assms(2) by auto
  have "int (pipe u) + tally to_write (cpc u) T + async_to_write (apc u) = 1"
    using loop_invD(7) [OF u(2)] u(4,7,8) \<open>\<not> is_done s\<close> by (simp add: inv_bytes_def)
  then have step: "loop_step L A T u (u\<lparr>pipe := 0, lpc := L_Run i\<rparr>)"
    using loop_read_step no_other_bytes [OF u(2,3)] u(3,4,7) by blast
  obtain t where "(loop_step L A T)\<^sup>*\<^sup>* (u\<lparr>pipe := 0, lpc := L_Run i\<rparr>) t"
      "ran t i = ran u i + 1" "returned t i = returned u i + 1"
    using running_served [OF loop_step_inv [OF step u(2)], of i] by auto
  then show ?thesis
    using u(1,5,6) step by (metis converse_rtranclp_into_rtranclp rtranclp_trans)
qed

text \<open>The loop, once done, can always be driven to its end.\<close>

lemma done_closes:
  assumes "loop_inv L A T s" "is_done s" "loop_active (lpc s)"
  shows "\<exists>t. (loop_step L A T)\<^sup>*\<^sup>* s t \<and> lpc t = L_Closed"
proof -
  have free: "m_post_fn s = None"
    using count_pos_slot [OF assms(1)] assms(2) by (cases "m_post_fn s") (auto simp: is_done_def)
  have read: "lpc s = L_Read"
    using assms(3) loop_invD(6) [OF assms(1)] free by (cases "lpc s") (simp_all add: inv_post_def)
  have "int (pipe s) + tally to_write (cpc s) T + async_to_write (apc s) = 1"
    using loop_invD(7) [OF assms(1)] read free assms(2) by (simp add: inv_bytes_def)
  from byte_arrives [OF assms(1) this] obtain u where
    u: "(loop_step L A T)\<^sup>*\<^sup>* s u" "loop_inv L A T u" "pipe u = 1" "m_post_fn u = None"
      "lpc u = L_Read" "is_done u"
    using read free assms(2) by auto
  have "int (pipe u) + tally to_write (cpc u) T + async_to_write (apc u) = 1"
    using loop_invD(7) [OF u(2)] u(4,5,6) by (simp add: inv_bytes_def)
  then have idle: "cpc u L = C_Idle"
    by (rule no_other_bytes [OF u(2,3)])
  have "done_cond (u\<lparr>pipe := pipe u - 1\<rparr>) = Some True"
    using u(6) by (simp add: done_cond_def is_done_def)
  then have "loop_read u = Some (u\<lparr>pipe := pipe u - 1, lpc := L_Closing\<rparr>)"
    using u(4) by (simp add: loop_read_def Let_def)
  then have 1: "loop_step L A T u (u\<lparr>pipe := pipe u - 1, lpc := L_Closing\<rparr>)" (is "loop_step _ _ _ _ ?v")
    using u(3,5) idle by (intro loop_step.read_byte) simp_all
  have 2: "loop_step L A T ?v (loop_close ?v)"
    by (rule loop_step.close_fd) simp
  have 3: "loop_step L A T (loop_close ?v) (loop_finish (loop_close ?v))"
    by (rule loop_step.finish) (simp add: loop_close_def)
  have "lpc (loop_finish (loop_close ?v)) = L_Closed"
    by (simp add: loop_finish_def notify_all_def)
  then show ?thesis
    using u(1) 1 2 3 by (meson rtranclp.rtrancl_into_rtrancl)
qed

text \<open>C2. A post is always served: from any state in which a thread has put its function into
  the slot, writing the byte, one read of the loop, one call of the function and one look at
  the condition lead to a state in which the function has been run and the call has returned.
  Neither the pipe nor the condition variable can leave the poster stuck.\<close>

theorem post_is_served:
  assumes "loop_start L A T s0" "(loop_step L A T)\<^sup>*\<^sup>* s0 s" "m_post_fn s = Some i"
  shows "\<exists>t. (loop_step L A T)\<^sup>*\<^sup>* s t \<and> ran t i = ran s i + 1 \<and> returned t i = returned s i + 1"
  using slot_served [OF event_loop.reachable_inv [OF assms(1,2)] assms(3)] .

theorem post_is_served_witness:
  "\<exists>t. (loop_step 0 1 {0, 1, 2})\<^sup>*\<^sup>* (post_begin 2 one_client) t \<and> returned t 2 = 1"
proof -
  have "m_post_fn (post_begin 2 one_client) = Some 2" "returned (post_begin 2 one_client) 2 = 0"
    by (simp_all add: one_client_eval)
  then show ?thesis
    using post_is_served [OF one_client_start one_client_post] by fastforce
qed

text \<open>C17. The loop exits: when the last reference is gone and no asynchronous cleanup is
  queued, there is a byte for the loop to read, or one is about to be written, and the loop can
  run to its end from there.\<close>

theorem loop_exits_when_done:
  assumes "loop_start L A T s0" "(loop_step L A T)\<^sup>*\<^sup>* s0 s"
    and "m_num_clients s = 0" "m_async_fns s = Some []"
  shows "\<exists>t. (loop_step L A T)\<^sup>*\<^sup>* s t \<and> lpc t = L_Closed"
proof -
  note inv = event_loop.reachable_inv [OF assms(1,2)]
  consider "loop_active (lpc s)" | "lpc s = L_Closing" | "lpc s = L_Finish" | "lpc s = L_Closed"
    by (cases "lpc s") simp_all
  then show ?thesis
  proof cases
    case 1 then show ?thesis using done_closes [OF inv] assms(3,4) by (simp add: is_done_def)
  next
    case 2
    have "loop_step L A T s (loop_close s)" using 2 by (rule loop_step.close_fd)
    moreover have "loop_step L A T (loop_close s) (loop_finish (loop_close s))"
      by (rule loop_step.finish) (simp add: loop_close_def)
    ultimately show ?thesis
      by (intro exI [of _ "loop_finish (loop_close s)"])
        (simp add: loop_finish_def notify_all_def converse_rtranclp_into_rtranclp r_into_rtranclp)
  next
    case 3
    have "loop_step L A T s (loop_finish s)" using 3 by (rule loop_step.finish)
    then show ?thesis
      by (intro exI [of _ "loop_finish s"]) (simp add: loop_finish_def notify_all_def r_into_rtranclp)
  qed auto
qed

theorem loop_exits_when_done_witness:
  "\<exists>t. (loop_step 0 1 {0, 1, 2})\<^sup>*\<^sup>* last_ref_dropped t \<and> lpc t = L_Closed"
  by (rule loop_exits_when_done [OF one_client_start one_client_drop]) (simp_all add: last_ref_eval)

text \<open>C19. When the loop has ended, what \<open>~EventLoop\<close> asserts holds: the slot is empty, the list
  of asynchronous functions is reset, the descriptors are closed, there is no client. Besides,
  the pipe was drained, no thread is left inside \<open>post\<close> or about to write, and every
  asynchronous cleanup function added was run, once and in order.\<close>

theorem loop_end_state:
  assumes "loop_start L A T s0" "(loop_step L A T)\<^sup>*\<^sup>* s0 s" "lpc s = L_Closed"
  shows "EventLoop_dtor_asserts s \<and> pipe s = 0 \<and> (\<forall>i\<in>T. refs s i = 0 \<and> cpc s i = C_Idle) \<and> async_ran s = async_added s"
proof -
  note inv' = event_loop.reachable_inv [OF assms(1,2)]
  note inv = loop_invD [OF inv']
  note quiet = inactive_quiet [OF inv']
  have "async_ran s = async_added s"
    using inv(8,9) quiet(2) assms(3) by (cases "apc s") (auto simp: inv_async_def inv_loop_def)
  then show ?thesis
    using inv(8) quiet(1,3) assms(3) by (simp add: inv_loop_def EventLoop_dtor_asserts_def)
qed

theorem loop_end_state_witness:
  "\<exists>t. (loop_step 0 1 {0, 1, 2})\<^sup>*\<^sup>* one_client t \<and> \<not> fd_open t \<and> pipe t = 0 \<and> m_num_clients t = 0"
proof -
  have "is_done last_ref_dropped" "loop_active (lpc last_ref_dropped)"
    by (simp_all add: is_done_def last_ref_eval)
  then obtain t where "(loop_step 0 1 {0, 1, 2})\<^sup>*\<^sup>* last_ref_dropped t" "lpc t = L_Closed"
    using done_closes event_loop.reachable_inv [OF one_client_start one_client_drop] by blast
  then show ?thesis
    using loop_end_state [OF one_client_start] one_client_drop unfolding EventLoop_dtor_asserts_def by (meson rtranclp_trans)
qed

text \<open>Asynchronous cleanup functions are run in the order they were added: those run, the
  one running and those queued are, in this order, the ones added.\<close>

theorem async_cleanup_fifo:
  assumes "loop_start L A T s0" "(loop_step L A T)\<^sup>*\<^sup>* s0 s"
  shows "async_added s = async_ran s @ (case apc s of A_Run fn \<Rightarrow> [fn] | _ \<Rightarrow> []) @
    (case m_async_fns s of Some fns \<Rightarrow> fns | None \<Rightarrow> [])"
  using loop_invD(9) [OF event_loop.reachable_inv [OF assms]] by (simp add: inv_async_def)

theorem async_cleanup_fifo_witness: "async_added last_ref_dropped = []"
  using async_cleanup_fifo [OF one_client_start one_client_drop] by (simp add: last_ref_eval)

end
