(* ===== verification/Waiter.thy ===== *)
theory Waiter
  imports Prelude
begin

text \<open>
  \<open>Waiter\<close> of \<open>include/mp/proxy-io.h\<close>: the single element queue through which the event loop
  runs functions on a thread that is blocked in \<open>Waiter::wait\<close>. A function run by \<open>wait\<close> may
  call \<open>wait\<close> again, so the waiting thread is a stack of nested calls.
\<close>

section \<open>State\<close>

text \<open>
  \<open>F_Wait k\<close> is a call of \<open>wait\<close> whose predicate is number \<open>k\<close>, \<open>F_Run j\<close> the posted function
  \<open>j\<close> that the call of \<open>wait\<close> below it is executing. The head of \<open>stack\<close> is the innermost call.
  \<open>asleep\<close> says that the thread is blocked in \<open>m_cv.wait\<close>. \<open>sat\<close> are the predicates that are
  true now. \<open>posted\<close> and \<open>started\<close> record history.
\<close>

datatype frame = F_Wait nat | F_Run nat

record Waiter =
  m_fn :: "nat option"
  stack :: "frame list"
  asleep :: bool
  sat :: "nat set"
  posted :: "nat list"
  started :: "nat list"

definition new_waiter :: Waiter where
  "new_waiter = \<lparr>m_fn = None, stack = [], asleep = False, sat = {}, posted = [], started = []\<rparr>"

section \<open>Operations\<close>

definition Waiter_post :: "nat \<Rightarrow> Waiter \<Rightarrow> bool \<times> Waiter" where
  "Waiter_post j w =
     (if m_fn w \<noteq> None then (False, w)
      else (True, w\<lparr>m_fn := Some j, asleep := False, posted := posted w @ [j]\<rparr>))"

text \<open>
  The condition of \<open>Waiter::wait\<close>: while there is a function, take it and run it with the
  mutex released; then evaluate the predicate. A step is the part up to the release or up to
  the return of the condition.
\<close>

definition wait_call :: "nat \<Rightarrow> Waiter \<Rightarrow> Waiter" where
  "wait_call k w = w\<lparr>stack := F_Wait k # stack w, asleep := False\<rparr>"

definition wait_check :: "Waiter \<Rightarrow> Waiter" where
  "wait_check w =
     (case stack w of
        F_Wait k # below \<Rightarrow>
          (case m_fn w of
             Some j \<Rightarrow> w\<lparr>m_fn := None, stack := F_Run j # stack w, started := started w @ [j]\<rparr>
           | None \<Rightarrow> if k \<in> sat w then w\<lparr>stack := below\<rparr> else w\<lparr>asleep := True\<rparr>)
      | _ \<Rightarrow> w)"

definition fn_return :: "Waiter \<Rightarrow> Waiter" where
  "fn_return w = w\<lparr>stack := tl (stack w)\<rparr>"

text \<open>Another thread makes a predicate true with the mutex held and notifies.\<close>

definition set_done :: "nat \<Rightarrow> Waiter \<Rightarrow> Waiter" where
  "set_done k w = w\<lparr>sat := insert k (sat w), asleep := False\<rparr>"

definition in_wait :: "Waiter \<Rightarrow> bool" where
  "in_wait w = (case stack w of F_Wait _ # _ \<Rightarrow> True | _ \<Rightarrow> False)"

inductive waiter_step :: "Waiter \<Rightarrow> Waiter \<Rightarrow> bool" where
  call: "\<not> in_wait w \<Longrightarrow> waiter_step w (wait_call k w)"
| check: "in_wait w \<Longrightarrow> \<not> asleep w \<Longrightarrow> waiter_step w (wait_check w)"
| return: "stack w = F_Run j # below \<Longrightarrow> waiter_step w (fn_return w)"
| post: "waiter_step w (snd (Waiter_post j w))"
| set_done: "waiter_step w (set_done k w)"

inductive_cases waiter_stepE: "waiter_step w v"

section \<open>The interface of a one element queue\<close>

text \<open>
  What the poster relies on: a post succeeds exactly when the slot is free, then fills it and
  is recorded; when it fails nothing changes.
\<close>

locale one_slot =
  fixes put :: "'j \<Rightarrow> 'w \<Rightarrow> bool \<times> 'w"
    and slot :: "'w \<Rightarrow> 'j option"
    and log :: "'w \<Rightarrow> 'j list"
  assumes put_free: "slot w = None \<Longrightarrow> put j w = (ok, v) \<Longrightarrow> ok \<and> slot v = Some j \<and> log v = log w @ [j]"
    and put_full: "slot w \<noteq> None \<Longrightarrow> put j w = (False, w)"
begin

lemma put_ok_iff: "fst (put j w) \<longleftrightarrow> slot w = None"
  using put_free [of w j "fst (put j w)" "snd (put j w)"] put_full [of w j] by (cases "slot w") auto

lemma put_log: "log (snd (put j w)) = (if slot w = None then log w @ [j] else log w)"
  using put_free [of w j "fst (put j w)" "snd (put j w)"] put_full [of w j] by (cases "slot w") auto

lemma put_slot: "slot (snd (put j w)) = (case slot w of None \<Rightarrow> Some j | Some i \<Rightarrow> Some i)"
  using put_free [of w j "fst (put j w)" "snd (put j w)"] put_full [of w j] by (cases "slot w") auto

end

interpretation waiter_slot: one_slot Waiter_post m_fn posted
  by unfold_locales (auto simp: Waiter_post_def)

section \<open>The invariant\<close>

text \<open>A running function lies directly on the call of \<open>wait\<close> that runs it.\<close>

fun nested :: "frame list \<Rightarrow> bool" where
  "nested [] = True"
| "nested (F_Wait _ # below) = ((case below of F_Wait _ # _ \<Rightarrow> False | _ \<Rightarrow> True) \<and> nested below)"
| "nested (F_Run _ # below) = ((case below of F_Wait _ # _ \<Rightarrow> True | _ \<Rightarrow> False) \<and> nested below)"

definition waiter_inv :: "Waiter \<Rightarrow> bool" where
  "waiter_inv w \<longleftrightarrow>
     posted w = started w @ (case m_fn w of None \<Rightarrow> [] | Some j \<Rightarrow> [j]) \<and>
     nested (stack w) \<and>
     (asleep w \<longrightarrow> (\<exists>k below. stack w = F_Wait k # below \<and> k \<notin> sat w) \<and> m_fn w = None)"

lemma waiter_inv_new: "waiter_inv new_waiter"
  by (simp add: waiter_inv_def new_waiter_def)

lemma waiter_inv_post: "waiter_inv w \<Longrightarrow> waiter_inv (snd (Waiter_post j w))"
  by (auto simp: waiter_inv_def Waiter_post_def)

lemma waiter_inv_set_done: "waiter_inv w \<Longrightarrow> waiter_inv (set_done k w)"
  by (simp add: waiter_inv_def set_done_def)

lemma waiter_inv_call: "waiter_inv w \<Longrightarrow> \<not> in_wait w \<Longrightarrow> waiter_inv (wait_call k w)"
  by (cases "stack w"; cases "hd (stack w)") (auto simp: waiter_inv_def wait_call_def in_wait_def)

lemma in_waitE:
  assumes "in_wait w"
  obtains k below where "stack w = F_Wait k # below"
  using assms by (cases "stack w"; cases "hd (stack w)") (simp_all add: in_wait_def)

lemma waiter_inv_check:
  assumes "waiter_inv w" "in_wait w" "\<not> asleep w"
  shows "waiter_inv (wait_check w)"
proof -
  obtain k below where top: "stack w = F_Wait k # below" using assms(2) by (rule in_waitE)
  show ?thesis
    using assms(1,3) top by (cases "m_fn w") (auto simp: waiter_inv_def wait_check_def)
qed

lemma waiter_inv_return: "waiter_inv w \<Longrightarrow> stack w = F_Run j # below \<Longrightarrow> waiter_inv (fn_return w)"
  by (auto simp: waiter_inv_def fn_return_def)

lemma waiter_step_inv: "waiter_step w v \<Longrightarrow> waiter_inv w \<Longrightarrow> waiter_inv v"
  by (induction rule: waiter_step.induct)
    (simp_all add: waiter_inv_call waiter_inv_check waiter_inv_return waiter_inv_post
      waiter_inv_set_done)

interpretation waiter: transition_invariant "\<lambda>w. w = new_waiter" waiter_step waiter_inv
  by unfold_locales (use waiter_inv_new waiter_step_inv in auto)

section \<open>Properties\<close>

text \<open>A concrete run: the thread calls \<open>wait\<close>, finds nothing, sleeps, and function 5 is posted.\<close>

definition posted_once :: Waiter where
  "posted_once =
     \<lparr>m_fn = Some 5, stack = [F_Wait 1], asleep = False, sat = {}, posted = [5], started = []\<rparr>"

lemma posted_once_reached: "waiter_step\<^sup>*\<^sup>* new_waiter posted_once"
proof -
  let ?a = "wait_call 1 new_waiter"
  have "waiter_step new_waiter ?a"
    by (rule waiter_step.call) (simp add: new_waiter_def in_wait_def)
  moreover have "waiter_step ?a (wait_check ?a)"
    by (rule waiter_step.check) (simp_all add: wait_call_def new_waiter_def in_wait_def)
  moreover have "snd (Waiter_post 5 (wait_check ?a)) = posted_once"
    by (simp add: Waiter_post_def wait_check_def wait_call_def new_waiter_def posted_once_def)
  then have "waiter_step (wait_check ?a) posted_once"
    using waiter_step.post [of "wait_check ?a" 5] by simp
  ultimately show ?thesis
    by (blast intro: converse_rtranclp_into_rtranclp)
qed

text \<open>Functions posted to a waiter are started in the order they were posted, each exactly
  once, none is dropped: the ones posted are the ones started and then the one in the slot.\<close>

theorem waiter_fifo:
  assumes "waiter_step\<^sup>*\<^sup>* new_waiter w"
  shows "posted w = started w @ (case m_fn w of None \<Rightarrow> [] | Some j \<Rightarrow> [j])"
  using waiter.reachable_inv [OF refl assms] by (simp add: waiter_inv_def)

theorem waiter_fifo_witness: "posted posted_once = started posted_once @ [5]"
  using waiter_fifo [OF posted_once_reached] by (simp add: posted_once_def)

text \<open>A thread asleep in \<open>Waiter::wait\<close> has no function to run and its own predicate is
  false: neither a post nor a response can be missed, also when it arrives while a function
  run by \<open>wait\<close> is returning, which is what the \<open>while\<close> in its condition is for.\<close>

theorem waiter_no_lost_wakeup:
  assumes "waiter_step\<^sup>*\<^sup>* new_waiter w" "asleep w"
  shows "m_fn w = None \<and> (\<exists>k below. stack w = F_Wait k # below \<and> k \<notin> sat w)"
  using waiter.reachable_inv [OF refl assms(1)] assms(2) by (simp add: waiter_inv_def)

theorem waiter_no_lost_wakeup_witness:
  "\<exists>w. waiter_step\<^sup>*\<^sup>* new_waiter w \<and> asleep w \<and> m_fn w = None"
proof -
  let ?a = "wait_call 1 new_waiter"
  have "waiter_step new_waiter ?a"
    by (rule waiter_step.call) (simp add: new_waiter_def in_wait_def)
  moreover have "waiter_step ?a (wait_check ?a)"
    by (rule waiter_step.check) (simp_all add: wait_call_def new_waiter_def in_wait_def)
  ultimately have r: "waiter_step\<^sup>*\<^sup>* new_waiter (wait_check ?a)"
    by (blast intro: converse_rtranclp_into_rtranclp)
  have "asleep (wait_check ?a)"
    by (simp add: wait_check_def wait_call_def new_waiter_def)
  then show ?thesis
    using waiter_no_lost_wakeup [OF r] r by blast
qed

text \<open>\<open>Waiter::post\<close> fails, and then changes nothing, exactly when the previous function has
  not been taken yet; and a thread that is in \<open>wait\<close> takes a posted function on its next step,
  before it looks at its predicate, so a response that is already there does not discard it.\<close>

theorem waiter_post_served:
  assumes "waiter_step\<^sup>*\<^sup>* new_waiter w" "in_wait w"
  shows "Waiter_post j w = (if m_fn w = None then (True, snd (Waiter_post j w)) else (False, w)) \<and>
    (m_fn w = None \<longrightarrow>
      (\<exists>v. waiter_step (snd (Waiter_post j w)) v \<and> started v = started w @ [j] \<and> m_fn v = None \<and>
        stack v = F_Run j # stack w))"
proof -
  have inv: "waiter_inv w" by (rule waiter.reachable_inv [OF refl assms(1)])
  have "\<exists>v. waiter_step (snd (Waiter_post j w)) v \<and> started v = started w @ [j] \<and> m_fn v = None \<and>
      stack v = F_Run j # stack w" if none: "m_fn w = None"
  proof (intro exI conjI)
    let ?u = "snd (Waiter_post j w)"
    have u: "?u = w\<lparr>m_fn := Some j, asleep := False, posted := posted w @ [j]\<rparr>"
      using none by (simp add: Waiter_post_def)
    obtain k below where top: "stack w = F_Wait k # below"
      using assms(2) by (rule in_waitE)
    show "waiter_step ?u (wait_check ?u)"
      by (rule waiter_step.check) (simp_all add: u top in_wait_def)
    show "started (wait_check ?u) = started w @ [j]" "m_fn (wait_check ?u) = None"
      "stack (wait_check ?u) = F_Run j # stack w"
      by (simp_all add: u top wait_check_def)
  qed
  then show ?thesis by (simp add: Waiter_post_def)
qed

theorem waiter_post_served_witness: "Waiter_post 6 posted_once = (False, posted_once)"
proof -
  have "in_wait posted_once" by (simp add: posted_once_def in_wait_def)
  from waiter_post_served [OF posted_once_reached this, of 6] show ?thesis
    by (simp add: posted_once_def split: if_splits)
qed

end
