(* ===== verification/ThreadPost.thy ===== *)
theory ThreadPost
  imports Waiter
begin

text \<open>
  \<open>ProxyServer<Thread>::post\<close> of \<open>include/mp/proxy-io.h\<close>: requests for one worker thread are
  chained on \<open>m_thread_ready\<close>, so that each is given to the \<open>Waiter\<close> only when the function
  before it has been taken out of the slot. One \<open>ProxyServer<Thread>\<close> posts to the waiter.
\<close>

section \<open>State\<close>

text \<open>
  Of \<open>kj\<close> promises the code uses this: a promise is pending until its fulfiller fulfils it; if
  the fulfiller is destroyed first the promise is rejected; the function given to \<open>then\<close> is
  called when the promise it waits for is fulfilled, and destroyed uncalled when that promise is
  rejected or the result of \<open>then\<close> is dropped.
\<close>

datatype kj_promise = P_Pending | P_Fulfilled | P_Rejected

text \<open>
  A request waits on the promise of the one before it (\<open>R_Queued\<close>), is in the slot of the waiter
  (\<open>R_Posted\<close>), has been taken by the thread (\<open>R_Taken\<close>), has signalled that the waiter is free
  and executes (\<open>R_Exec\<close>), has sent its result (\<open>R_Done\<close>), or was dropped before it was posted.
\<close>

datatype req_status = R_None | R_Queued | R_Posted | R_Taken | R_Exec | R_Done | R_Dropped

text \<open>
  Requests are numbered in the order of the calls. \<open>ready k\<close> is the promise made by call \<open>k\<close>,
  which is \<open>m_thread_ready\<close> for the next one. \<open>canceled\<close> are the requests whose
  \<open>CancelMonitor\<close> has been told that the promise was dropped.
\<close>

record ThreadServer =
  waiter :: Waiter
  reqs :: nat
  status :: "nat \<Rightarrow> req_status"
  ready :: "nat \<Rightarrow> kj_promise"
  canceled :: "nat set"

definition new_thread :: ThreadServer where
  "new_thread = \<lparr>waiter = new_waiter, reqs = 0, status = (\<lambda>_. R_None), ready = (\<lambda>_. P_Pending),
     canceled = {}\<rparr>"

definition m_thread_ready :: "nat \<Rightarrow> ThreadServer \<Rightarrow> kj_promise" where
  "m_thread_ready k s = (if k = 0 then P_Fulfilled else ready s (k - 1))"

section \<open>Operations\<close>

definition ProxyServer_post :: "ThreadServer \<Rightarrow> ThreadServer" where
  "ProxyServer_post s =
     s\<lparr>reqs := reqs s + 1, status := (status s)(reqs s := R_Queued),
       ready := (ready s)(reqs s := P_Pending)\<rparr>"

text \<open>The function given to \<open>m_thread_ready.then\<close>; \<open>None\<close> is the failed \<open>assert(posted)\<close>.\<close>

definition ready_then :: "nat \<Rightarrow> ThreadServer \<Rightarrow> ThreadServer option" where
  "ready_then k s =
     (let (ok, w) = Waiter_post k (waiter s)
      in if ok then Some (s\<lparr>waiter := w, status := (status s)(k := R_Posted)\<rparr>) else None)"

text \<open>The same function destroyed uncalled, and with it the fulfiller it owns.\<close>

definition ready_destroyed :: "nat \<Rightarrow> ThreadServer \<Rightarrow> ThreadServer" where
  "ready_destroyed k s =
     s\<lparr>status := (status s)(k := R_Dropped), ready := (ready s)(k := P_Rejected)\<rparr>"

text \<open>The caller drops the promise that \<open>post\<close> returned; the probe attached to it goes too.\<close>

definition promise_dropped :: "nat \<Rightarrow> ThreadServer \<Rightarrow> ThreadServer" where
  "promise_dropped k s =
     (case status s k of
        R_Queued \<Rightarrow> ready_destroyed k s
      | R_Posted \<Rightarrow> s\<lparr>canceled := insert k (canceled s)\<rparr>
      | R_Taken \<Rightarrow> s\<lparr>canceled := insert k (canceled s)\<rparr>
      | R_Exec \<Rightarrow> s\<lparr>canceled := insert k (canceled s)\<rparr>
      | _ \<Rightarrow> s)"

text \<open>The worker thread: one look of \<open>Waiter::wait\<close>, then the parts of the posted lambda.\<close>

definition thread_look :: "ThreadServer \<Rightarrow> ThreadServer" where
  "thread_look s =
     s\<lparr>waiter := wait_check (waiter s),
       status := (case m_fn (waiter s) of None \<Rightarrow> status s | Some k \<Rightarrow> (status s)(k := R_Taken))\<rparr>"

definition ready_fulfill :: "nat \<Rightarrow> ThreadServer \<Rightarrow> ThreadServer" where
  "ready_fulfill k s =
     s\<lparr>status := (status s)(k := R_Exec), ready := (ready s)(k := P_Fulfilled)\<rparr>"

text \<open>The end of the lambda: the second \<open>m_loop->sync\<close> sends the result, then the lambda returns to \<open>wait\<close>.\<close>

definition result_sent :: "nat \<Rightarrow> ThreadServer \<Rightarrow> ThreadServer" where
  "result_sent k s = s\<lparr>status := (status s)(k := R_Done)\<rparr>"

definition lambda_returned :: "ThreadServer \<Rightarrow> ThreadServer" where
  "lambda_returned s = s\<lparr>waiter := fn_return (waiter s)\<rparr>"

text \<open>
  Steps. Code of a request can itself wait (in a nested call from \<open>clientInvoke\<close>), and any
  thread may make a predicate true.
\<close>

definition running_code :: "ThreadServer \<Rightarrow> bool" where
  "running_code s =
     (case stack (waiter s) of [] \<Rightarrow> True | F_Run k # _ \<Rightarrow> status s k = R_Exec | _ \<Rightarrow> False)"

inductive thread_step :: "ThreadServer \<Rightarrow> ThreadServer \<Rightarrow> bool" where
  request: "thread_step s (ProxyServer_post s)"
| fire: "status s k = R_Queued \<Longrightarrow> m_thread_ready k s = P_Fulfilled \<Longrightarrow> ready_then k s = Some t \<Longrightarrow>
    thread_step s t"
| reject: "status s k = R_Queued \<Longrightarrow> m_thread_ready k s = P_Rejected \<Longrightarrow>
    thread_step s (ready_destroyed k s)"
| drop: "thread_step s (promise_dropped k s)"
| look: "in_wait (waiter s) \<Longrightarrow> \<not> asleep (waiter s) \<Longrightarrow> thread_step s (thread_look s)"
| fulfill: "status s k = R_Taken \<Longrightarrow> thread_step s (ready_fulfill k s)"
| result: "stack (waiter s) = F_Run k # below \<Longrightarrow> status s k = R_Exec \<Longrightarrow>
    thread_step s (result_sent k s)"
| return: "stack (waiter s) = F_Run k # below \<Longrightarrow> status s k = R_Done \<Longrightarrow> thread_step s (lambda_returned s)"
| nested_wait: "running_code s \<Longrightarrow> thread_step s (s\<lparr>waiter := wait_call p (waiter s)\<rparr>)"
| predicate: "thread_step s (s\<lparr>waiter := set_done p (waiter s)\<rparr>)"

section \<open>The invariant\<close>

fun ready_of :: "req_status \<Rightarrow> kj_promise" where
  "ready_of R_Exec = P_Fulfilled"
| "ready_of R_Done = P_Fulfilled"
| "ready_of R_Dropped = P_Rejected"
| "ready_of _ = P_Pending"

text \<open>
  The requests given to the waiter are a prefix of all requests: every one of them but the last
  has signalled that the waiter is free, and the last is in the slot or was in it.
\<close>

definition chain_inv :: "ThreadServer \<Rightarrow> bool" where
  "chain_inv s \<longleftrightarrow>
     posted (waiter s) = [0..<length (posted (waiter s))] \<and>
     length (posted (waiter s)) \<le> reqs s \<and>
     (\<forall>k. k < length (posted (waiter s)) \<longleftrightarrow> status s k \<in> {R_Posted, R_Taken, R_Exec, R_Done}) \<and>
     (\<forall>k. k < reqs s \<longleftrightarrow> status s k \<noteq> R_None) \<and>
     (\<forall>k. status s k = R_Posted \<longleftrightarrow> m_fn (waiter s) = Some k) \<and>
     (\<forall>k. k + 1 < length (posted (waiter s)) \<longrightarrow> status s k \<in> {R_Exec, R_Done}) \<and>
     (\<forall>k. ready s k = ready_of (status s k))"

definition thread_inv :: "ThreadServer \<Rightarrow> bool" where
  "thread_inv s \<longleftrightarrow> waiter_inv (waiter s) \<and> chain_inv s"

lemma chainD:
  assumes "chain_inv s"
  shows "posted (waiter s) = [0..<length (posted (waiter s))]" "length (posted (waiter s)) \<le> reqs s"
    "k < length (posted (waiter s)) \<longleftrightarrow> status s k \<in> {R_Posted, R_Taken, R_Exec, R_Done}"
    "k < reqs s \<longleftrightarrow> status s k \<noteq> R_None"
    "status s k = R_Posted \<longleftrightarrow> m_fn (waiter s) = Some k"
    "k + 1 < length (posted (waiter s)) \<Longrightarrow> status s k \<in> {R_Exec, R_Done}"
    "ready s k = ready_of (status s k)"
  using assms unfolding chain_inv_def by blast+

lemma ready_of_fulfilled: "ready_of p = P_Fulfilled \<longleftrightarrow> p = R_Exec \<or> p = R_Done"
  by (cases p) simp_all

text \<open>When the function of request \<open>k\<close> may fire, \<open>k\<close> is the next one and the slot is free.\<close>

lemma fire_next:
  assumes "thread_inv s" "status s k = R_Queued" "m_thread_ready k s = P_Fulfilled"
  shows "k = length (posted (waiter s))" "m_fn (waiter s) = None"
proof -
  have c: "chain_inv s" using assms(1) by (simp add: thread_inv_def)
  have ge: "\<not> k < length (posted (waiter s))"
    using chainD(3) [OF c, of k] assms(2) by simp
  have prev: "k = 0 \<or> status s (k - 1) \<in> {R_Exec, R_Done}"
    using assms(3) chainD(7) [OF c, of "k - 1"]
    by (auto simp: m_thread_ready_def ready_of_fulfilled split: if_splits)
  then have "k = 0 \<or> k - 1 < length (posted (waiter s))"
    using chainD(3) [OF c, of "k - 1"] by auto
  then show k: "k = length (posted (waiter s))"
    using ge by linarith
  show "m_fn (waiter s) = None"
  proof (cases "m_fn (waiter s)")
    case (Some j)
    then have j: "status s j = R_Posted" using chainD(5) [OF c] by simp
    then have "j < k" using chainD(3) [OF c, of j] k by simp
    moreover have "\<not> j + 1 < k"
      using chainD(6) [OF c, of j] j k by auto
    ultimately have "j = k - 1" "k \<noteq> 0" by linarith+
    then show ?thesis using prev j by simp
  qed simp
qed

section \<open>Every step keeps the invariant\<close>

lemma waiter_fields [simp]:
  "posted (wait_call p w) = posted w" "m_fn (wait_call p w) = m_fn w"
  "posted (set_done p w) = posted w" "m_fn (set_done p w) = m_fn w"
  "posted (fn_return w) = posted w" "m_fn (fn_return w) = m_fn w"
  by (simp_all add: wait_call_def set_done_def fn_return_def)

lemma wait_check_fields:
  assumes "in_wait w"
  shows "posted (wait_check w) = posted w" "m_fn (wait_check w) = None"
  using assms by (auto simp: wait_check_def elim!: in_waitE split: option.splits)

text \<open>A change of the status of one request that keeps its class.\<close>

lemma chain_inv_status:
  assumes "chain_inv s"
    and "st \<in> {R_Posted, R_Taken, R_Exec, R_Done} \<longleftrightarrow> status s k \<in> {R_Posted, R_Taken, R_Exec, R_Done}"
    and "st \<noteq> R_None" "status s k \<noteq> R_None" "st \<noteq> R_Posted" "status s k \<noteq> R_Posted"
    and "status s k \<in> {R_Exec, R_Done} \<Longrightarrow> st \<in> {R_Exec, R_Done}"
    and "posted w = posted (waiter s)" "m_fn w = m_fn (waiter s)"
  shows "chain_inv (s\<lparr>waiter := w, status := (status s)(k := st), ready := (ready s)(k := ready_of st)\<rparr>)"
  using assms unfolding chain_inv_def by simp

lemma thread_inv_request:
  assumes "thread_inv s"
  shows "thread_inv (ProxyServer_post s)"
proof -
  have c: "chain_inv s" using assms by (simp add: thread_inv_def)
  have none: "status s (reqs s) = R_None"
    using chainD(4) [OF c, of "reqs s"] by simp
  have fresh: "\<not> reqs s < length (posted (waiter s))"
    using chainD(2) [OF c] by simp
  have "chain_inv (ProxyServer_post s)"
    unfolding chain_inv_def
  proof (intro conjI allI)
    show "posted (waiter (ProxyServer_post s)) = [0..<length (posted (waiter (ProxyServer_post s)))]"
      using chainD(1) [OF c] by (simp add: ProxyServer_post_def)
    show "length (posted (waiter (ProxyServer_post s))) \<le> reqs (ProxyServer_post s)"
      using chainD(2) [OF c] by (simp add: ProxyServer_post_def)
    fix j
    show "j < length (posted (waiter (ProxyServer_post s))) \<longleftrightarrow>
        status (ProxyServer_post s) j \<in> {R_Posted, R_Taken, R_Exec, R_Done}"
      using chainD(3) [OF c, of j] fresh by (cases "j = reqs s") (simp_all add: ProxyServer_post_def)
    show "j < reqs (ProxyServer_post s) \<longleftrightarrow> status (ProxyServer_post s) j \<noteq> R_None"
      using chainD(4) [OF c, of j] by (cases "j = reqs s") (simp_all add: ProxyServer_post_def less_Suc_eq)
    show "status (ProxyServer_post s) j = R_Posted \<longleftrightarrow> m_fn (waiter (ProxyServer_post s)) = Some j"
      using chainD(5) [OF c, of j] none by (cases "j = reqs s") (simp_all add: ProxyServer_post_def)
    show "j + 1 < length (posted (waiter (ProxyServer_post s))) \<longrightarrow>
        status (ProxyServer_post s) j \<in> {R_Exec, R_Done}"
      using chainD(6) [OF c, of j] fresh by (cases "j = reqs s") (simp_all add: ProxyServer_post_def)
    show "ready (ProxyServer_post s) j = ready_of (status (ProxyServer_post s) j)"
      using chainD(7) [OF c, of j] by (simp add: ProxyServer_post_def)
  qed
  then show ?thesis using assms by (simp add: thread_inv_def ProxyServer_post_def)
qed

lemma thread_inv_fire:
  assumes "thread_inv s" "status s k = R_Queued" "m_thread_ready k s = P_Fulfilled"
    and "ready_then k s = Some t"
  shows "thread_inv t"
proof -
  note nx = fire_next [OF assms(1-3)]
  have len: "length (posted (waiter s)) = k" using nx(1) by simp
  have c: "chain_inv s" and w: "waiter_inv (waiter s)" using assms(1) by (simp_all add: thread_inv_def)
  let ?w = "snd (Waiter_post k (waiter s))"
  have t: "t = s\<lparr>waiter := ?w, status := (status s)(k := R_Posted)\<rparr>"
    using assms(4) by (auto simp: ready_then_def split: prod.splits if_splits)
  have wp: "posted ?w = posted (waiter s) @ [k]" "m_fn ?w = Some k"
    using waiter_slot.put_log [of k "waiter s"] waiter_slot.put_slot [of k "waiter s"] nx(2)
    by simp_all
  have lt: "k < reqs s" using chainD(4) [OF c, of k] assms(2) by simp
  have prev: "status s j \<in> {R_Exec, R_Done}" if "j < k" for j
  proof (cases "j + 1 < k")
    case True then show ?thesis using chainD(6) [OF c, of j] len by simp
  next
    case False
    then have "j = k - 1" "k \<noteq> 0" using that by linarith+
    then have "ready s j = P_Fulfilled"
      using assms(3) by (simp add: m_thread_ready_def)
    then show ?thesis
      using chainD(7) [OF c, of j] ready_of_fulfilled [of "status s j"] by auto
  qed
  have "chain_inv t"
    unfolding chain_inv_def
  proof (intro conjI allI)
    show "posted (waiter t) = [0..<length (posted (waiter t))]"
    proof -
      have "posted (waiter t) = [0..<k] @ [k]"
        using chainD(1) [OF c] wp(1) len by (simp add: t)
      then show ?thesis by simp
    qed
    show "length (posted (waiter t)) \<le> reqs t"
      using lt len by (simp add: t wp)
    fix j
    show "j < length (posted (waiter t)) \<longleftrightarrow> status t j \<in> {R_Posted, R_Taken, R_Exec, R_Done}"
      using chainD(3) [OF c, of j] len by (auto simp: t wp less_Suc_eq)
    show "j < reqs t \<longleftrightarrow> status t j \<noteq> R_None"
      using chainD(4) [OF c, of j] lt assms(2) by (cases "j = k") (simp_all add: t)
    show "status t j = R_Posted \<longleftrightarrow> m_fn (waiter t) = Some j"
      using chainD(5) [OF c, of j] nx(2) by (simp add: t wp)
    show "j + 1 < length (posted (waiter t)) \<longrightarrow> status t j \<in> {R_Exec, R_Done}"
      using prev [of j] len by (simp add: t wp)
    show "ready t j = ready_of (status t j)"
      using chainD(7) [OF c, of j] assms(2) by (simp add: t)
  qed
  then show ?thesis
    using waiter_inv_post [OF w, of k] by (simp add: thread_inv_def t)
qed

lemma thread_inv_destroyed:
  assumes "thread_inv s" "status s k = R_Queued"
  shows "thread_inv (ready_destroyed k s)"
  using chain_inv_status [of s R_Dropped k "waiter s"] assms
  by (simp add: thread_inv_def ready_destroyed_def)

lemma chain_inv_canceled [simp]: "chain_inv (s\<lparr>canceled := c\<rparr>) = chain_inv s"
  by (simp add: chain_inv_def)

lemma thread_inv_dropped:
  assumes "thread_inv s"
  shows "thread_inv (promise_dropped k s)"
  using assms thread_inv_destroyed [OF assms, of k]
  by (cases "status s k") (simp_all add: promise_dropped_def thread_inv_def)

lemma thread_inv_look:
  assumes "thread_inv s" "in_wait (waiter s)" "\<not> asleep (waiter s)"
  shows "thread_inv (thread_look s)"
proof -
  have c: "chain_inv s" and w: "waiter_inv (waiter s)" using assms(1) by (simp_all add: thread_inv_def)
  note wc = wait_check_fields [OF assms(2)]
  have "chain_inv (thread_look s)"
  proof (cases "m_fn (waiter s)")
    case None
    then show ?thesis using c wc by (simp add: chain_inv_def thread_look_def)
  next
    case (Some k)
    then have k: "status s k = R_Posted" using chainD(5) [OF c] by simp
    have last: "\<not> k + 1 < length (posted (waiter s))"
      using chainD(6) [OF c, of k] k by auto
    show ?thesis
      unfolding chain_inv_def
    proof (intro conjI allI)
      show "posted (waiter (thread_look s)) = [0..<length (posted (waiter (thread_look s)))]"
        using chainD(1) [OF c] wc by (simp add: thread_look_def)
      show "length (posted (waiter (thread_look s))) \<le> reqs (thread_look s)"
        using chainD(2) [OF c] wc by (simp add: thread_look_def)
      fix j
      show "j < length (posted (waiter (thread_look s))) \<longleftrightarrow>
          status (thread_look s) j \<in> {R_Posted, R_Taken, R_Exec, R_Done}"
        using chainD(3) [OF c, of j] wc k Some by (cases "j = k") (simp_all add: thread_look_def)
      show "j < reqs (thread_look s) \<longleftrightarrow> status (thread_look s) j \<noteq> R_None"
        using chainD(4) [OF c, of j] k Some by (cases "j = k") (simp_all add: thread_look_def)
      show "status (thread_look s) j = R_Posted \<longleftrightarrow> m_fn (waiter (thread_look s)) = Some j"
        using chainD(5) [OF c, of j] wc Some by (cases "j = k") (simp_all add: thread_look_def)
      show "j + 1 < length (posted (waiter (thread_look s))) \<longrightarrow>
          status (thread_look s) j \<in> {R_Exec, R_Done}"
        using chainD(6) [OF c, of j] last wc Some by (cases "j = k") (simp_all add: thread_look_def)
      show "ready (thread_look s) j = ready_of (status (thread_look s) j)"
        using chainD(7) [OF c, of j] k Some by (cases "j = k") (simp_all add: thread_look_def)
    qed
  qed
  then show ?thesis
    using waiter_inv_check [OF w assms(2,3)] by (simp add: thread_inv_def thread_look_def)
qed

lemma thread_inv_fulfill:
  assumes "thread_inv s" "status s k = R_Taken"
  shows "thread_inv (ready_fulfill k s)"
  using chain_inv_status [of s R_Exec k "waiter s"] assms
  by (simp add: thread_inv_def ready_fulfill_def)

lemma thread_inv_result:
  assumes "thread_inv s" "status s k = R_Exec"
  shows "thread_inv (result_sent k s)"
proof -
  have c: "chain_inv s" and w: "waiter_inv (waiter s)" using assms(1) by (simp_all add: thread_inv_def)
  have "(ready s)(k := P_Fulfilled) = ready s"
    using chainD(7) [OF c, of k] assms(2) by (intro fun_upd_idem) simp
  then have "result_sent k s = s\<lparr>waiter := waiter s, status := (status s)(k := R_Done),
      ready := (ready s)(k := ready_of R_Done)\<rparr>"
    by (simp add: result_sent_def)
  moreover have "chain_inv \<dots>"
    using assms(2) by (intro chain_inv_status [OF c]) simp_all
  ultimately show ?thesis
    using w by (simp add: thread_inv_def)
qed

lemma thread_inv_return:
  "thread_inv s \<Longrightarrow> stack (waiter s) = F_Run k # below \<Longrightarrow> thread_inv (lambda_returned s)"
  using waiter_inv_return [of "waiter s" k below] by (simp add: thread_inv_def chain_inv_def lambda_returned_def)

lemma running_not_waiting: "running_code s \<Longrightarrow> \<not> in_wait (waiter s)"
  by (simp add: running_code_def in_wait_def split: list.splits frame.splits)

lemma thread_step_inv: "thread_step s t \<Longrightarrow> thread_inv s \<Longrightarrow> thread_inv t"
proof (induction rule: thread_step.induct)
  case (nested_wait s p)
  then show ?case
    using waiter_inv_call [OF _ running_not_waiting] by (simp add: thread_inv_def chain_inv_def)
next
  case (predicate s p)
  then show ?case
    using waiter_inv_set_done by (simp add: thread_inv_def chain_inv_def)
qed (simp_all add: thread_inv_request thread_inv_fire thread_inv_destroyed thread_inv_dropped
  thread_inv_look thread_inv_fulfill thread_inv_result thread_inv_return)

lemma thread_inv_new: "thread_inv new_thread"
  by (simp add: thread_inv_def chain_inv_def new_thread_def waiter_inv_new, simp add: new_waiter_def)

interpretation thread_server: transition_invariant "\<lambda>s. s = new_thread" thread_step thread_inv
  by unfold_locales (use thread_inv_new thread_step_inv in auto)

section \<open>Properties\<close>

text \<open>Once a request was dropped in the queue, neither it nor a later one is ever posted.\<close>

lemma dropped_stays:
  assumes "thread_step s t" "status s k = R_Dropped" "thread_inv s"
  shows "status t k = R_Dropped"
  using assms(1)
proof (cases rule: thread_step.cases)
  case (fire j)
  then show ?thesis
    using assms(2) by (auto simp: ready_then_def split: prod.splits if_splits)
next
  case request
  have "status s (reqs s) = R_None"
    using assms(3) chainD(4) [of s "reqs s"] by (simp add: thread_inv_def)
  then have "k \<noteq> reqs s" using assms(2) by auto
  then show ?thesis using request assms(2) by (simp add: ProxyServer_post_def)
next
  case look
  have "m_fn (waiter s) \<noteq> Some k"
    using assms(2,3) chainD(5) [of s k] by (simp add: thread_inv_def)
  then show ?thesis
    using look assms(2) by (auto simp: thread_look_def split: option.splits)
next
  case (drop j)
  then show ?thesis
    using assms(2) by (cases "j = k"; cases "status s j") (simp_all add: promise_dropped_def ready_destroyed_def)
qed (use assms(2) in \<open>auto simp: ready_destroyed_def ready_fulfill_def result_sent_def lambda_returned_def\<close>)

lemma dropped_run:
  assumes "thread_step\<^sup>*\<^sup>* s t" "status s k = R_Dropped" "thread_inv s"
  shows "status t k = R_Dropped \<and> thread_inv t"
  using assms(1)
proof (induction rule: rtranclp_induct)
  case base show ?case using assms(2,3) by simp
next
  case (step u v)
  then show ?case using dropped_stays thread_step_inv by blast
qed

lemma not_posted_after_drop:
  assumes "thread_inv s" "status s k = R_Dropped" "k \<le> j"
  shows "j \<notin> set (posted (waiter s))"
proof -
  have c: "chain_inv s" using assms(1) by (simp add: thread_inv_def)
  have "length (posted (waiter s)) \<le> k"
    using chainD(3) [OF c, of k] assms(2) by simp
  moreover have "set (posted (waiter s)) = {0..<length (posted (waiter s))}"
    using chainD(1) [OF c] by (metis set_upt atLeastLessThan_upt)
  ultimately show ?thesis using assms(3) by auto
qed

text \<open>Concrete runs: two requests queued, the first of them posted, and the first dropped.\<close>

definition two_queued :: ThreadServer where
  "two_queued = ProxyServer_post (ProxyServer_post new_thread)"

lemma two_queued_reached: "thread_step\<^sup>*\<^sup>* new_thread two_queued"
  unfolding two_queued_def
  by (blast intro: thread_step.request rtranclp.rtrancl_into_rtrancl)

lemma two_queued_eval [simp]:
  "status two_queued 0 = R_Queued" "status two_queued 1 = R_Queued" "status two_queued (Suc 0) = R_Queued"
  "waiter two_queued = new_waiter" "m_thread_ready 0 two_queued = P_Fulfilled"
  by (simp_all add: two_queued_def ProxyServer_post_def new_thread_def m_thread_ready_def)

text \<open>The \<open>assert(posted)\<close> of \<open>ProxyServer<Thread>::post\<close> cannot fail: whenever the function
  given to \<open>m_thread_ready.then\<close> is called, the slot of the waiter is free, whatever requests
  were made, dropped or are executing in nested calls.\<close>

theorem thread_post_succeeds:
  assumes "thread_step\<^sup>*\<^sup>* new_thread s" "status s k = R_Queued" "m_thread_ready k s = P_Fulfilled"
  shows "\<exists>t. ready_then k s = Some t \<and> posted (waiter t) = posted (waiter s) @ [k]"
proof -
  have "m_fn (waiter s) = None"
    using fire_next [OF thread_server.reachable_inv [OF refl assms(1)] assms(2,3)] by simp
  then show ?thesis by (simp add: ready_then_def Waiter_post_def)
qed

theorem thread_post_succeeds_witness: "\<exists>t. ready_then 0 two_queued = Some t \<and> posted (waiter t) = [0]"
  using thread_post_succeeds [OF two_queued_reached, of 0] by (simp add: new_waiter_def)

text \<open>C7. A worker thread starts requests in the order in which they arrived, without gaps.\<close>

theorem thread_requests_in_order:
  assumes "thread_step\<^sup>*\<^sup>* new_thread s"
  shows "started (waiter s) = [0..<length (started (waiter s))] \<and> length (started (waiter s)) \<le> reqs s"
proof -
  have i: "thread_inv s" by (rule thread_server.reachable_inv [OF refl assms])
  then have c: "chain_inv s" by (simp add: thread_inv_def)
  have p: "posted (waiter s) =
      started (waiter s) @ (case m_fn (waiter s) of None \<Rightarrow> [] | Some j \<Rightarrow> [j])"
    using i by (simp add: thread_inv_def waiter_inv_def)
  have "started (waiter s) = take (length (started (waiter s))) [0..<length (posted (waiter s))]"
    using p chainD(1) [OF c] by (metis append_eq_conv_conj)
  moreover have "length (started (waiter s)) \<le> length (posted (waiter s))"
    using p by simp
  ultimately show ?thesis
    using chainD(2) [OF c] by (metis add_0 le_trans take_upt)
qed


text \<open>C24. A request that arrives while an earlier one executes is not blocked by it: if the earlier
  request waits (for a callback, say), the next request can be posted at once and is run on the
  same thread, on top of the stack of the waiting one. This is why the waiter is signalled ready
  before the function is called.\<close>

theorem nested_request_runs:
  assumes "thread_step\<^sup>*\<^sup>* new_thread s" "status s k = R_Exec" "status s (k + 1) = R_Queued"
    and "in_wait (waiter s)"
  shows "\<exists>t. thread_step\<^sup>*\<^sup>* s t \<and> stack (waiter t) = F_Run (k + 1) # stack (waiter s) \<and>
    status t k = R_Exec"
proof -
  have i: "thread_inv s" by (rule thread_server.reachable_inv [OF refl assms(1)])
  then have c: "chain_inv s" by (simp add: thread_inv_def)
  have rdy: "m_thread_ready (k + 1) s = P_Fulfilled"
    using chainD(7) [OF c, of k] assms(2) by (simp add: m_thread_ready_def)
  have free: "m_fn (waiter s) = None"
    using fire_next [OF i assms(3) rdy] by simp
  let ?w = "(waiter s)\<lparr>m_fn := Some (k + 1), asleep := False, posted := posted (waiter s) @ [k + 1]\<rparr>"
  let ?u = "s\<lparr>waiter := ?w, status := (status s)(k + 1 := R_Posted)\<rparr>"
  have u: "ready_then (k + 1) s = Some ?u"
    using free by (simp add: ready_then_def Waiter_post_def)
  have 1: "thread_step s ?u"
    using assms(3) rdy u by (rule thread_step.fire)
  obtain q below where top: "stack (waiter s) = F_Wait q # below"
    using assms(4) by (rule in_waitE)
  have 2: "thread_step ?u (thread_look ?u)"
    by (rule thread_step.look) (simp_all add: in_wait_def top)
  have "stack (waiter (thread_look ?u)) = F_Run (k + 1) # stack (waiter s)"
    "status (thread_look ?u) k = R_Exec"
    using assms(2) by (simp_all add: thread_look_def wait_check_def top)
  then show ?thesis
    using 1 2 by (meson rtranclp.rtrancl_refl rtranclp.rtrancl_into_rtrancl)
qed

text \<open>The thread waits, takes request 0, signals ready and waits again inside it.\<close>

definition calling_back :: ThreadServer where
  "calling_back =
     \<lparr>waiter = \<lparr>m_fn = None, stack = [F_Wait 1, F_Run 0, F_Wait 0], asleep = False, sat = {},
        posted = [0], started = [0]\<rparr>,
      reqs = 2, status = (\<lambda>_. R_None)(0 := R_Exec, 1 := R_Queued),
      ready = (\<lambda>_. P_Pending)(0 := P_Fulfilled), canceled = {}\<rparr>"

lemma calling_back_reached: "thread_step\<^sup>*\<^sup>* new_thread calling_back"
proof -
  define a where "a = two_queued\<lparr>waiter := wait_call 0 new_waiter\<rparr>"
  define b where "b = a\<lparr>waiter := snd (Waiter_post 0 (waiter a)), status := (status a)(0 := R_Posted)\<rparr>"
  define c where "c = thread_look b"
  define d where "d = ready_fulfill 0 c"
  note wdefs = Waiter_post_def wait_call_def wait_check_def new_waiter_def
  have a: "waiter a = wait_call 0 new_waiter" "status a = (\<lambda>_. R_None)(0 := R_Queued, 1 := R_Queued)"
    "ready a = (\<lambda>_. P_Pending)" "reqs a = 2" "canceled a = {}"
    by (auto simp: a_def two_queued_def ProxyServer_post_def new_thread_def)
  have b: "waiter b = \<lparr>m_fn = Some 0, stack = [F_Wait 0], asleep = False, sat = {}, posted = [0], started = []\<rparr>"
    "status b = (\<lambda>_. R_None)(0 := R_Posted, 1 := R_Queued)" "ready b = (\<lambda>_. P_Pending)" "reqs b = 2" "canceled b = {}"
    by (auto simp: b_def a wdefs)
  have c: "waiter c = \<lparr>m_fn = None, stack = [F_Run 0, F_Wait 0], asleep = False, sat = {}, posted = [0], started = [0]\<rparr>"
    "status c = (\<lambda>_. R_None)(0 := R_Taken, 1 := R_Queued)" "ready c = (\<lambda>_. P_Pending)" "reqs c = 2" "canceled c = {}"
    by (auto simp: c_def thread_look_def b wdefs)
  have d: "d\<lparr>waiter := wait_call 1 (waiter d)\<rparr> = calling_back"
    by (rule ThreadServer.equality) (auto simp: d_def ready_fulfill_def c wdefs calling_back_def)
  have "thread_step two_queued a"
    unfolding a_def using thread_step.nested_wait [of two_queued 0]
    by (simp add: running_code_def new_waiter_def)
  with two_queued_reached have ra: "thread_step\<^sup>*\<^sup>* new_thread a"
    by (rule rtranclp.rtrancl_into_rtrancl)
  have "thread_step a b"
    by (rule thread_step.fire [of _ 0]) (simp_all add: a m_thread_ready_def ready_then_def wdefs b_def)
  with ra have rb: "thread_step\<^sup>*\<^sup>* new_thread b"
    by (rule rtranclp.rtrancl_into_rtrancl)
  have "thread_step b c"
    unfolding c_def by (rule thread_step.look) (simp_all add: b in_wait_def)
  with rb have rc: "thread_step\<^sup>*\<^sup>* new_thread c"
    by (rule rtranclp.rtrancl_into_rtrancl)
  have "thread_step c d"
    unfolding d_def by (rule thread_step.fulfill) (simp add: c)
  with rc have rd: "thread_step\<^sup>*\<^sup>* new_thread d"
    by (rule rtranclp.rtrancl_into_rtrancl)
  have "thread_step d calling_back"
    unfolding d [symmetric]
    by (rule thread_step.nested_wait) (simp add: running_code_def d_def ready_fulfill_def c)
  with rd show ?thesis
    by (rule rtranclp.rtrancl_into_rtrancl)
qed

theorem thread_requests_in_order_witness:
  "started (waiter calling_back) = [0..<length (started (waiter calling_back))] \<and> started (waiter calling_back) = [0]"
  using thread_requests_in_order [OF calling_back_reached] by (simp add: calling_back_def)

theorem nested_request_runs_witness:
  "\<exists>t. thread_step\<^sup>*\<^sup>* calling_back t \<and> stack (waiter t) = [F_Run 1, F_Wait 1, F_Run 0, F_Wait 0]"
  using nested_request_runs [OF calling_back_reached, of 0]
  by (auto simp: calling_back_def in_wait_def)

text \<open>C37. Dropping the promise of a request that is still queued destroys the fulfiller of the
  promise the next request waits for: from then on no request made after it is ever given to
  the thread, also none made later; each of them is rejected in turn.\<close>

theorem dropped_request_blocks_thread:
  assumes "thread_step\<^sup>*\<^sup>* new_thread s" "status s k = R_Queued"
    and "thread_step\<^sup>*\<^sup>* (promise_dropped k s) t" "k \<le> j"
  shows "j \<notin> set (posted (waiter t)) \<and>
    (status t (k + 1) = R_Queued \<longrightarrow> thread_step t (ready_destroyed (k + 1) t))"
proof -
  have i: "thread_inv s" by (rule thread_server.reachable_inv [OF refl assms(1)])
  have "status (promise_dropped k s) k = R_Dropped"
    using assms(2) by (simp add: promise_dropped_def ready_destroyed_def)
  then have t: "status t k = R_Dropped" "thread_inv t"
    using dropped_run [OF assms(3)] thread_inv_dropped [OF i] by blast+
  have "m_thread_ready (k + 1) t = P_Rejected"
    using t chainD(7) [of t k] by (simp add: m_thread_ready_def thread_inv_def)
  then show ?thesis
    using not_posted_after_drop [OF t(2,1) assms(4)] thread_step.reject by blast
qed

theorem dropped_request_blocks_thread_witness:
  "1 \<notin> set (posted (waiter (promise_dropped 0 two_queued))) \<and>
   thread_step (promise_dropped 0 two_queued) (ready_destroyed 1 (promise_dropped 0 two_queued))"
  using dropped_request_blocks_thread [OF two_queued_reached, of 0 "promise_dropped 0 two_queued" 1]
  by (simp add: promise_dropped_def ready_destroyed_def)

end
