(* ===== verification/ThreadEnd.thy ===== *)
theory ThreadEnd
  imports ThreadPost
begin

text \<open>
  The life of a worker thread: \<open>makeThread\<close> starts it, the server object is kept by capabilities and by the
  \<open>self\<close> variables of \<open>ProxyServer<Thread>::post\<close> (\<open>include/mp/proxy-io.h\<close>), and its destructor
  (\<open>src/mp/proxy.cpp\<close>) stops the thread and waits for it on the event loop thread. A request ends in steps of both
  threads: the event loop runs the second \<open>sync\<close> of its lambda and leaves it, the worker returns.
\<close>

section \<open>State\<close>

text \<open>
  \<open>capabilities\<close> are the references that clients and messages have, \<open>later\<close> the tasks that \<open>post\<close> gave to
  \<open>evalLater\<close>, each with the last \<open>self\<close> of a request. \<open>syncing\<close> is the request whose second \<open>sync\<close> the event loop is
  in: the worker cannot return from it yet. Predicate 0 is the one of the wait in \<open>makeThread\<close>: the pointer to
  the waiter is null.
\<close>

record thread_life =
  server :: ThreadServer
  capabilities :: nat
  later :: "nat list"
  syncing :: "nat option"
  destroyed :: bool

definition make_thread :: thread_life where
  "make_thread = \<lparr>server = new_thread\<lparr>waiter := wait_call 0 new_waiter\<rparr>, capabilities = 1, later = [],
     syncing = None, destroyed = False\<rparr>"

text \<open>A request refers to the server from \<open>post\<close> on until its task of \<open>evalLater\<close> has run.\<close>

definition self_held :: "thread_life \<Rightarrow> bool" where
  "self_held s \<longleftrightarrow> 0 < capabilities s \<or> later s \<noteq> [] \<or>
     (\<exists>k. status (server s) k \<in> {R_Queued, R_Posted, R_Taken, R_Exec})"

section \<open>Operations\<close>

text \<open>The function given to the second \<open>m_loop->sync\<close>: it sends the result and gives \<open>self\<close> to a task.\<close>

definition send_result :: "nat \<Rightarrow> thread_life \<Rightarrow> thread_life" where
  "send_result k s = s\<lparr>server := result_sent k (server s), later := later s @ [k], syncing := Some k\<rparr>"

text \<open>The event loop leaves the \<open>sync\<close>; later it runs the task, which drops \<open>self\<close>.\<close>

definition sync_exit :: "thread_life \<Rightarrow> thread_life" where
  "sync_exit s = s\<lparr>syncing := None\<rparr>"

definition self_dropped :: "thread_life \<Rightarrow> thread_life" where
  "self_dropped s = s\<lparr>later := tl (later s)\<rparr>"

text \<open>
  The destructor, up to \<open>join\<close>: the pointer to the waiter is reset and the waiter is notified. \<open>None\<close> is the failed
  assertion that the waiter is idle.
\<close>

definition thread_server_dtor :: "thread_life \<Rightarrow> thread_life option" where
  "thread_server_dtor s =
     (if m_fn (waiter (server s)) \<noteq> None then None
      else Some (s\<lparr>server := (server s)\<lparr>waiter := set_done 0 (waiter (server s))\<rparr>, destroyed := True\<rparr>))"

section \<open>Steps\<close>

text \<open>
  What the event loop does with requests that were made, and the code of requests, as in \<open>thread_step\<close>. The results of
  requests and new requests concern the server object.
\<close>

inductive queue_step :: "ThreadServer \<Rightarrow> ThreadServer \<Rightarrow> bool" where
  fire: "status s k = R_Queued \<Longrightarrow> m_thread_ready k s = P_Fulfilled \<Longrightarrow> ready_then k s = Some t \<Longrightarrow> queue_step s t"
| reject: "status s k = R_Queued \<Longrightarrow> m_thread_ready k s = P_Rejected \<Longrightarrow> queue_step s (ready_destroyed k s)"
| drop: "queue_step s (promise_dropped k s)"
| fulfill: "status s k = R_Taken \<Longrightarrow> queue_step s (ready_fulfill k s)"
| nested_wait: "running_code s \<Longrightarrow> stack (waiter s) \<noteq> [] \<Longrightarrow> p \<noteq> 0 \<Longrightarrow>
    queue_step s (s\<lparr>waiter := wait_call p (waiter s)\<rparr>)"
| predicate: "p \<noteq> 0 \<Longrightarrow> queue_step s (s\<lparr>waiter := set_done p (waiter s)\<rparr>)"

text \<open>What the worker does by itself, without the event loop: it looks, or returns after its last \<open>sync\<close>.\<close>

inductive worker_step :: "thread_life \<Rightarrow> thread_life \<Rightarrow> bool" where
  look: "in_wait (waiter (server s)) \<Longrightarrow> \<not> asleep (waiter (server s)) \<Longrightarrow>
    worker_step s (s\<lparr>server := thread_look (server s)\<rparr>)"
| return: "stack (waiter (server s)) = F_Run k # below \<Longrightarrow> status (server s) k = R_Done \<Longrightarrow> syncing s \<noteq> Some k \<Longrightarrow>
    worker_step s (s\<lparr>server := lambda_returned (server s)\<rparr>)"

text \<open>
  The server object is destroyed once nothing refers to it, wherever the event loop is then. From there on it waits in
  \<open>join\<close> and only the worker makes steps.
\<close>

inductive life_step :: "thread_life \<Rightarrow> thread_life \<Rightarrow> bool" where
  request: "0 < capabilities s \<Longrightarrow> syncing s = None \<Longrightarrow> life_step s (s\<lparr>server := ProxyServer_post (server s)\<rparr>)"
| queue: "queue_step (server s) t \<Longrightarrow> syncing s = None \<Longrightarrow> \<not> destroyed s \<Longrightarrow> life_step s (s\<lparr>server := t\<rparr>)"
| result: "stack (waiter (server s)) = F_Run k # below \<Longrightarrow> status (server s) k = R_Exec \<Longrightarrow> syncing s = None \<Longrightarrow>
    \<not> destroyed s \<Longrightarrow> life_step s (send_result k s)"
| exit_sync: "syncing s \<noteq> None \<Longrightarrow> \<not> destroyed s \<Longrightarrow> life_step s (sync_exit s)"
| later: "later s \<noteq> [] \<Longrightarrow> syncing s = None \<Longrightarrow> life_step s (self_dropped s)"
| copy: "0 < capabilities s \<Longrightarrow> syncing s = None \<Longrightarrow> life_step s (s\<lparr>capabilities := capabilities s + 1\<rparr>)"
| release: "0 < capabilities s \<Longrightarrow> syncing s = None \<Longrightarrow> life_step s (s\<lparr>capabilities := capabilities s - 1\<rparr>)"
| destroy: "\<not> self_held s \<Longrightarrow> \<not> destroyed s \<Longrightarrow> thread_server_dtor s = Some t \<Longrightarrow> life_step s t"
| worker: "worker_step s t \<Longrightarrow> life_step s t"

lemma queue_thread_step: "queue_step s t \<Longrightarrow> thread_step s t"
  by (induction rule: queue_step.induct) (auto intro: thread_step.intros)

section \<open>The invariant\<close>

text \<open>
  The functions that the thread is in are those of requests that were taken and have no result yet; the innermost may
  have sent its result.
\<close>

fun runs :: "frame list \<Rightarrow> nat list" where
  "runs [] = []"
| "runs (F_Wait p # fs) = runs fs"
| "runs (F_Run k # fs) = k # runs fs"

definition stack_ok :: "ThreadServer \<Rightarrow> bool" where
  "stack_ok s \<longleftrightarrow> distinct (runs (stack (waiter s))) \<and>
     (\<forall>k \<in> set (runs (tl (stack (waiter s)))). status s k \<in> {R_Taken, R_Exec}) \<and>
     (\<forall>k below. stack (waiter s) = F_Run k # below \<longrightarrow> status s k \<in> {R_Taken, R_Exec, R_Done})"

text \<open>The wait of \<open>makeThread\<close> is the outermost call.\<close>

definition rooted :: "ThreadServer \<Rightarrow> bool" where
  "rooted s \<longleftrightarrow> 0 \<notin> sat (waiter s) \<and> (\<exists>fs. stack (waiter s) = fs @ [F_Wait 0] \<and> F_Wait 0 \<notin> set fs)"

text \<open>Nothing is left to do for the thread but to return, from its last request and from the wait of \<open>makeThread\<close>.\<close>

definition returning :: "ThreadServer \<Rightarrow> bool" where
  "returning s \<longleftrightarrow> stack (waiter s) = [F_Wait 0] \<or>
     (\<exists>k. stack (waiter s) = [F_Run k, F_Wait 0] \<and> status s k = R_Done)"

definition stopped :: "ThreadServer \<Rightarrow> bool" where
  "stopped s \<longleftrightarrow> 0 \<in> sat (waiter s) \<and> (stack (waiter s) = [] \<or> returning s) \<and>
     (\<forall>k. status s k \<in> {R_None, R_Done, R_Dropped})"

definition life_inv :: "thread_life \<Rightarrow> bool" where
  "life_inv s \<longleftrightarrow> thread_inv (server s) \<and> stack_ok (server s) \<and> (\<forall>k \<in> set (later s). status (server s) k = R_Done) \<and>
     (\<forall>k. syncing s = Some k \<longrightarrow> k \<in> set (later s)) \<and>
     (if destroyed s then stopped (server s) \<and> capabilities s = 0 \<and> later s = [] else rooted (server s))"

lemma life_invD:
  assumes "life_inv s"
  shows "thread_inv (server s)" "stack_ok (server s)" "k \<in> set (later s) \<Longrightarrow> status (server s) k = R_Done"
    "syncing s = Some k \<Longrightarrow> k \<in> set (later s)" "\<not> destroyed s \<Longrightarrow> rooted (server s)"
    "destroyed s \<Longrightarrow> stopped (server s) \<and> capabilities s = 0 \<and> later s = [] \<and> syncing s = None"
  using assms by (auto simp: life_inv_def split: if_splits)

lemma stack_ok_same:
  assumes "stack_ok s" "stack (waiter t) = stack (waiter s)"
    "\<And>j. status s j \<in> {R_Taken, R_Exec} \<Longrightarrow> status t j \<in> {R_Taken, R_Exec}"
    "\<And>j. status s j = R_Done \<Longrightarrow> status t j = R_Done"
  shows "stack_ok t"
proof -
  have "status t k \<in> {R_Taken, R_Exec, R_Done}" if "status s k \<in> {R_Taken, R_Exec, R_Done}" for k
    using that assms(3,4) [of k] by auto
  then show ?thesis using assms(1,3) unfolding stack_ok_def assms(2) by blast
qed

lemma runs_tl: "set (runs (tl fs)) \<subseteq> set (runs fs)"
  by (cases fs; cases "hd fs") auto

text \<open>The innermost frame goes: a wait that is over or a function that has returned.\<close>

lemma stack_ok_pop:
  assumes "stack_ok s" "stack (waiter t) = tl (stack (waiter s))" "status t = status s"
  shows "stack_ok t"
proof -
  have "distinct (runs (tl fs))" if "distinct (runs fs)" for fs
    using that by (cases fs; cases "hd fs") auto
  moreover have "k \<in> set (runs (tl (stack (waiter s))))" if "tl (stack (waiter s)) = F_Run k # below" for k below
    using that by simp
  ultimately show ?thesis
    using assms(1) runs_tl [of "tl (stack (waiter s))"] unfolding stack_ok_def assms(2,3) by blast
qed

text \<open>A new innermost frame: a wait inside of a function that executes, or a function that was taken.\<close>

lemma stack_ok_wait:
  assumes "stack_ok s" "stack (waiter s) = F_Run k # below" "status s k = R_Exec"
    and "stack (waiter t) = F_Wait p # stack (waiter s)" "status t = status s"
  shows "stack_ok t"
  using assms by (simp add: stack_ok_def)

lemma stack_ok_take:
  assumes "stack_ok s" "stack (waiter s) = F_Wait p # below" "status s k = R_Posted"
    and "stack (waiter t) = F_Run k # stack (waiter s)" "status t = (status s)(k := R_Taken)"
  shows "stack_ok t"
proof -
  have "k \<notin> set (runs below)" using assms(1-3) by (auto simp: stack_ok_def)
  then show ?thesis using assms by (auto simp: stack_ok_def)
qed

lemma waiter_stack [simp]:
  "stack (set_done p w) = stack w" "sat (set_done p w) = insert p (sat w)"
  "stack (wait_call p w) = F_Wait p # stack w" "sat (wait_call p w) = sat w"
  "stack (fn_return w) = tl (stack w)" "sat (fn_return w) = sat w"
  by (simp_all add: set_done_def wait_call_def fn_return_def)

text \<open>One look of the thread: it takes a function, returns from its wait, or sleeps.\<close>

lemma lookE:
  assumes "in_wait (waiter s)"
  obtains (take) k p below where "m_fn (waiter s) = Some k" "stack (waiter s) = F_Wait p # below"
      "stack (waiter (thread_look s)) = F_Run k # stack (waiter s)" "status (thread_look s) = (status s)(k := R_Taken)"
      "sat (waiter (thread_look s)) = sat (waiter s)"
  | (leave) p below where "m_fn (waiter s) = None" "p \<in> sat (waiter s)" "stack (waiter s) = F_Wait p # below"
      "stack (waiter (thread_look s)) = below" "status (thread_look s) = status s"
      "sat (waiter (thread_look s)) = sat (waiter s)"
  | (sleep) "m_fn (waiter s) = None" "stack (waiter (thread_look s)) = stack (waiter s)" "status (thread_look s) = status s"
      "sat (waiter (thread_look s)) = sat (waiter s)"
proof -
  obtain p below where top: "stack (waiter s) = F_Wait p # below" using assms by (rule in_waitE)
  show ?thesis
  proof (cases "m_fn (waiter s)")
    case None
    then show ?thesis
      using leave sleep top by (cases "p \<in> sat (waiter s)") (simp_all add: thread_look_def wait_check_def)
  next
    case (Some k)
    then show ?thesis using take top by (simp add: thread_look_def wait_check_def)
  qed
qed

lemma posted_status: "thread_inv s \<Longrightarrow> m_fn (waiter s) = Some k \<Longrightarrow> status s k = R_Posted"
  using chainD(5) [of s k] by (simp add: thread_inv_def)

lemma queue_status:
  assumes "queue_step s t"
  shows "status s j = R_Done \<Longrightarrow> status t j = R_Done"
  using assms(1)
proof (cases rule: queue_step.cases)
  case (fire k)
  then show "status s j = R_Done \<Longrightarrow> status t j = R_Done"
    by (auto simp: ready_then_def split: prod.splits if_splits)
next
  case (drop k)
  then show "status s j = R_Done \<Longrightarrow> status t j = R_Done"
    by (cases "j = k"; cases "status s k") (simp_all add: promise_dropped_def ready_destroyed_def)
qed (auto simp: ready_destroyed_def ready_fulfill_def)

lemma queue_stack_ok:
  assumes "queue_step s t" "stack_ok s"
  shows "stack_ok t"
  using assms(1)
proof (cases rule: queue_step.cases)
  case (fire k)
  then show ?thesis
    by (intro stack_ok_same [OF assms(2)]) (auto simp: ready_then_def Waiter_post_def split: if_splits)
next
  case (drop k)
  then show ?thesis
    by (intro stack_ok_same [OF assms(2)]; cases "status s k") (auto simp: promise_dropped_def ready_destroyed_def)
next
  case (nested_wait p)
  then obtain k below where "stack (waiter s) = F_Run k # below" "status s k = R_Exec"
    by (auto simp: running_code_def split: list.splits frame.splits)
  then show ?thesis using nested_wait by (intro stack_ok_wait [OF assms(2)]) simp_all
qed (intro stack_ok_same [OF assms(2)]; auto simp: ready_destroyed_def ready_fulfill_def)+

lemma queue_rooted:
  assumes "queue_step s t" "rooted s"
  shows "rooted t"
proof -
  obtain fs where fs: "stack (waiter s) = fs @ [F_Wait 0]" "F_Wait 0 \<notin> set fs" "0 \<notin> sat (waiter s)"
    using assms(2) by (auto simp: rooted_def)
  show ?thesis
    using assms(1)
  proof (cases rule: queue_step.cases)
    case (fire k)
    then show ?thesis
      using assms(2) by (auto simp: rooted_def ready_then_def Waiter_post_def split: if_splits)
  next
    case (drop k)
    then show ?thesis
      using assms(2) by (cases "status s k") (simp_all add: rooted_def promise_dropped_def ready_destroyed_def)
  next
    case (nested_wait p)
    have "stack (waiter t) = (F_Wait p # fs) @ [F_Wait 0]" "F_Wait 0 \<notin> set (F_Wait p # fs)" "sat (waiter t) = sat (waiter s)"
      using nested_wait fs by simp_all
    then show ?thesis using fs(3) unfolding rooted_def by metis
  qed (use assms(2) in \<open>simp_all add: rooted_def ready_destroyed_def ready_fulfill_def\<close>)
qed

text \<open>Popping a frame that is not the outermost wait.\<close>

lemma rooted_pop:
  assumes "rooted s" "stack (waiter s) = f # below" "f \<noteq> F_Wait 0"
    and "stack (waiter t) = below" "sat (waiter t) = sat (waiter s)"
  shows "rooted t"
proof -
  obtain fs where fs: "f # below = fs @ [F_Wait 0]" "F_Wait 0 \<notin> set fs" "0 \<notin> sat (waiter s)"
    using assms(1,2) by (auto simp: rooted_def)
  then have "below = tl fs @ [F_Wait 0]" "F_Wait 0 \<notin> set (tl fs)" using assms(3) by (cases fs; auto)+
  then show ?thesis using fs(3) assms(4,5) unfolding rooted_def by metis
qed

section \<open>The worker's steps\<close>

lemma look_ok:
  assumes inv: "thread_inv s" and "stack_ok s" and wait: "in_wait (waiter s)" "\<not> asleep (waiter s)"
  shows "thread_inv (thread_look s)" "stack_ok (thread_look s)" "status s j = R_Done \<Longrightarrow> status (thread_look s) j = R_Done"
    "rooted s \<Longrightarrow> rooted (thread_look s)" "stopped s \<Longrightarrow> stopped (thread_look s)"
proof -
  show "thread_inv (thread_look s)" using thread_step_inv [OF thread_step.look inv] wait by blast
  show "stack_ok (thread_look s)"
    using wait(1)
  proof (cases rule: lookE)
    case (take k p below)
    then show ?thesis using stack_ok_take [OF assms(2) take(2) posted_status [OF inv take(1)]] by simp
  next
    case (leave p below)
    then show ?thesis using stack_ok_pop [OF assms(2)] by simp
  next
    case sleep
    then show ?thesis using stack_ok_same [OF assms(2)] by simp
  qed
  show "status (thread_look s) j = R_Done" if "status s j = R_Done"
    using that posted_status [OF inv, of j] by (auto simp: thread_look_def split: option.splits)
  show "rooted (thread_look s)" if r: "rooted s"
    using wait(1)
  proof (cases rule: lookE)
    case (take k p below)
    obtain fs where fs: "stack (waiter s) = fs @ [F_Wait 0]" "F_Wait 0 \<notin> set fs" "0 \<notin> sat (waiter s)"
      using r by (auto simp: rooted_def)
    then have "stack (waiter (thread_look s)) = (F_Run k # fs) @ [F_Wait 0]" "F_Wait 0 \<notin> set (F_Run k # fs)"
      using take by simp_all
    then show ?thesis using take fs(3) unfolding rooted_def by metis
  next
    case (leave p below)
    have "p \<noteq> 0" using r leave(2) by (cases "p = 0") (simp_all add: rooted_def)
    then show ?thesis using rooted_pop [OF r leave(3)] leave by simp
  next
    case sleep
    then show ?thesis using r by (simp add: rooted_def)
  qed
  show "stopped (thread_look s)" if st: "stopped s"
    using wait(1)
  proof (cases rule: lookE)
    case (take k p below)
    then show ?thesis using posted_status [OF inv take(1)] st by (auto simp: stopped_def) (metis req_status.distinct)+
  qed (use st in \<open>auto simp: stopped_def returning_def\<close>)
qed

lemma return_ok:
  assumes inv: "thread_inv s" and "stack_ok s" and top: "stack (waiter s) = F_Run k # below"
  shows "thread_inv (lambda_returned s)" "stack_ok (lambda_returned s)" "rooted s \<Longrightarrow> rooted (lambda_returned s)"
    "stopped s \<Longrightarrow> stopped (lambda_returned s)"
proof -
  show "thread_inv (lambda_returned s)" by (rule thread_inv_return [OF inv top])
  show "stack_ok (lambda_returned s)" by (rule stack_ok_pop [OF assms(2)]) (simp_all add: lambda_returned_def)
  show "rooted (lambda_returned s)" if "rooted s"
    by (rule rooted_pop [OF that top]) (simp_all add: lambda_returned_def top)
  show "stopped (lambda_returned s)" if "stopped s"
    using that top by (auto simp: stopped_def returning_def lambda_returned_def)
qed

lemma worker_step_inv:
  assumes "worker_step s t" "life_inv s"
  shows "life_inv t"
  using assms(1)
proof cases
  case look
  note ok = look_ok [OF life_invD(1,2) [OF assms(2)] look(2,3)]
  show ?thesis using assms(2) ok unfolding look(1) by (simp add: life_inv_def split: if_splits)
next
  case (return k below)
  note ok = return_ok [OF life_invD(1,2) [OF assms(2)] return(2)]
  show ?thesis
    using assms(2) ok unfolding return(1) by (simp add: life_inv_def lambda_returned_def split: if_splits)
qed

section \<open>The steps of the server object\<close>

text \<open>A thread without a request in progress has only to return; no function is in the slot of its waiter.\<close>

lemma idle_stack:
  assumes "thread_inv s" "stack_ok s" "rooted s" and idle: "\<And>k. status s k \<notin> {R_Queued, R_Posted, R_Taken, R_Exec}"
  shows "returning s" "m_fn (waiter s) = None"
proof -
  have none: "runs (tl (stack (waiter s))) = []"
    using assms(2) idle by (cases "runs (tl (stack (waiter s)))") (auto simp: stack_ok_def)
  obtain fs where fs: "stack (waiter s) = fs @ [F_Wait 0]" "F_Wait 0 \<notin> set fs" using assms(3) by (auto simp: rooted_def)
  have nested: "nested (stack (waiter s))" using assms(1) by (simp add: thread_inv_def waiter_inv_def)
  show "returning s"
  proof (cases fs)
    case Nil
    then show ?thesis using fs by (simp add: returning_def)
  next
    case (Cons f gs)
    then have gs: "runs (gs @ [F_Wait 0]) = []" "nested (f # gs @ [F_Wait 0])" using none nested fs by simp_all
    have "gs = []"
    proof (cases gs)
      case (Cons g hs)
      then show ?thesis using gs by (cases f; cases g; cases hs; cases "hd hs") auto
    qed
    moreover obtain k where "f = F_Run k" using gs(2) \<open>gs = []\<close> by (cases f) auto
    ultimately have top: "stack (waiter s) = [F_Run k, F_Wait 0]" using fs Cons by simp
    then have "status s k \<in> {R_Taken, R_Exec, R_Done}" using assms(2) by (simp add: stack_ok_def)
    then show ?thesis using top idle [of k] by (auto simp: returning_def)
  qed
  have "m_fn (waiter s) \<noteq> Some k" for k
    using idle [of k] posted_status [OF assms(1), of k] by auto
  then show "m_fn (waiter s) = None" by (cases "m_fn (waiter s)") auto
qed

lemma result_ok:
  assumes "stack_ok s" and top: "stack (waiter s) = F_Run k # below"
  shows "stack_ok (result_sent k s)" "rooted s \<Longrightarrow> rooted (result_sent k s)"
proof -
  have "k \<notin> set (runs below)" "distinct (runs below)" using assms(1) top by (simp_all add: stack_ok_def)
  then show "stack_ok (result_sent k s)"
    using assms(1) top by (auto simp: stack_ok_def result_sent_def)
  show "rooted (result_sent k s)" if "rooted s" using that by (simp add: rooted_def result_sent_def)
qed

lemma request_ok:
  assumes inv: "life_inv s" and caps: "0 < capabilities s"
  shows "life_inv (s\<lparr>server := ProxyServer_post (server s)\<rparr>)"
proof -
  let ?t = "ProxyServer_post (server s)"
  have new: "status (server s) (reqs (server s)) = R_None"
    using life_invD(1) [OF inv] chainD(4) [of "server s" "reqs (server s)"] by (simp add: thread_inv_def)
  have alive: "\<not> destroyed s" using caps life_invD(6) [OF inv] by auto
  have "stack_ok ?t" using new by (intro stack_ok_same [OF life_invD(2) [OF inv]]) (auto simp: ProxyServer_post_def)
  moreover have "rooted ?t" using life_invD(5) [OF inv alive] by (simp add: rooted_def ProxyServer_post_def)
  moreover have "\<forall>k \<in> set (later s). status ?t k = R_Done"
    using life_invD(3) [OF inv] new by (auto simp: ProxyServer_post_def)
  ultimately show ?thesis
    using inv alive thread_inv_request [OF life_invD(1) [OF inv]] by (simp add: life_inv_def)
qed

lemma send_result_ok:
  assumes inv: "life_inv s" and top: "stack (waiter (server s)) = F_Run k # below" "status (server s) k = R_Exec"
    and alive: "\<not> destroyed s"
  shows "life_inv (send_result k s)"
proof -
  note ok = result_ok [OF life_invD(2) [OF inv] top(1)]
  have "\<forall>j \<in> set (later s @ [k]). status (result_sent k (server s)) j = R_Done"
    using life_invD(3) [OF inv] by (simp add: result_sent_def)
  then show ?thesis
    using alive ok life_invD(5) [OF inv alive] thread_inv_result [OF life_invD(1) [OF inv] top(2)]
    by (simp add: life_inv_def send_result_def)
qed

text \<open>
  The destructor of a server that nothing holds: the event loop is in no \<open>sync\<close> of the thread, the assertion holds and
  the thread has only to return.
\<close>

lemma dtor_ok:
  assumes inv: "life_inv s" and "\<not> self_held s" "\<not> destroyed s"
  obtains t where "thread_server_dtor s = Some t" "life_inv t" "syncing s = None" "destroyed t" "syncing t = None"
proof -
  have idle: "status (server s) k \<notin> {R_Queued, R_Posted, R_Taken, R_Exec}" for k
    using assms(2) unfolding self_held_def by blast
  note stk = idle_stack [OF life_invD(1,2) [OF inv] life_invD(5) [OF inv assms(3)] idle]
  let ?u = "(server s)\<lparr>waiter := set_done 0 (waiter (server s))\<rparr>"
  let ?t = "s\<lparr>server := ?u, destroyed := True\<rparr>"
  have none: "capabilities s = 0" "later s = []" using assms(2) by (simp_all add: self_held_def)
  then have sync: "syncing s = None" using life_invD(4) [OF inv] by (cases "syncing s") auto
  have "thread_inv ?u" using thread_step_inv [OF thread_step.predicate life_invD(1) [OF inv]] .
  moreover have "stack_ok ?u" by (intro stack_ok_same [OF life_invD(2) [OF inv]]) simp_all
  moreover have "status (server s) k \<in> {R_None, R_Done, R_Dropped}" for k
    using idle [of k] by (cases "status (server s) k") simp_all
  then have "stopped ?u" using stk(1) by (simp add: stopped_def returning_def)
  ultimately have "life_inv ?t" using none sync by (simp add: life_inv_def)
  then show ?thesis using that [of ?t] stk(2) sync by (simp add: thread_server_dtor_def)
qed

lemma life_step_inv:
  assumes "life_step s t" "life_inv s"
  shows "life_inv t"
  using assms(1)
proof cases
  case request
  then show ?thesis using request_ok [OF assms(2)] by blast
next
  case (queue u)
  have "thread_inv u" using thread_step_inv [OF queue_thread_step [OF queue(2)] life_invD(1) [OF assms(2)]] .
  moreover have "stack_ok u" by (rule queue_stack_ok [OF queue(2) life_invD(2) [OF assms(2)]])
  moreover have "\<forall>k \<in> set (later s). status u k = R_Done"
    using life_invD(3) [OF assms(2)] queue_status [OF queue(2)] by blast
  moreover have "rooted u" using queue_rooted [OF queue(2)] life_invD(5) [OF assms(2) queue(4)] .
  ultimately show ?thesis using queue assms(2) by (simp add: life_inv_def)
next
  case (result k below)
  then show ?thesis using send_result_ok [OF assms(2)] by blast
next
  case exit_sync
  then show ?thesis using assms(2) by (simp add: life_inv_def sync_exit_def)
next
  case later
  then show ?thesis using assms(2) by (auto simp: life_inv_def self_dropped_def dest: list.set_sel(2))
next
  case destroy
  then show ?thesis using dtor_ok [OF assms(2) destroy(1,2)] by force
next
  case worker
  then show ?thesis using worker_step_inv assms(2) by blast
qed (use assms(2) in \<open>auto simp: life_inv_def split: if_splits\<close>)

lemma life_inv_start: "life_inv make_thread"
proof -
  have "thread_step new_thread (new_thread\<lparr>waiter := wait_call 0 new_waiter\<rparr>)"
    using thread_step.nested_wait [of new_thread 0] by (simp add: new_thread_def running_code_def new_waiter_def)
  then have "thread_inv (new_thread\<lparr>waiter := wait_call 0 new_waiter\<rparr>)"
    using thread_step_inv thread_inv_new by blast
  then show ?thesis
    by (simp add: life_inv_def make_thread_def stack_ok_def rooted_def new_waiter_def)
qed

interpretation thread_life: transition_invariant "\<lambda>s. s = make_thread" life_step life_inv
  by unfold_locales (use life_inv_start life_step_inv in auto)

section \<open>Properties\<close>

text \<open>The event loop leaves the \<open>sync\<close> it is in and runs the tasks.\<close>

lemma sync_exits:
  assumes "\<not> destroyed s"
  shows "\<exists>t. life_step\<^sup>*\<^sup>* s t \<and> syncing t = None \<and> server t = server s \<and> capabilities t = capabilities s \<and>
    \<not> destroyed t"
proof (cases "syncing s")
  case None
  then show ?thesis using assms by blast
next
  case (Some k)
  then have "life_step s (sync_exit s)" using assms by (intro life_step.exit_sync) simp_all
  then show ?thesis using assms by (intro exI [of _ "sync_exit s"]) (simp add: r_into_rtranclp sync_exit_def)
qed

lemma later_runs:
  assumes "syncing s = None"
  shows "\<exists>t. life_step\<^sup>*\<^sup>* s t \<and> later t = [] \<and> server t = server s \<and> capabilities t = capabilities s \<and>
    destroyed t = destroyed s"
  using assms
proof (induction "later s" arbitrary: s)
  case Nil
  then show ?case by (metis rtranclp.rtrancl_refl)
next
  case (Cons k ks)
  have step: "life_step s (self_dropped s)" using Cons.hyps(2) Cons.prems by (intro life_step.later) auto
  have "ks = later (self_dropped s)" "syncing (self_dropped s) = None"
    using Cons.hyps(2) [symmetric] Cons.prems by (simp_all add: self_dropped_def)
  from Cons.hyps(1) [OF this] obtain t where "life_step\<^sup>*\<^sup>* (self_dropped s) t" "later t = []"
    "server t = server (self_dropped s)" "capabilities t = capabilities (self_dropped s)"
    "destroyed t = destroyed (self_dropped s)" by blast
  then show ?case
    using converse_rtranclp_into_rtranclp [where r = life_step, OF step] by (intro exI [of _ t]) (simp add: self_dropped_def)
qed

text \<open>After the destructor the worker, which nothing holds up, returns from its wait.\<close>

lemma wait_left:
  assumes "life_inv s" "destroyed s" "stack (waiter (server s)) = [F_Wait 0]"
  shows "worker_step s (s\<lparr>server := thread_look (server s)\<rparr>)" "stack (waiter (thread_look (server s))) = []"
proof -
  have st: "stopped (server s)" using life_invD(6) [OF assms(1,2)] by simp
  have "\<not> asleep (waiter (server s))"
    using life_invD(1) [OF assms(1)] st assms(3) by (auto simp: thread_inv_def waiter_inv_def stopped_def)
  then show "worker_step s (s\<lparr>server := thread_look (server s)\<rparr>)"
    using assms(3) by (intro worker_step.look) (simp_all add: in_wait_def)
  have "status (server s) k \<noteq> R_Posted" for k
    using st unfolding stopped_def by (metis empty_iff insert_iff req_status.distinct)
  then have "m_fn (waiter (server s)) = None"
    using posted_status [OF life_invD(1) [OF assms(1)]] by (cases "m_fn (waiter (server s))") auto
  then show "stack (waiter (thread_look (server s))) = []"
    using st assms(3) by (simp add: thread_look_def wait_check_def stopped_def)
qed

lemma join_returns:
  assumes "life_inv s" "destroyed s"
  shows "\<exists>u. worker_step\<^sup>*\<^sup>* s u \<and> destroyed u \<and> stack (waiter (server u)) = []"
proof -
  have st: "stopped (server s)" "syncing s = None" using life_invD(6) [OF assms] by simp_all
  consider "stack (waiter (server s)) = []" | "stack (waiter (server s)) = [F_Wait 0]"
    | k where "stack (waiter (server s)) = [F_Run k, F_Wait 0]" "status (server s) k = R_Done"
    using st(1) by (auto simp: stopped_def returning_def)
  then show ?thesis
  proof cases
    case 1
    then show ?thesis using assms(2) by blast
  next
    case 2
    note left = wait_left [OF assms 2]
    show ?thesis
      using left assms(2) by (intro exI [of _ "s\<lparr>server := thread_look (server s)\<rparr>"]) (simp add: r_into_rtranclp)
  next
    case 3
    let ?t = "s\<lparr>server := lambda_returned (server s)\<rparr>"
    have step: "worker_step s ?t" using 3 st(2) by (intro worker_step.return) simp_all
    have "stack (waiter (server ?t)) = [F_Wait 0]" using 3(1) by (simp add: lambda_returned_def)
    note left = wait_left [OF worker_step_inv [OF step assms(1)] _ this]
    have "destroyed ?t" using assms(2) by simp
    then have "worker_step\<^sup>*\<^sup>* s (?t\<lparr>server := thread_look (server ?t)\<rparr>)"
      using rtranclp.rtrancl_into_rtrancl [OF r_into_rtranclp [where r = worker_step, OF step] left(1)] by blast
    then show ?thesis using left(2) assms(2) by (intro exI [of _ "?t\<lparr>server := thread_look (server ?t)\<rparr>"]) simp
  qed
qed

lemma worker_run: "worker_step\<^sup>*\<^sup>* s t \<Longrightarrow> life_step\<^sup>*\<^sup>* s t"
  by (rule rtranclp_mono [THEN predicate2D, of worker_step]) (auto intro: life_step.worker)

text \<open>
  C23. The server object of a worker thread is destroyed only when no client refers to it, no request is queued, posted
  or executed and no task holds it. The event loop is then not inside of the last \<open>sync\<close> of a request, and the
  assertion of the destructor that the waiter is idle holds. From there, and at any moment while the event loop waits in
  \<open>join\<close>, the worker can return from all it is in by steps of its own, so that \<open>join\<close> returns. Once no client
  refers to it and all requests are done, the server is destroyed and the thread ends.
\<close>

theorem worker_thread_ends:
  assumes "life_step\<^sup>*\<^sup>* make_thread s"
  shows "(destroyed s \<longrightarrow> \<not> self_held s \<and> (\<exists>u. worker_step\<^sup>*\<^sup>* s u \<and> stack (waiter (server u)) = [])) \<and>
    (\<not> self_held s \<and> \<not> destroyed s \<longrightarrow> syncing s = None \<and>
      (\<exists>t u. thread_server_dtor s = Some t \<and> worker_step\<^sup>*\<^sup>* t u \<and> stack (waiter (server u)) = [])) \<and>
    (\<not> destroyed s \<and> capabilities s = 0 \<and> (\<forall>k. status (server s) k \<in> {R_None, R_Done, R_Dropped}) \<longrightarrow>
      (\<exists>t. life_step\<^sup>*\<^sup>* s t \<and> destroyed t \<and> stack (waiter (server t)) = []))"
proof -
  have inv: "life_inv s" by (rule thread_life.reachable_inv [OF refl assms])
  have held: "\<not> self_held s" if "destroyed s"
  proof -
    have "stopped (server s)" "capabilities s = 0" "later s = []" using life_invD(6) [OF inv that] by simp_all
    moreover have "status (server s) k \<notin> {R_Queued, R_Posted, R_Taken, R_Exec}" if "stopped (server s)" for k
      using that by (auto simp: stopped_def) (metis req_status.distinct)+
    ultimately show ?thesis by (simp add: self_held_def)
  qed
  have "syncing s = None \<and> (\<exists>t u. thread_server_dtor s = Some t \<and> worker_step\<^sup>*\<^sup>* t u \<and> stack (waiter (server u)) = [])"
    if "\<not> self_held s" "\<not> destroyed s"
    by (rule dtor_ok [OF inv that]) (use join_returns in blast)
  moreover have "\<exists>t. life_step\<^sup>*\<^sup>* s t \<and> destroyed t \<and> stack (waiter (server t)) = []"
    if s: "\<not> destroyed s" "capabilities s = 0" and idle: "\<forall>k. status (server s) k \<in> {R_None, R_Done, R_Dropped}"
  proof -
    obtain v where v: "life_step\<^sup>*\<^sup>* s v" "syncing v = None" "server v = server s" "capabilities v = 0" "\<not> destroyed v"
      using sync_exits [OF s(1)] s(2) by auto
    obtain u where u: "life_step\<^sup>*\<^sup>* v u" "later u = []" "server u = server s" "capabilities u = 0" "\<not> destroyed u"
      using later_runs [OF v(2)] v(3-5) by auto
    have run: "life_step\<^sup>*\<^sup>* s u" using v(1) u(1) by (rule rtranclp_trans)
    have "status (server s) k \<notin> {R_Queued, R_Posted, R_Taken, R_Exec}" for k using spec [OF idle, of k] by auto
    then have free: "\<not> self_held u" using u by (simp add: self_held_def)
    obtain t where t: "thread_server_dtor u = Some t" "life_inv t" "destroyed t"
      by (rule dtor_ok [OF thread_life.run_inv [OF run inv] free u(5)])
    have "life_step u t" by (rule life_step.destroy [OF free u(5) t(1)])
    moreover obtain w where "worker_step\<^sup>*\<^sup>* t w" "destroyed w" "stack (waiter (server w)) = []"
      using join_returns [OF t(2,3)] by blast
    ultimately show ?thesis
      using rtranclp_trans [OF rtranclp.rtrancl_into_rtrancl [OF run] worker_run] by blast
  qed
  ultimately show ?thesis using held join_returns [OF inv] by blast
qed

text \<open>
  A thread that runs one request, is dropped by its client meanwhile, and whose event loop is inside of the last
  \<open>sync\<close> of the request.
\<close>

definition one_posted :: thread_life where
  "one_posted = make_thread\<lparr>server := (ProxyServer_post (server make_thread))\<lparr>
     waiter := \<lparr>m_fn = Some 0, stack = [F_Wait 0], asleep = False, sat = {}, posted = [0], started = []\<rparr>,
     status := (\<lambda>_. R_None)(0 := R_Posted)\<rparr>\<rparr>"

definition one_running :: thread_life where
  "one_running = one_posted\<lparr>server := ready_fulfill 0 (thread_look (server one_posted))\<rparr>"

definition last_sync :: thread_life where
  "last_sync = send_result 0 (one_running\<lparr>capabilities := 0\<rparr>)"

lemmas one_defs = one_posted_def one_running_def last_sync_def make_thread_def new_thread_def new_waiter_def wait_call_def
  wait_check_def thread_look_def ready_fulfill_def ProxyServer_post_def send_result_def result_sent_def

lemma last_sync_reached: "life_step\<^sup>*\<^sup>* make_thread last_sync"
proof -
  let ?a = "make_thread\<lparr>server := ProxyServer_post (server make_thread)\<rparr>"
  let ?b = "one_posted\<lparr>server := thread_look (server one_posted)\<rparr>"
  have "life_step make_thread ?a" by (rule life_step.request) (simp_all add: make_thread_def)
  moreover have "queue_step (server ?a) (server one_posted)"
    by (rule queue_step.fire [of _ 0])
      (simp_all add: one_defs m_thread_ready_def ready_then_def Waiter_post_def)
  then have "life_step ?a (?a\<lparr>server := server one_posted\<rparr>)" by (rule life_step.queue) (simp_all add: make_thread_def)
  moreover have "?a\<lparr>server := server one_posted\<rparr> = one_posted" by (simp add: one_posted_def)
  moreover have "life_step one_posted ?b"
    by (intro life_step.worker worker_step.look) (simp_all add: one_posted_def in_wait_def)
  moreover have "queue_step (server ?b) (server one_running)"
    unfolding one_running_def using queue_step.fulfill [of "server ?b" 0] by (simp add: one_defs)
  then have "life_step ?b (?b\<lparr>server := server one_running\<rparr>)"
    by (rule life_step.queue) (simp_all add: one_posted_def make_thread_def)
  moreover have "?b\<lparr>server := server one_running\<rparr> = one_running" by (simp add: one_running_def)
  moreover have "life_step one_running (one_running\<lparr>capabilities := 0\<rparr>)"
    using life_step.release [of one_running] by (simp add: one_running_def one_posted_def make_thread_def)
  moreover have "life_step (one_running\<lparr>capabilities := 0\<rparr>) last_sync"
    unfolding last_sync_def by (rule life_step.result [where below = "[F_Wait 0]"]) (simp_all add: one_defs)
  ultimately show ?thesis by (metis rtranclp.rtrancl_refl rtranclp.rtrancl_into_rtrancl)
qed

theorem worker_thread_ends_witness:
  "syncing last_sync = Some 0 \<and> (\<exists>t. life_step\<^sup>*\<^sup>* last_sync t \<and> destroyed t \<and> stack (waiter (server t)) = [])"
  using worker_thread_ends [OF last_sync_reached] by (simp add: one_defs)

end
