(* ===== verification/Request.thy ===== *)
theory Request
  imports Prelude
begin

text \<open>
  One request that executes on a worker thread and may be canceled meanwhile: the \<open>invoke\<close> lambda
  of \<open>PassField\<close> for \<open>Context\<close> arguments in \<open>include/mp/type-context.h\<close>, with \<open>ServerCall\<close> of
  \<open>include/mp/proxy-types.h\<close>. The event loop owns the messages with the parameters and results
  and frees them when the request is canceled; \<open>cancel_mutex\<close> and \<open>request_canceled\<close> keep the
  worker from using them after that.
\<close>

section \<open>State\<close>

text \<open>
  Where the worker stands: before the lambda; in the first \<open>loop.sync\<close>; at the test of
  \<open>request_canceled\<close>; reading parameters; in the method, with the lock released; taking the lock
  again; at the test in \<open>ServerCall\<close>; writing results; destroying the arguments it made for the
  method; releasing the lock; in the second \<open>loop.sync\<close>; done.
\<close>

datatype worker_pc =
    W_Start | W_Sync1 | W_Check | W_Read | W_Method | W_Relock | W_After | W_Write
  | W_Destroy | W_Unlock | W_Sync2 | W_Done

text \<open>
  Where the event loop stands: free to run events and synced functions; in \<open>on_cancel\<close>, waiting
  for \<open>cancel_mutex\<close>; in \<open>on_cancel\<close> with the mutex; about to free the messages.
\<close>

datatype cancel_pc = L_Free_to_run | L_Cancel | L_Canceling | L_Free_messages

datatype holder = Worker | Loop

text \<open>
  \<open>ran_method\<close> and \<open>used_freed\<close> record history: whether the method was called, and whether the
  worker touched a message after it was freed.
\<close>

record request =
  wpc :: worker_pc
  lpc :: cancel_pc
  cancel_mutex :: "holder option"
  m_canceled :: bool
  on_cancel_set :: bool
  request_canceled :: bool
  freed :: bool
  ran_method :: bool
  used_freed :: bool

definition new_request :: request where
  "new_request =
     \<lparr>wpc = W_Start, lpc = L_Free_to_run, cancel_mutex = None, m_canceled = False, on_cancel_set = False,
      request_canceled = False, freed = False, ran_method = False, used_freed = False\<rparr>"

section \<open>The worker\<close>

definition lock_cancel :: "request \<Rightarrow> request" where
  "lock_cancel s = s\<lparr>cancel_mutex := Some Worker, wpc := W_Sync1\<rparr>"

text \<open>The first \<open>loop.sync\<close>, run by the event loop.\<close>

definition sync_register :: "request \<Rightarrow> request" where
  "sync_register s =
     (if m_canceled s then s\<lparr>request_canceled := True, wpc := W_Check\<rparr>
      else s\<lparr>on_cancel_set := True, wpc := W_Check\<rparr>)"

definition check_canceled :: "request \<Rightarrow> request" where
  "check_canceled s = s\<lparr>wpc := (if request_canceled s then W_Unlock else W_Read)\<rparr>"

definition access :: "request \<Rightarrow> request" where
  "access s = s\<lparr>used_freed := used_freed s \<or> freed s\<rparr>"

text \<open>\<open>ServerCall::invoke\<close>: release the lock, call the method, take the lock, test.\<close>

definition call_method :: "request \<Rightarrow> request" where
  "call_method s = s\<lparr>cancel_mutex := None, ran_method := True, wpc := W_Method\<rparr>"

definition method_returned :: "request \<Rightarrow> request" where
  "method_returned s = s\<lparr>wpc := W_Relock\<rparr>"

definition relock :: "request \<Rightarrow> request" where
  "relock s = s\<lparr>cancel_mutex := Some Worker, wpc := W_After\<rparr>"

text \<open>
  The test throws \<open>InterruptException\<close> in a canceled request. It leaves the lambda with nothing
  written, unless a \<open>ServerExcept\<close> of the method catches it (\<open>catches\<close>: the method declares an
  exception type \<open>InterruptException\<close> derives from, \<open>std::exception\<close>), which then writes the
  exception to the results.
\<close>

definition interrupted :: "bool \<Rightarrow> request \<Rightarrow> request" where
  "interrupted catches s = s\<lparr>wpc := (if catches then W_Write else W_Destroy)\<rparr>"

definition after_method :: "bool \<Rightarrow> request \<Rightarrow> request" where
  "after_method catches s =
     (if request_canceled s then interrupted catches s else s\<lparr>wpc := W_Write\<rparr>)"

definition results_written :: "request \<Rightarrow> request" where
  "results_written s = s\<lparr>wpc := W_Destroy\<rparr>"

definition args_destroyed :: "request \<Rightarrow> request" where
  "args_destroyed s = s\<lparr>wpc := W_Unlock\<rparr>"

text \<open>The deferred part: release the lock, then the second \<open>loop.sync\<close>.\<close>

definition unlock_cancel :: "request \<Rightarrow> request" where
  "unlock_cancel s = s\<lparr>cancel_mutex := None, wpc := W_Sync2\<rparr>"

definition sync_unregister :: "request \<Rightarrow> request" where
  "sync_unregister s = s\<lparr>on_cancel_set := False, wpc := W_Done\<rparr>"

section \<open>The event loop\<close>

definition cancel :: "request \<Rightarrow> request" where
  "cancel s = s\<lparr>m_canceled := True, lpc := (if on_cancel_set s then L_Cancel else L_Free_messages)\<rparr>"

definition on_cancel_lock :: "request \<Rightarrow> request" where
  "on_cancel_lock s = s\<lparr>cancel_mutex := Some Loop, lpc := L_Canceling\<rparr>"

definition on_cancel_flag :: "request \<Rightarrow> request" where
  "on_cancel_flag s = s\<lparr>request_canceled := True, cancel_mutex := None, lpc := L_Free_messages\<rparr>"

definition free_messages :: "request \<Rightarrow> request" where
  "free_messages s = s\<lparr>freed := True, lpc := L_Free_to_run\<rparr>"

section \<open>Steps\<close>

text \<open>
  The parameter \<open>proxies\<close> says that the arguments made for the method include a proxy client
  that the method left in place, whose destructor calls \<open>loop->sync\<close>, the parameter \<open>catches\<close>
  that the method declares an exception type that \<open>InterruptException\<close> is caught as. A synced
  function needs the event loop to be free to run.
\<close>

inductive req_step :: "bool \<Rightarrow> bool \<Rightarrow> request \<Rightarrow> request \<Rightarrow> bool" for proxies catches where
  start: "wpc s = W_Start \<Longrightarrow> cancel_mutex s = None \<Longrightarrow> req_step proxies catches s (lock_cancel s)"
| sync1: "wpc s = W_Sync1 \<Longrightarrow> lpc s = L_Free_to_run \<Longrightarrow> req_step proxies catches s (sync_register s)"
| check: "wpc s = W_Check \<Longrightarrow> req_step proxies catches s (check_canceled s)"
| read: "wpc s = W_Read \<Longrightarrow> req_step proxies catches s (access s)"
| bad_param: "wpc s = W_Read \<Longrightarrow> req_step proxies catches s (results_written (access s))"
| call: "wpc s = W_Read \<Longrightarrow> req_step proxies catches s (call_method (access s))"
| returned: "wpc s = W_Method \<Longrightarrow> req_step proxies catches s (method_returned s)"
| relock: "wpc s = W_Relock \<Longrightarrow> cancel_mutex s = None \<Longrightarrow> req_step proxies catches s (relock s)"
| after: "wpc s = W_After \<Longrightarrow> req_step proxies catches s (after_method catches s)"
| results: "wpc s = W_Write \<Longrightarrow> req_step proxies catches s (results_written (access s))"
| args: "wpc s = W_Destroy \<Longrightarrow> proxies \<longrightarrow> lpc s = L_Free_to_run \<Longrightarrow>
    req_step proxies catches s (args_destroyed s)"
| unlock: "wpc s = W_Unlock \<Longrightarrow> req_step proxies catches s (unlock_cancel s)"
| sync2: "wpc s = W_Sync2 \<Longrightarrow> lpc s = L_Free_to_run \<Longrightarrow> req_step proxies catches s (sync_unregister s)"
| cancel: "lpc s = L_Free_to_run \<Longrightarrow> \<not> m_canceled s \<Longrightarrow> req_step proxies catches s (cancel s)"
| on_cancel: "lpc s = L_Cancel \<Longrightarrow> cancel_mutex s = None \<Longrightarrow> req_step proxies catches s (on_cancel_lock s)"
| flag: "lpc s = L_Canceling \<Longrightarrow> req_step proxies catches s (on_cancel_flag s)"
| free: "lpc s = L_Free_messages \<Longrightarrow> req_step proxies catches s (free_messages s)"

lemmas req_ops =
  lock_cancel_def sync_register_def check_canceled_def access_def call_method_def method_returned_def
  relock_def after_method_def interrupted_def results_written_def args_destroyed_def unlock_cancel_def
  sync_unregister_def cancel_def on_cancel_lock_def on_cancel_flag_def free_messages_def

section \<open>The invariant\<close>

fun holds_lock :: "worker_pc \<Rightarrow> bool" where
  "holds_lock W_Start = False" | "holds_lock W_Method = False" | "holds_lock W_Relock = False"
| "holds_lock W_Sync2 = False" | "holds_lock W_Done = False" | "holds_lock _ = True"

fun registered :: "worker_pc \<Rightarrow> bool" where
  "registered W_Start = False" | "registered W_Sync1 = False" | "registered W_Done = False"
| "registered _ = True"

definition request_inv :: "bool \<Rightarrow> request \<Rightarrow> bool" where
  "request_inv catches s \<longleftrightarrow>
     (holds_lock (wpc s) \<longleftrightarrow> cancel_mutex s = Some Worker) \<and>
     (lpc s = L_Canceling \<longleftrightarrow> cancel_mutex s = Some Loop) \<and>
     (on_cancel_set s \<longrightarrow> registered (wpc s)) \<and>
     (registered (wpc s) \<longrightarrow> on_cancel_set s \<or> request_canceled s) \<and>
     (lpc s \<in> {L_Cancel, L_Canceling} \<longrightarrow> on_cancel_set s \<and> \<not> request_canceled s) \<and>
     (lpc s \<noteq> L_Free_to_run \<longrightarrow> m_canceled s) \<and>
     (freed s \<longrightarrow> m_canceled s \<and> lpc s = L_Free_to_run) \<and>
     (request_canceled s \<longrightarrow> m_canceled s) \<and>
     (m_canceled s \<and> lpc s \<in> {L_Free_to_run, L_Free_messages} \<and> registered (wpc s) \<longrightarrow> request_canceled s) \<and>
     (wpc s = W_Read \<longrightarrow> \<not> request_canceled s) \<and>
     (wpc s \<in> {W_Method, W_Relock, W_After} \<longrightarrow> ran_method s) \<and>
     (wpc s = W_Write \<and> request_canceled s \<longrightarrow> catches \<and> ran_method s) \<and>
     (used_freed s \<longrightarrow> catches \<and> ran_method s \<and> m_canceled s)"

lemma request_inv_new: "request_inv c new_request"
  by (simp add: request_inv_def new_request_def)

lemma request_step_inv:
  assumes "req_step p c s t" "request_inv c s"
  shows "request_inv c t"
  using assms(1)
  by (cases rule: req_step.cases)
    (use assms(2) in \<open>cases "lpc s"; auto simp: request_inv_def req_ops\<close>)+

interpretation request: transition_invariant "\<lambda>s. s = new_request" "req_step p c" "request_inv c" for p c
  by unfold_locales (use request_inv_new request_step_inv in auto)

section \<open>Progress\<close>

text \<open>How far the worker and the loop are from having finished.\<close>

fun worker_rank :: "worker_pc \<Rightarrow> nat" where
  "worker_rank W_Start = 11" | "worker_rank W_Sync1 = 10" | "worker_rank W_Check = 9"
| "worker_rank W_Read = 8" | "worker_rank W_Method = 7" | "worker_rank W_Relock = 6"
| "worker_rank W_After = 5" | "worker_rank W_Write = 4" | "worker_rank W_Destroy = 3"
| "worker_rank W_Unlock = 2" | "worker_rank W_Sync2 = 1" | "worker_rank W_Done = 0"

fun loop_rank :: "cancel_pc \<Rightarrow> nat" where
  "loop_rank L_Cancel = 3" | "loop_rank L_Canceling = 2" | "loop_rank L_Free_messages = 1"
| "loop_rank L_Free_to_run = 0"

definition rank :: "request \<Rightarrow> nat" where
  "rank s = worker_rank (wpc s) + loop_rank (lpc s)"

lemma mutex_free:
  "request_inv c s \<Longrightarrow> \<not> holds_lock (wpc s) \<Longrightarrow> lpc s \<noteq> L_Canceling \<Longrightarrow> cancel_mutex s = None"
  by (cases "cancel_mutex s"; cases "the (cancel_mutex s)") (auto simp: request_inv_def)

text \<open>The worker has a step when it holds the lock past its registration, or when the loop is free.\<close>

lemma worker_step:
  assumes "request_inv c s" "wpc s \<noteq> W_Done"
    and "lpc s = L_Free_to_run \<or> holds_lock (wpc s) \<and> registered (wpc s)"
  shows "\<exists>t. req_step False c s t \<and> rank t < rank s"
proof (cases "wpc s")
  case W_Start
  then have "cancel_mutex s = None" using assms mutex_free [of c s] by auto
  then show ?thesis using W_Start req_step.start [of s False c]
    by (intro exI [of _ "lock_cancel s"]) (simp add: rank_def lock_cancel_def)
next
  case W_Sync1
  then show ?thesis using assms(3) req_step.sync1 [of s False c]
    by (intro exI [of _ "sync_register s"]) (simp add: rank_def sync_register_def)
next
  case W_Check
  then show ?thesis using req_step.check [of s False c]
    by (intro exI [of _ "check_canceled s"]) (simp add: rank_def check_canceled_def)
next
  case W_Read
  then show ?thesis using req_step.call [of s False c]
    by (intro exI [of _ "call_method (access s)"]) (simp add: rank_def call_method_def access_def)
next
  case W_Method
  then show ?thesis using req_step.returned [of s False c]
    by (intro exI [of _ "method_returned s"]) (simp add: rank_def method_returned_def)
next
  case W_Relock
  then have "cancel_mutex s = None" using assms mutex_free [of c s] by auto
  then show ?thesis using W_Relock req_step.relock [of s False c]
    by (intro exI [of _ "relock s"]) (simp add: rank_def relock_def)
next
  case W_After
  then show ?thesis using req_step.after [of s False c]
    by (intro exI [of _ "after_method c s"]) (simp add: rank_def after_method_def interrupted_def)
next
  case W_Write
  then show ?thesis using req_step.results [of s False c]
    by (intro exI [of _ "results_written (access s)"]) (simp add: rank_def results_written_def access_def)
next
  case W_Destroy
  then show ?thesis using req_step.args [of s False c]
    by (intro exI [of _ "args_destroyed s"]) (simp add: rank_def args_destroyed_def)
next
  case W_Unlock
  then show ?thesis using req_step.unlock [of s False c]
    by (intro exI [of _ "unlock_cancel s"]) (simp add: rank_def unlock_cancel_def)
next
  case W_Sync2
  then show ?thesis using assms(3) req_step.sync2 [of s False c]
    by (intro exI [of _ "sync_unregister s"]) (simp add: rank_def sync_unregister_def)
next
  case W_Done
  then show ?thesis using assms(2) by simp
qed

lemma some_step:
  assumes "request_inv c s" "wpc s \<noteq> W_Done \<or> lpc s \<noteq> L_Free_to_run"
  shows "\<exists>t. req_step False c s t \<and> rank t < rank s"
proof (cases "lpc s")
  case L_Free_to_run
  then show ?thesis using worker_step [OF assms(1)] assms(2) by simp
next
  case L_Canceling
  then show ?thesis using req_step.flag [of s False c]
    by (intro exI [of _ "on_cancel_flag s"]) (simp add: rank_def on_cancel_flag_def)
next
  case L_Free_messages
  then show ?thesis using req_step.free [of s False c]
    by (intro exI [of _ "free_messages s"]) (simp add: rank_def free_messages_def)
next
  case L_Cancel
  show ?thesis
  proof (cases "holds_lock (wpc s)")
    case True
    have "registered (wpc s)" using assms(1) L_Cancel by (simp add: request_inv_def)
    moreover have "wpc s \<noteq> W_Done" using True by auto
    ultimately show ?thesis using worker_step [OF assms(1)] True by simp
  next
    case False
    then have "cancel_mutex s = None" using mutex_free [OF assms(1)] L_Cancel by simp
    then show ?thesis using L_Cancel req_step.on_cancel [of s False c]
      by (intro exI [of _ "on_cancel_lock s"]) (simp add: rank_def on_cancel_lock_def)
  qed
qed

section \<open>Properties\<close>

text \<open>A concrete run of a request whose arguments include a proxy client, canceled as it writes.\<close>

definition stuck_request :: request where
  "stuck_request =
     \<lparr>wpc = W_Destroy, lpc = L_Cancel, cancel_mutex = Some Worker, m_canceled = True, on_cancel_set = True,
      request_canceled = False, freed = False, ran_method = True, used_freed = False\<rparr>"

lemma stuck_request_reached: "(req_step True c)\<^sup>*\<^sup>* new_request stuck_request"
proof -
  define a where "a = lock_cancel new_request"
  define b where "b = sync_register a"
  define e where "e = call_method (access (check_canceled b))"
  define d where "d = cancel (relock (method_returned e))"
  note defs = d_def e_def b_def a_def new_request_def req_ops
  have s1: "req_step True c new_request a"
    unfolding a_def by (rule req_step.start) (simp_all add: new_request_def)
  have s2: "req_step True c a b"
    unfolding b_def by (rule req_step.sync1) (simp_all add: a_def lock_cancel_def new_request_def)
  have s3: "req_step True c b (check_canceled b)"
    by (rule req_step.check) (simp add: b_def a_def sync_register_def lock_cancel_def new_request_def)
  have s4: "req_step True c (check_canceled b) e"
    unfolding e_def by (rule req_step.call)
      (simp add: check_canceled_def b_def a_def sync_register_def lock_cancel_def new_request_def)
  have s5: "req_step True c e (method_returned e)"
    by (rule req_step.returned) (simp add: e_def call_method_def)
  have s6: "req_step True c (method_returned e) (relock (method_returned e))"
    by (rule req_step.relock) (simp_all add: e_def call_method_def method_returned_def)
  have s7: "req_step True c (relock (method_returned e)) d"
    unfolding d_def by (rule req_step.cancel) (simp_all add: defs)
  have s8: "req_step True c d (after_method c d)"
    by (rule req_step.after) (simp add: defs)
  have s9: "req_step True c (after_method c d) (results_written (access (after_method c d)))"
    by (rule req_step.results) (simp add: defs)
  have eq: "results_written (access (after_method c d)) = stuck_request"
    by (simp add: defs stuck_request_def)
  note into = rtranclp.rtrancl_into_rtrancl
  have "(req_step True c)\<^sup>*\<^sup>* new_request d"
    using into [OF into [OF into [OF into [OF into [OF into [OF r_into_rtranclp [of "req_step True c", OF s1] s2] s3] s4] s5] s6] s7] .
  from into [OF into [OF this s8] s9] show ?thesis
    unfolding eq .
qed

text \<open>C8. The worker never reads the parameters of a request after the event loop has freed them,
  whenever the request is canceled, and it uses its results after that in one case only: the
  method ran, the request was canceled, and the method declares an exception type that catches
  \<open>InterruptException\<close>. For every other method no message is ever used after it was freed.\<close>

theorem canceled_messages_unused:
  assumes "(req_step proxies catches)\<^sup>*\<^sup>* new_request s"
  shows "(wpc s = W_Read \<longrightarrow> \<not> freed s) \<and>
    (used_freed s \<or> (wpc s = W_Write \<and> freed s) \<longrightarrow> catches \<and> ran_method s \<and> m_canceled s)"
  using request.reachable_inv [OF refl assms] by (auto simp: request_inv_def)

theorem canceled_messages_unused_witness: "\<not> used_freed stuck_request"
  using canceled_messages_unused [OF stuck_request_reached [of False]] by simp

text \<open>That case does occur: whenever the method of such a request runs, uncanceled so far, the
  event loop can cancel the request and free its messages, and the worker then writes to them.\<close>

theorem caught_interrupt_uses_freed:
  assumes "(req_step proxies True)\<^sup>*\<^sup>* new_request s" "wpc s = W_Method" "\<not> m_canceled s"
  shows "\<exists>t. (req_step proxies True)\<^sup>*\<^sup>* s t \<and> used_freed t"
proof -
  have inv: "request_inv True s" using request.reachable_inv [OF refl assms(1)] .
  have st: "lpc s = L_Free_to_run" "on_cancel_set s" "cancel_mutex s = None"
    using inv assms(2,3) mutex_free [OF inv] by (auto simp: request_inv_def)
  let ?a = "on_cancel_flag (on_cancel_lock (cancel s))"
  let ?b = "relock (method_returned (free_messages ?a))"
  have "req_step proxies True s (cancel s)"
    by (rule req_step.cancel) (simp_all add: st assms(3))
  moreover have "req_step proxies True (cancel s) (on_cancel_lock (cancel s))"
    by (rule req_step.on_cancel) (simp_all add: cancel_def st)
  moreover have "req_step proxies True (on_cancel_lock (cancel s)) ?a"
    by (rule req_step.flag) (simp add: on_cancel_lock_def)
  moreover have "req_step proxies True ?a (free_messages ?a)"
    by (rule req_step.free) (simp add: on_cancel_flag_def)
  moreover have "req_step proxies True (free_messages ?a) (method_returned (free_messages ?a))"
    by (rule req_step.returned) (simp add: req_ops assms(2))
  moreover have "req_step proxies True (method_returned (free_messages ?a)) ?b"
    by (rule req_step.relock) (simp_all add: req_ops)
  moreover have "req_step proxies True ?b (after_method True ?b)"
    by (rule req_step.after) (simp add: req_ops)
  moreover have "req_step proxies True (after_method True ?b) (results_written (access (after_method True ?b)))"
    by (rule req_step.results) (simp add: req_ops)
  ultimately have "(req_step proxies True)\<^sup>*\<^sup>* s (results_written (access (after_method True ?b)))"
    by (meson converse_rtranclp_into_rtranclp rtranclp.rtrancl_refl)
  moreover have "used_freed (results_written (access (after_method True ?b)))"
    by (simp add: req_ops)
  ultimately show ?thesis by blast
qed

definition running_request :: request where
  "running_request =
     call_method (access (check_canceled (sync_register (lock_cancel new_request))))"

theorem caught_interrupt_uses_freed_witness:
  "\<exists>t. (req_step True True)\<^sup>*\<^sup>* running_request t \<and> used_freed t"
proof -
  let ?b = "sync_register (lock_cancel new_request)"
  have "req_step True True new_request (lock_cancel new_request)"
    by (rule req_step.start) (simp_all add: new_request_def)
  moreover have "req_step True True (lock_cancel new_request) ?b"
    by (rule req_step.sync1) (simp_all add: lock_cancel_def new_request_def)
  moreover have "req_step True True ?b (check_canceled ?b)"
    by (rule req_step.check) (simp add: req_ops new_request_def)
  moreover have "req_step True True (check_canceled ?b) running_request"
    unfolding running_request_def by (rule req_step.call) (simp add: req_ops new_request_def)
  ultimately have "(req_step True True)\<^sup>*\<^sup>* new_request running_request"
    by (meson converse_rtranclp_into_rtranclp rtranclp.rtrancl_refl)
  then show ?thesis
    by (rule caught_interrupt_uses_freed)
      (simp_all add: running_request_def req_ops new_request_def)
qed

lemma not_run_step:
  assumes "req_step p c s t"
    and "m_canceled s \<and> \<not> ran_method s \<and> (wpc s = W_Check \<longrightarrow> request_canceled s) \<and>
      wpc s \<in> {W_Start, W_Sync1, W_Check, W_Unlock, W_Sync2, W_Done}"
  shows "m_canceled t \<and> \<not> ran_method t \<and> (wpc t = W_Check \<longrightarrow> request_canceled t) \<and>
      wpc t \<in> {W_Start, W_Sync1, W_Check, W_Unlock, W_Sync2, W_Done}"
  using assms by (cases rule: req_step.cases) (auto simp: req_ops)

text \<open>A request canceled before its worker has registered for cancellation never runs the
  method.\<close>

theorem canceled_early_not_run:
  assumes "(req_step p c)\<^sup>*\<^sup>* s t" "wpc s \<in> {W_Start, W_Sync1}" "m_canceled s" "\<not> ran_method s"
  shows "\<not> ran_method t"
proof -
  have "m_canceled t \<and> \<not> ran_method t \<and> (wpc t = W_Check \<longrightarrow> request_canceled t) \<and>
      wpc t \<in> {W_Start, W_Sync1, W_Check, W_Unlock, W_Sync2, W_Done}"
    using assms(1)
  proof (induction rule: rtranclp_induct)
    case base then show ?case using assms(2-4) by auto
  next
    case (step u v) from step.hyps(2) step.IH show ?case by (rule not_run_step)
  qed
  then show ?thesis by simp
qed

theorem canceled_early_not_run_witness:
  "\<not> ran_method (free_messages (cancel new_request))"
proof -
  have "req_step False False (cancel new_request) (free_messages (cancel new_request))"
    by (rule req_step.free) (simp add: cancel_def new_request_def)
  then have "(req_step False False)\<^sup>*\<^sup>* (cancel new_request) (free_messages (cancel new_request))"
    by (rule r_into_rtranclp)
  then show ?thesis
    by (rule canceled_early_not_run) (simp_all add: cancel_def new_request_def)
qed

text \<open>C25. Cancellation and execution cannot block each other as long as destroying the arguments
  needs no help of the event loop: from every reachable state the request can run to its end.\<close>

theorem request_can_finish:
  assumes "(req_step False c)\<^sup>*\<^sup>* new_request s"
  shows "\<exists>t. (req_step False c)\<^sup>*\<^sup>* s t \<and> wpc t = W_Done \<and> lpc t = L_Free_to_run"
  using request.reachable_inv [OF refl assms]
proof (induction "rank s" arbitrary: s rule: less_induct)
  case less
  show ?case
  proof (cases "wpc s = W_Done \<and> lpc s = L_Free_to_run")
    case True then show ?thesis by blast
  next
    case False
    then obtain t where t: "req_step False c s t" "rank t < rank s"
      using some_step [OF less.prems] by auto
    then show ?thesis
      using less.hyps [OF t(2) request_step_inv [OF t(1) less.prems]]
      by (meson converse_rtranclp_into_rtranclp)
  qed
qed

theorem request_can_finish_witness:
  "\<exists>t. (req_step False True)\<^sup>*\<^sup>* new_request t \<and> wpc t = W_Done"
  using request_can_finish [OF rtranclp.rtrancl_refl] by blast

text \<open>C40. If they do need it, they can: when a request is canceled after the worker has taken the
  lock again and before it has destroyed an argument that is a proxy client, the destructor waits
  for the event loop, which waits in \<open>on_cancel\<close> for the lock. No step is possible any more.\<close>

theorem cancel_deadlock:
  "(req_step True c)\<^sup>*\<^sup>* new_request stuck_request \<and> \<not> (\<exists>t. req_step True c stuck_request t)"
proof
  show "(req_step True c)\<^sup>*\<^sup>* new_request stuck_request" by (rule stuck_request_reached)
  show "\<not> (\<exists>t. req_step True c stuck_request t)"
    by (auto simp: stuck_request_def elim: req_step.cases)
qed

end
