(* ===== verification/Cleanup.thy ===== *)
theory Cleanup
  imports Prelude
begin

text \<open>
  \<open>CleanupRun\<close> of \<open>include/mp/proxy.h\<close>, and the destruction of the implementation behind a
  \<open>ProxyServerBase\<close> (\<open>include/mp/proxy-io.h\<close>).
\<close>

section \<open>CleanupRun\<close>

text \<open>
  The list is part of the state \<open>'s\<close> that the functions themselves act on: \<open>get\<close> and \<open>put\<close> read
  and write it. A function that keeps adding functions makes the loop run for ever, so the result
  is an option.
\<close>

partial_function (option) CleanupRun ::
  "('s \<Rightarrow> 'f list) \<Rightarrow> ('f list \<Rightarrow> 's \<Rightarrow> 's) \<Rightarrow> ('f \<Rightarrow> 's \<Rightarrow> ('e + unit) \<times> 's) \<Rightarrow> 's \<Rightarrow>
   (('e + unit) \<times> 's) option" where
  "CleanupRun get put run s =
     (case get s of
        [] \<Rightarrow> Some (Inr (), s)
      | fn # fns \<Rightarrow>
          (case run fn (put fns s) of
             (Inl e, s') \<Rightarrow> Some (Inl e, s')
           | (Inr _, s') \<Rightarrow> CleanupRun get put run s'))"

text \<open>The reference: the functions applied one after the other, up to the first that throws.\<close>

fun run_all :: "('f \<Rightarrow> 's \<Rightarrow> ('e + unit) \<times> 's) \<Rightarrow> 'f list \<Rightarrow> 's \<Rightarrow> ('e + unit) \<times> 'f list \<times> 's" where
  "run_all run [] s = (Inr (), [], s)"
| "run_all run (fn # fns) s =
     (case run fn s of
        (Inl e, s') \<Rightarrow> (Inl e, fns, s')
      | (Inr _, s') \<Rightarrow> run_all run fns s')"

text \<open>
  Functions that leave the list alone: \<open>get\<close> and \<open>put\<close> are a field of the state, and running a
  function neither depends on it nor changes it.
\<close>

locale own_list =
  fixes get :: "'s \<Rightarrow> 'f list"
    and put :: "'f list \<Rightarrow> 's \<Rightarrow> 's"
    and run :: "'f \<Rightarrow> 's \<Rightarrow> ('e + unit) \<times> 's"
  assumes get_put: "get (put fns s) = fns"
    and put_get: "put (get s) s = s"
    and put_put: "put fns (put fns' s) = put fns s"
    and run_put: "run fn (put fns s) = (case run fn s of (r, s') \<Rightarrow> (r, put fns s'))"
begin

lemma run_get: "run fn s = (r, s') \<Longrightarrow> get s' = get s"
  using run_put [of fn "get s" s] get_put [of "get s" s'] by (simp add: put_get)

lemma CleanupRun_run_all:
  "CleanupRun get put run s =
     Some (case run_all run (get s) s of (r, fns, s') \<Rightarrow> (r, put fns s'))"
proof (induction "get s" arbitrary: s)
  case Nil
  have "put [] s = s" using put_get [of s] Nil by simp
  then show ?case
    using Nil by (subst CleanupRun.simps) (simp add: Nil [symmetric])
next
  case (Cons fn fns)
  obtain r s' where r: "run fn s = (r, s')" by (cases "run fn s")
  have run: "run fn (put fns s) = (r, put fns s')"
    using run_put [of fn fns s] r by simp
  show ?case
  proof (cases r)
    case (Inl e)
    then show ?thesis
      using Cons.hyps(2) r run by (subst CleanupRun.simps) (simp add: Cons.hyps(2) [symmetric])
  next
    case (Inr u)
    have other: "run_all run fs (put gs t) =
        (case run_all run fs t of (r, rest, t') \<Rightarrow> (r, rest, put gs t'))" for fs gs t
    proof (induction fs arbitrary: t)
      case (Cons f fs)
      show ?case
        using run_put [of f gs t] Cons.IH by (auto split: prod.splits sum.splits)
    qed simp
    have "CleanupRun get put run s = CleanupRun get put run (put fns s')"
      using Cons.hyps(2) run Inr by (subst CleanupRun.simps) (simp add: Cons.hyps(2) [symmetric])
    also have "\<dots> = Some (case run_all run fns (put fns s') of (r, fns, s') \<Rightarrow> (r, put fns s'))"
      using Cons.hyps(1) [of "put fns s'"] by (simp add: get_put)
    finally show ?thesis
      using r Inr Cons.hyps(2) other by (auto simp: Cons.hyps(2) [symmetric] put_put split: prod.splits)
  qed
qed

end

text \<open>Functions over a state kept beside the list: the cleanup functions of a proxy object.\<close>

record ('f, 's) cleanup_state =
  cleanup_fns :: "'f list"
  rest :: 's

definition run_beside ::
  "('f \<Rightarrow> 's \<Rightarrow> ('e + unit) \<times> 's) \<Rightarrow> 'f \<Rightarrow> ('f, 's) cleanup_state \<Rightarrow> ('e + unit) \<times> ('f, 's) cleanup_state" where
  "run_beside run fn s = (case run fn (rest s) of (r, s') \<Rightarrow> (r, s\<lparr>rest := s'\<rparr>))"

definition put_fns :: "'f list \<Rightarrow> ('f, 's) cleanup_state \<Rightarrow> ('f, 's) cleanup_state" where
  "put_fns fns s = s\<lparr>cleanup_fns := fns\<rparr>"

interpretation proxy_cleanup: own_list cleanup_fns put_fns "run_beside run" for run
  by unfold_locales (simp_all add: put_fns_def run_beside_def split: prod.splits)

section \<open>Destroying an implementation\<close>

text \<open>
  \<open>m_impl\<close> is whether the server object still holds its implementation, \<open>reset\<close> what the
  destructor of the implementation does to the rest of the program.
\<close>

record 'f proxy_server =
  m_impl :: bool
  server_fns :: "'f list"

definition invokeDestroy ::
  "('s \<Rightarrow> 's) \<Rightarrow> ('f \<Rightarrow> 's \<Rightarrow> ('e + unit) \<times> 's) \<Rightarrow> 'f proxy_server \<Rightarrow> 's \<Rightarrow>
   (('e + unit) \<times> 'f proxy_server \<times> 's) option" where
  "invokeDestroy reset run p s =
     map_option (\<lambda>(r, t). (r, p\<lparr>m_impl := False, server_fns := cleanup_fns t\<rparr>, rest t))
       (CleanupRun cleanup_fns put_fns (run_beside run)
          \<lparr>cleanup_fns = server_fns p, rest = if m_impl p then reset s else s\<rparr>)"

text \<open>
  The destructor moves the implementation and its functions into a job for the asynchronous
  thread, when there is an implementation; \<open>None\<close> is its failed assertion.
\<close>

definition ProxyServerBase_dtor :: "'f proxy_server \<Rightarrow> 'f list option option" where
  "ProxyServerBase_dtor p =
     (let (job, fns) = (if m_impl p then (Some (server_fns p), []) else (None, server_fns p))
      in if fns = [] then Some job else None)"

definition async_destroy ::
  "('s \<Rightarrow> 's) \<Rightarrow> ('f \<Rightarrow> 's \<Rightarrow> ('e + unit) \<times> 's) \<Rightarrow> 'f list \<Rightarrow> 's \<Rightarrow> (('e + unit) \<times> 's) option" where
  "async_destroy reset run fns s =
     map_option (\<lambda>(r, t). (r, rest t))
       (CleanupRun cleanup_fns put_fns (run_beside run) \<lparr>cleanup_fns = fns, rest = reset s\<rparr>)"

lemma run_all_beside:
  "run_all (run_beside run) fns t = (case run_all run fns (rest t) of (r, left, s) \<Rightarrow> (r, left, t\<lparr>rest := s\<rparr>))"
  by (induction run fns "rest t" arbitrary: t rule: run_all.induct)
    (auto simp: run_beside_def split: prod.splits sum.splits)

lemma CleanupRun_beside:
  "CleanupRun cleanup_fns put_fns (run_beside run) \<lparr>cleanup_fns = fns, rest = s\<rparr> =
     Some (case run_all run fns s of (r, left, s') \<Rightarrow> (r, \<lparr>cleanup_fns = left, rest = s'\<rparr>))"
  by (simp add: proxy_cleanup.CleanupRun_run_all run_all_beside put_fns_def split: prod.splits)

lemma run_all_Inr: "run_all run fns s = (Inr u, left, s') \<Longrightarrow> left = []"
  by (induction run fns s rule: run_all.induct) (auto split: prod.splits sum.splits)

text \<open>
  C29. Destroying an implementation runs its destructor first, then its cleanup functions one
  after the other up to the first that throws, always returns, and does the same whether a
  \<open>destroy\<close> call does it at once or the destructor of the server object hands it to the
  asynchronous thread. A \<open>destroy\<close> call that succeeds leaves nothing for the destructor; one in
  which a cleanup function throws leaves the functions that were not reached, and when there are
  any, the assertion at the end of the destructor fails.
\<close>

theorem impl_destroyed_once:
  assumes "m_impl p" and "run_all run (server_fns p) (reset s) = (r, left, s')"
  shows "invokeDestroy reset run p s = Some (r, p\<lparr>m_impl := False, server_fns := left\<rparr>, s') \<and>
    ProxyServerBase_dtor p = Some (Some (server_fns p)) \<and>
    async_destroy reset run (server_fns p) s = Some (r, s') \<and>
    (r = Inr () \<longrightarrow> ProxyServerBase_dtor (p\<lparr>m_impl := False, server_fns := left\<rparr>) = Some None) \<and>
    (left \<noteq> [] \<longrightarrow> ProxyServerBase_dtor (p\<lparr>m_impl := False, server_fns := left\<rparr>) = None)"
  using assms run_all_Inr [of run "server_fns p" "reset s" "()" left s']
  by (auto simp: invokeDestroy_def ProxyServerBase_dtor_def async_destroy_def CleanupRun_beside)

theorem impl_destroyed_once_witness:
  "invokeDestroy (\<lambda>s. s @ [0]) (\<lambda>f s. if f = 2 then (Inl ''no'', s) else (Inr (), s @ [f]))
     \<lparr>m_impl = True, server_fns = [1, 2, 3::nat]\<rparr> [] = Some (Inl ''no'', \<lparr>m_impl = False, server_fns = [3]\<rparr>, [0, 1]) \<and>
   ProxyServerBase_dtor \<lparr>m_impl = False, server_fns = [3::nat]\<rparr> = None"
  using impl_destroyed_once [of "\<lparr>m_impl = True, server_fns = [1, 2, 3::nat]\<rparr>"
      "\<lambda>f s. if f = 2 then (Inl ''no'', s) else (Inr (), s @ [f])" "\<lambda>s. s @ [0]" "[]" "Inl ''no''" "[3]" "[0, 1]"]
  by simp

end
