(* ===== verification/Clients.thy ===== *)
theory Clients
  imports Cleanup
begin

text \<open>
  Clients and their connection: the disconnect callbacks of a connection, registered and removed by the
  constructors and destructors of \<open>ProxyClientBase\<close> (\<open>include/mp/proxy-io.h\<close>) and of \<open>ProxyClient<Thread>\<close>,
  and run by \<open>~Connection\<close> (\<open>src/mp/proxy.cpp\<close>).
\<close>

section \<open>Clients and their connection\<close>

text \<open>
  The callbacks of a connection: of a \<open>ProxyClientBase\<close>, and of a \<open>ProxyClient<Thread>\<close>, which has
  both. An iterator into the list is valid while its callback is in it.
\<close>

datatype callback = CB_Client nat | CB_Thread nat

text \<open>
  \<open>connection\<close> is \<open>m_context.connection\<close>, \<open>cap\<close> whether \<open>m_client\<close> still holds the capability,
  \<open>disconnect_cb\<close> whether \<open>m_disconnect_cb\<close> is set, which only clients in a \<open>ConnThreads\<close> map have.
\<close>

record client =
  connection :: "nat option"
  cap :: bool
  destroy_connection :: bool
  disconnect_cb :: bool

text \<open>
  \<open>leaving\<close> are the thread clients in whose destructor a thread that ends waits for the event loop. To destroy
  one of them again is a fault.
\<close>

record net =
  conns :: "nat \<rightharpoonup> callback list"
  clients :: "nat \<rightharpoonup> client"
  leaving :: "nat set"

datatype fault = Bad_iterator | Use_after_free | No_connection | Destroyed_twice

definition addSyncCleanup :: "callback \<Rightarrow> nat \<Rightarrow> net \<Rightarrow> fault + net" where
  "addSyncCleanup cb c w =
     (case conns w c of
        None \<Rightarrow> Inl No_connection
      | Some fns \<Rightarrow> Inr (w\<lparr>conns := (conns w)(c \<mapsto> cb # fns)\<rparr>))"

definition removeSyncCleanup :: "callback \<Rightarrow> nat \<Rightarrow> net \<Rightarrow> fault + net" where
  "removeSyncCleanup cb c w =
     (case conns w c of
        None \<Rightarrow> Inl Use_after_free
      | Some fns \<Rightarrow>
          if cb \<in> set fns then Inr (w\<lparr>conns := (conns w)(c \<mapsto> remove1 cb fns)\<rparr>)
          else Inl Bad_iterator)"

definition ProxyClientBase_ctor :: "nat \<Rightarrow> nat \<Rightarrow> bool \<Rightarrow> net \<Rightarrow> fault + net" where
  "ProxyClientBase_ctor i c destroy w =
     bind_res (addSyncCleanup (CB_Client i) c w) (\<lambda>w.
     Inr (w\<lparr>clients := (clients w)(i \<mapsto>
            \<lparr>connection = Some c, cap = True, destroy_connection = destroy, disconnect_cb = False\<rparr>)\<rparr>))"

text \<open>
  The constructor when the call of \<open>construct\<close> at its end throws: the object is gone, its destructor
  does not run, and the functions it left in \<open>cleanup_fns\<close> are destroyed without being called.
\<close>

definition ProxyClientBase_ctor_throws :: "nat \<Rightarrow> nat \<Rightarrow> net \<Rightarrow> fault + net" where
  "ProxyClientBase_ctor_throws i c w =
     bind_res (ProxyClientBase_ctor i c False w) (\<lambda>w. Inr (w\<lparr>clients := (clients w)(i := None)\<rparr>))"

text \<open>\<open>SetThread\<close> makes the thread client of a connection and registers its second callback.\<close>

definition SetThread_new :: "nat \<Rightarrow> nat \<Rightarrow> net \<Rightarrow> fault + net" where
  "SetThread_new i c w =
     bind_res (ProxyClientBase_ctor i c False w) (\<lambda>w.
     bind_res (addSyncCleanup (CB_Thread i) c w) (\<lambda>w.
     case clients w i of
       None \<Rightarrow> Inl Use_after_free
     | Some cl \<Rightarrow> Inr (w\<lparr>clients := (clients w)(i \<mapsto> cl\<lparr>disconnect_cb := True\<rparr>)\<rparr>)))"

text \<open>The function that \<open>ProxyClientBase\<close> leaves in \<open>cleanup_fns\<close>, up to \<open>destroy_connection\<close>.\<close>

definition client_cleanup :: "nat \<Rightarrow> net \<Rightarrow> fault + net" where
  "client_cleanup i w =
     (case clients w i of
        None \<Rightarrow> Inl Use_after_free
      | Some cl \<Rightarrow>
          bind_res
            (case connection cl of None \<Rightarrow> Inr w | Some c \<Rightarrow> removeSyncCleanup (CB_Client i) c w) (\<lambda>w.
          Inr (w\<lparr>clients := (clients w)(i \<mapsto> cl\<lparr>cap := False\<rparr>)\<rparr>)))"

definition free_client :: "nat \<Rightarrow> net \<Rightarrow> net" where
  "free_client i w = w\<lparr>clients := (clients w)(i := None)\<rparr>"

text \<open>
  The two disconnect callbacks. The one of \<open>SetThread\<close> resets \<open>m_disconnect_cb\<close> and erases the map
  entry, which destroys the thread client: its own destructor then does nothing, and the one of
  its base removes the other callback.
\<close>

definition client_disconnected :: "nat \<Rightarrow> net \<Rightarrow> fault + net" where
  "client_disconnected i w =
     (case clients w i of
        None \<Rightarrow> Inl Use_after_free
      | Some cl \<Rightarrow> Inr (w\<lparr>clients := (clients w)(i \<mapsto> cl\<lparr>cap := False, connection := None\<rparr>)\<rparr>))"

definition thread_disconnected :: "nat \<Rightarrow> net \<Rightarrow> fault + net" where
  "thread_disconnected i w =
     (case clients w i of
        None \<Rightarrow> Inl Use_after_free
      | Some cl \<Rightarrow>
          if i \<in> leaving w then Inl Destroyed_twice
          else
            bind_res (client_cleanup i (w\<lparr>clients := (clients w)(i \<mapsto> cl\<lparr>disconnect_cb := False\<rparr>)\<rparr>)) (\<lambda>w.
            Inr (free_client i w)))"

fun run_callback :: "callback \<Rightarrow> net \<Rightarrow> fault + net" where
  "run_callback (CB_Client i) w = client_disconnected i w"
| "run_callback (CB_Thread i) w = thread_disconnected i w"

text \<open>The loop of \<open>~Connection\<close>: the front callback is spliced out of the list, then run.\<close>

partial_function (option) sync_cleanup :: "nat \<Rightarrow> net \<Rightarrow> (fault + net) option" where
  "sync_cleanup c w =
     (case conns w c of
        None \<Rightarrow> Some (Inl Use_after_free)
      | Some [] \<Rightarrow> Some (Inr (w\<lparr>conns := (conns w)(c := None)\<rparr>))
      | Some (cb # fns) \<Rightarrow>
          (case run_callback cb (w\<lparr>conns := (conns w)(c \<mapsto> fns)\<rparr>) of
             Inl e \<Rightarrow> Some (Inl e)
           | Inr w' \<Rightarrow> sync_cleanup c w'))"

definition Connection_dtor :: "nat \<Rightarrow> net \<Rightarrow> (fault + net) option" where
  "Connection_dtor c w = sync_cleanup c w"

text \<open>
  Destructors. A client whose connection is gone only drops what is left of it; one made with
  \<open>destroy_connection\<close> deletes the connection.
\<close>

definition ProxyClientBase_dtor :: "nat \<Rightarrow> net \<Rightarrow> (fault + net) option" where
  "ProxyClientBase_dtor i w =
     (case clients w i of
        None \<Rightarrow> Some (Inl Use_after_free)
      | Some cl \<Rightarrow>
          (case client_cleanup i w of
             Inl e \<Rightarrow> Some (Inl e)
           | Inr w1 \<Rightarrow>
               (case (if destroy_connection cl then connection cl else None) of
                  None \<Rightarrow> Some (Inr (free_client i w1))
                | Some c \<Rightarrow>
                    (case Connection_dtor c w1 of
                       None \<Rightarrow> None
                     | Some (Inl e) \<Rightarrow> Some (Inl e)
                     | Some (Inr w2) \<Rightarrow> Some (Inr (free_client i w2))))))"

text \<open>
  The function that the destructor of a thread client gives to the event loop; the destructor of its base follows. On the
  event loop thread the two are one event. A thread that ends destroys the clients in its maps itself and waits
  for the event loop in both, so other events can come between.
\<close>

definition thread_cleanup :: "nat \<Rightarrow> net \<Rightarrow> fault + net" where
  "thread_cleanup i w =
     (case clients w i of
        None \<Rightarrow> Inl Use_after_free
      | Some cl \<Rightarrow>
          bind_res
            (if disconnect_cb cl
             then (case connection cl of
                     None \<Rightarrow> Inl No_connection
                   | Some c \<Rightarrow> removeSyncCleanup (CB_Thread i) c w)
             else Inr w) (\<lambda>w.
          Inr (w\<lparr>clients := (clients w)(i \<mapsto> cl\<lparr>disconnect_cb := False\<rparr>)\<rparr>)))"

definition ProxyClientThread_dtor :: "nat \<Rightarrow> net \<Rightarrow> (fault + net) option" where
  "ProxyClientThread_dtor i w =
     (case thread_cleanup i w of
        Inl e \<Rightarrow> Some (Inl e)
      | Inr w1 \<Rightarrow> ProxyClientBase_dtor i w1)"

definition thread_leaves :: "nat \<Rightarrow> net \<Rightarrow> net" where
  "thread_leaves i w = w\<lparr>leaving := insert i (leaving w)\<rparr>"

definition thread_left :: "nat \<Rightarrow> net \<Rightarrow> fault + net" where
  "thread_left i w = bind_res (thread_cleanup i w) (\<lambda>w. Inr (w\<lparr>leaving := leaving w - {i}\<rparr>))"

section \<open>The callbacks and the clients agree\<close>

text \<open>In a list, the callback of a thread client comes before the one of its base.\<close>

fun ordered :: "callback list \<Rightarrow> bool" where
  "ordered [] = True"
| "ordered (CB_Thread i # fns) = (CB_Client i \<in> set fns \<and> ordered fns)"
| "ordered (CB_Client i # fns) = (CB_Thread i \<notin> set fns \<and> ordered fns)"

definition connected :: "net \<Rightarrow> nat \<Rightarrow> nat \<Rightarrow> bool" where
  "connected w i c \<longleftrightarrow> (\<exists>cl. clients w i = Some cl \<and> connection cl = Some c)"

definition threaded :: "net \<Rightarrow> nat \<Rightarrow> bool" where
  "threaded w i \<longleftrightarrow> (\<exists>cl. clients w i = Some cl \<and> disconnect_cb cl)"

definition callbacks_ok :: "net \<Rightarrow> nat \<Rightarrow> callback list \<Rightarrow> bool" where
  "callbacks_ok w c fns \<longleftrightarrow>
     distinct fns \<and> ordered fns \<and>
     (\<forall>i. CB_Client i \<in> set fns \<longleftrightarrow> connected w i c) \<and>
     (\<forall>i. CB_Thread i \<in> set fns \<longleftrightarrow> connected w i c \<and> threaded w i)"

definition client_ok :: "net \<Rightarrow> client \<Rightarrow> bool" where
  "client_ok w cl \<longleftrightarrow>
     (case connection cl of None \<Rightarrow> True | Some c \<Rightarrow> conns w c \<noteq> None) \<and>
     (cap cl \<longleftrightarrow> connection cl \<noteq> None) \<and>
     (disconnect_cb cl \<longrightarrow> connection cl \<noteq> None \<and> \<not> destroy_connection cl)"

definition net_inv :: "net \<Rightarrow> bool" where
  "net_inv w \<longleftrightarrow>
     (\<forall>c fns. conns w c = Some fns \<longrightarrow> callbacks_ok w c fns) \<and>
     (\<forall>i cl. clients w i = Some cl \<longrightarrow> client_ok w cl) \<and> (\<forall>i \<in> leaving w. threaded w i)"

lemma net_invD:
  assumes "net_inv w"
  shows "conns w c = Some fns \<Longrightarrow> callbacks_ok w c fns" "clients w i = Some cl \<Longrightarrow> client_ok w cl"
    "i \<in> leaving w \<Longrightarrow> threaded w i"
  using assms by (auto simp: net_inv_def)

lemma connected_upd [simp]:
  "connected (w\<lparr>conns := x\<rparr>) i c = connected w i c"
  "threaded (w\<lparr>conns := x\<rparr>) i = threaded w i"
  "connected (w\<lparr>leaving := l\<rparr>) i c = connected w i c"
  "threaded (w\<lparr>leaving := l\<rparr>) i = threaded w i"
  by (simp_all add: connected_def threaded_def)

lemma callbacks_ok_conns [simp]:
  "callbacks_ok (w\<lparr>conns := x\<rparr>) c fns = callbacks_ok w c fns" "callbacks_ok (w\<lparr>leaving := l\<rparr>) c fns = callbacks_ok w c fns"
  "client_ok (w\<lparr>leaving := l\<rparr>) cl = client_ok w cl"
  by (simp_all add: callbacks_ok_def client_ok_def split: option.split)

text \<open>A change of one client matters to the connections it is and was connected to.\<close>

lemma callbacks_ok_other:
  assumes "callbacks_ok w c fns" "\<not> connected w i c" "\<not> connected w' i c"
    and "\<And>j. j \<noteq> i \<Longrightarrow> clients w' j = clients w j"
  shows "callbacks_ok w' c fns"
proof -
  have "connected w' j c = connected w j c \<and> (connected w j c \<longrightarrow> threaded w' j = threaded w j)" for j
    using assms(2-4) by (cases "j = i") (auto simp: connected_def threaded_def)
  then show ?thesis using assms(1) unfolding callbacks_ok_def by blast
qed

lemma ordered_remove1: "ordered fns \<Longrightarrow> CB_Thread i \<notin> set fns \<Longrightarrow> ordered (remove1 (CB_Client i) fns)"
proof (induction fns rule: ordered.induct)
  case (2 j fns) then show ?case by (auto simp: in_set_remove1)
next
  case (3 j fns) then show ?case by (auto dest: notin_set_remove1)
qed simp

lemma ordered_remove1_thread: "ordered fns \<Longrightarrow> ordered (remove1 (CB_Thread i) fns)"
proof (induction fns rule: ordered.induct)
  case (2 j fns) then show ?case by (auto simp: in_set_remove1)
next
  case (3 j fns) then show ?case by (auto dest: notin_set_remove1)
qed simp

lemma client_cbD: "callbacks_ok w c fns \<Longrightarrow> CB_Client i \<in> set fns \<Longrightarrow> connected w i c"
  by (simp add: callbacks_ok_def)

lemma thread_cbD: "callbacks_ok w c fns \<Longrightarrow> CB_Thread i \<in> set fns \<Longrightarrow> connected w i c \<and> threaded w i"
  by (simp add: callbacks_ok_def)

lemma net_invI:
  assumes "\<And>c fns. conns w c = Some fns \<Longrightarrow> callbacks_ok w c fns"
    and "\<And>i cl. clients w i = Some cl \<Longrightarrow> client_ok w cl"
    and "\<And>i. i \<in> leaving w \<Longrightarrow> threaded w i"
  shows "net_inv w"
  using assms by (auto simp: net_inv_def)

lemma connected_unique: "connected w i c \<Longrightarrow> connected w i d \<Longrightarrow> c = d"
  by (auto simp: connected_def)

text \<open>Taking the callback of a client out of its list and disconnecting the client.\<close>

lemma drop_client:
  assumes "net_inv w" "conns w c = Some fns" "CB_Client i \<in> set fns" "CB_Thread i \<notin> set fns"
    and cl: "clients w i = Some cl"
    and w': "w' = w\<lparr>conns := (conns w)(c \<mapsto> remove1 (CB_Client i) fns), clients := (clients w)(i := x)\<rparr>"
    and x: "x = None \<or> x = Some (cl\<lparr>cap := False, connection := None\<rparr>)"
  shows "net_inv w'"
proof (rule net_invI)
  note ok = net_invD(1) [OF assms(1,2)]
  have con: "connected w i c" using ok assms(3) by (simp add: callbacks_ok_def)
  have thr: "\<not> disconnect_cb cl"
    using ok assms(4) con cl by (auto simp: callbacks_ok_def threaded_def)
  have not: "\<not> connected w' i d" for d
    using x by (auto simp: connected_def w')
  fix d gs assume d: "conns w' d = Some gs"
  show "callbacks_ok w' d gs"
  proof (cases "d = c")
    case False
    then have "conns w d = Some gs" using d by (simp add: w')
    moreover have "\<not> connected w i d" using connected_unique [OF con] False by blast
    ultimately show ?thesis
      using not by (intro callbacks_ok_other [OF net_invD(1) [OF assms(1)]]) (auto simp: w')
  next
    case True
    then have gs: "gs = remove1 (CB_Client i) fns" using d by (simp add: w')
    have other: "connected w' j c = connected w j c" "threaded w' j = threaded w j" if "j \<noteq> i" for j
      using that by (simp_all add: connected_def threaded_def w')
    have dist: "distinct fns" "ordered fns"
      using ok by (simp_all add: callbacks_ok_def)
    have "CB_Client j \<in> set gs \<longleftrightarrow> connected w' j c" for j
      using ok other [of j] not [of c] dist by (cases "j = i") (simp_all add: gs callbacks_ok_def)
    moreover have "CB_Thread j \<in> set gs \<longleftrightarrow> connected w' j c \<and> threaded w' j" for j
      using ok other [of j] not [of c] dist assms(4)
      by (cases "j = i") (simp_all add: gs callbacks_ok_def)
    ultimately show ?thesis
      using dist ordered_remove1 [OF dist(2) assms(4)] unfolding True callbacks_ok_def by (simp add: gs)
  qed
next
  fix j dl assume j: "clients w' j = Some dl"
  show "client_ok w' dl"
  proof (cases "j = i")
    case True
    have "client_ok w cl" using net_invD(2) [OF assms(1) cl] .
    moreover have "\<not> disconnect_cb cl"
      using net_invD(1) [OF assms(1,2)] assms(3,4) cl by (auto simp: callbacks_ok_def threaded_def)
    ultimately show ?thesis using True j x by (auto simp: w' client_ok_def)
  next
    case False
    then have "client_ok w dl" using net_invD(2) [OF assms(1)] j by (simp add: w')
    then show ?thesis by (auto simp: client_ok_def w' split: option.splits)
  qed
next
  fix j assume "j \<in> leaving w'"
  then have "threaded w j" using net_invD(3) [OF assms(1)] by (simp add: w')
  moreover have "\<not> threaded w i" using net_invD(1) [OF assms(1,2)] assms(3,4) by (auto simp: callbacks_ok_def)
  ultimately show "threaded w' j" by (cases "j = i") (simp_all add: threaded_def w')
qed

text \<open>Taking out the callback of a thread client.\<close>

lemma drop_thread:
  assumes "net_inv w" "conns w c = Some fns" "CB_Thread i \<in> set fns" "clients w i = Some cl"
    and w': "w' = w\<lparr>conns := (conns w)(c \<mapsto> remove1 (CB_Thread i) fns),
      clients := (clients w)(i \<mapsto> cl\<lparr>disconnect_cb := False\<rparr>), leaving := leaving w - {i}\<rparr>"
  shows "net_inv w'"
proof (rule net_invI)
  note ok = net_invD(1) [OF assms(1,2)]
  have con: "connected w i c" using ok assms(3) by (simp add: callbacks_ok_def)
  have same: "connected w' j d = connected w j d" for j d
    using assms(4) by (simp add: connected_def w')
  have thr: "threaded w' j \<longleftrightarrow> threaded w j \<and> j \<noteq> i" for j
    by (simp add: threaded_def w')
  fix d gs assume d: "conns w' d = Some gs"
  show "callbacks_ok w' d gs"
  proof (cases "d = c")
    case False
    then have "conns w d = Some gs" using d by (simp add: w')
    then have "callbacks_ok w d gs" by (rule net_invD(1) [OF assms(1)])
    moreover have "\<not> connected w i d" using connected_unique [OF con] False by blast
    ultimately show ?thesis unfolding callbacks_ok_def same thr by blast
  next
    case True
    then have gs: "gs = remove1 (CB_Thread i) fns" using d by (simp add: w')
    have "distinct fns" "ordered fns" using ok by (simp_all add: callbacks_ok_def)
    then show ?thesis
      using ok ordered_remove1_thread [of fns i] unfolding True gs callbacks_ok_def same thr by auto
  qed
next
  fix j dl assume j: "clients w' j = Some dl"
  have "client_ok w (if j = i then cl else dl)"
    using j assms(4) net_invD(2) [OF assms(1)] by (auto simp: w' split: if_splits)
  then show "client_ok w' dl"
    using j by (auto simp: client_ok_def w' split: option.splits if_splits)
next
  fix j assume "j \<in> leaving w'"
  then show "threaded w' j" using net_invD(3) [OF assms(1), of j] by (simp add: w' threaded_def)
qed

section \<open>The destructor of a connection\<close>

text \<open>
  An object that has no callback any more does not matter to the loop: \<open>ghost\<close> adds one.
\<close>

definition ghost :: "(nat \<times> client) option \<Rightarrow> net \<Rightarrow> net" where
  "ghost g w = (case g of None \<Rightarrow> w | Some (i, x) \<Rightarrow> w\<lparr>clients := (clients w)(i \<mapsto> x)\<rparr>)"

definition ghost_ok :: "(nat \<times> client) option \<Rightarrow> net \<Rightarrow> bool" where
  "ghost_ok g w \<longleftrightarrow> (case g of None \<Rightarrow> True | Some (i, x) \<Rightarrow> clients w i = None)"

lemma ghost_conns [simp]: "conns (ghost g w) = conns w" "leaving (ghost g w) = leaving w"
  by (simp_all add: ghost_def split: option.splits prod.splits)

text \<open>What the loop does to the clients.\<close>

definition disconnected :: "nat \<Rightarrow> client \<Rightarrow> client option" where
  "disconnected c cl =
     (if connection cl \<noteq> Some c then Some cl
      else if disconnect_cb cl then None
      else Some (cl\<lparr>cap := False, connection := None\<rparr>))"

definition closed :: "nat \<Rightarrow> net \<Rightarrow> net" where
  "closed c w =
     w\<lparr>conns := (conns w)(c := None), clients := (\<lambda>i. Option.bind (clients w i) (disconnected c))\<rparr>"

text \<open>Nothing but the client \<open>i\<close> changes.\<close>

definition keeps :: "nat \<Rightarrow> net \<Rightarrow> net \<Rightarrow> bool" where
  "keeps i w w' \<longleftrightarrow> leaving w' = leaving w \<and> (\<forall>j. j \<noteq> i \<longrightarrow> clients w' j = clients w j) \<and> (\<forall>c. \<not> connected w' i c)"

definition quiet :: "net \<Rightarrow> nat \<Rightarrow> bool" where
  "quiet w c \<longleftrightarrow> (\<forall>i \<in> leaving w. \<not> connected w i c)"

lemma keeps_connected: "keeps i w w' \<Longrightarrow> connected w' j c \<longleftrightarrow> j \<noteq> i \<and> connected w j c"
  by (cases "j = i") (auto simp: keeps_def connected_def)

lemma keeps_quiet: "keeps i w w' \<Longrightarrow> quiet w c \<Longrightarrow> quiet w' c"
  by (auto simp: quiet_def keeps_connected) (simp add: keeps_def)

lemma front_client:
  assumes "net_inv w" "conns w c = Some (CB_Client i # fns)" "ghost_ok g w"
  shows "\<exists>w'. run_callback (CB_Client i) ((ghost g w)\<lparr>conns := (conns w)(c \<mapsto> fns)\<rparr>) = Inr (ghost g w') \<and>
    net_inv w' \<and> ghost_ok g w' \<and> conns w' c = Some fns \<and> closed c w' = closed c w \<and> keeps i w w'"
proof -
  note ok = net_invD(1) [OF assms(1,2)]
  obtain cl where cl: "clients w i = Some cl" "connection cl = Some c"
    using ok by (auto simp: callbacks_ok_def connected_def)
  have thr: "\<not> disconnect_cb cl"
    using ok cl by (auto simp: callbacks_ok_def connected_def threaded_def)
  let ?w = "w\<lparr>conns := (conns w)(c \<mapsto> fns), clients := (clients w)(i \<mapsto> cl\<lparr>cap := False, connection := None\<rparr>)\<rparr>"
  have gi: "\<And>j x. g = Some (j, x) \<Longrightarrow> j \<noteq> i"
    using assms(3) cl by (auto simp: ghost_ok_def)
  have "run_callback (CB_Client i) ((ghost g w)\<lparr>conns := (conns w)(c \<mapsto> fns)\<rparr>) = Inr (ghost g ?w)"
    using cl gi by (cases g) (auto simp: ghost_def client_disconnected_def fun_upd_twist)
  moreover have "net_inv ?w"
    using ok by (intro drop_client [OF assms(1,2) _ _ cl(1)]) (auto simp: callbacks_ok_def)
  moreover have "ghost_ok g ?w"
    using assms(3) gi by (cases g) (auto simp: ghost_ok_def)
  moreover have "closed c ?w = closed c w"
    using cl thr by (auto simp: closed_def disconnected_def fun_eq_iff)
  moreover have "keeps i w ?w" by (simp add: keeps_def connected_def)
  ultimately show ?thesis by auto
qed

lemma front_thread:
  assumes "net_inv w" "conns w c = Some (CB_Thread i # fns)" "ghost_ok g w" "i \<notin> leaving w"
  shows "\<exists>w' gs. run_callback (CB_Thread i) ((ghost g w)\<lparr>conns := (conns w)(c \<mapsto> fns)\<rparr>) = Inr (ghost g w') \<and>
    net_inv w' \<and> ghost_ok g w' \<and> conns w' c = Some gs \<and> length gs \<le> length fns \<and> closed c w' = closed c w \<and> keeps i w w'"
proof -
  note ok = net_invD(1) [OF assms(1,2)]
  have "connected w i c \<and> threaded w i" by (rule thread_cbD [OF ok]) simp
  then obtain cl where cl: "clients w i = Some cl" "connection cl = Some c" "disconnect_cb cl"
    by (auto simp: connected_def threaded_def)
  have "distinct (CB_Thread i # fns)" "ordered (CB_Thread i # fns)"
    using ok unfolding callbacks_ok_def by blast+
  then have front: "CB_Client i \<in> set fns" "CB_Thread i \<notin> set fns" by simp_all
  let ?v = "w\<lparr>conns := (conns w)(c \<mapsto> fns), clients := (clients w)(i \<mapsto> cl\<lparr>disconnect_cb := False\<rparr>)\<rparr>"
  let ?w = "w\<lparr>conns := (conns w)(c \<mapsto> remove1 (CB_Client i) fns), clients := (clients w)(i := None)\<rparr>"
  have gi: "\<And>j x. g = Some (j, x) \<Longrightarrow> j \<noteq> i"
    using assms(3) cl by (auto simp: ghost_ok_def)
  have "run_callback (CB_Thread i) ((ghost g w)\<lparr>conns := (conns w)(c \<mapsto> fns)\<rparr>) = Inr (ghost g ?w)"
    using cl gi front assms(4)
    by (cases g) (auto simp: ghost_def thread_disconnected_def client_cleanup_def removeSyncCleanup_def
        free_client_def fun_upd_twist)
  moreover have v: "net_inv ?v"
    by (rule drop_thread [OF assms(1,2) _ cl(1)]) (use assms(4) in auto)
  have "net_inv ?w"
    using front by (intro drop_client [OF v, of c fns i "cl\<lparr>disconnect_cb := False\<rparr>" _ None]) simp_all
  moreover have "ghost_ok g ?w"
    using assms(3) by (cases g) (auto simp: ghost_ok_def)
  moreover have "closed c ?w = closed c w"
    using cl by (auto simp: closed_def disconnected_def fun_eq_iff)
  moreover have "length (remove1 (CB_Client i) fns) \<le> length fns"
    by (simp add: length_remove1)
  moreover have "keeps i w ?w" by (simp add: keeps_def connected_def)
  ultimately show ?thesis by auto
qed

lemma closed_empty:
  assumes inv: "net_inv w" and c: "conns w c = Some []"
  shows "closed c w = w\<lparr>conns := (conns w)(c := None)\<rparr>" "net_inv (closed c w)"
proof -
  have none: "\<not> connected w i c" for i
    using net_invD(1) [OF inv c] by (simp add: callbacks_ok_def)
  have "Option.bind (clients w i) (disconnected c) = clients w i" for i
    using none [of i] by (cases "clients w i") (auto simp: disconnected_def connected_def)
  then show closed: "closed c w = w\<lparr>conns := (conns w)(c := None)\<rparr>"
    by (simp add: closed_def)
  show "net_inv (closed c w)"
  proof (rule net_invI)
    show "callbacks_ok (closed c w) d gs" if "conns (closed c w) d = Some gs" for d gs
      using that net_invD(1) [OF inv, of d gs] by (simp add: closed split: if_splits)
    show "client_ok (closed c w) cl" if "clients (closed c w) i = Some cl" for i cl
    proof -
      have "client_ok w cl" "connection cl \<noteq> Some c"
        using that net_invD(2) [OF inv, of i cl] none [of i] by (auto simp: closed connected_def)
      then show ?thesis by (auto simp: closed client_ok_def split: option.splits)
    qed
    show "threaded (closed c w) i" if "i \<in> leaving (closed c w)" for i
      using that net_invD(3) [OF inv] by (simp add: closed)
  qed
qed

text \<open>One callback, which does not meet a thread that leaves.\<close>

lemma front_callback:
  assumes inv: "net_inv w" and fns: "conns w c = Some (cb # fns)" and g: "ghost_ok g w"
    and ok: "\<And>i. cb = CB_Thread i \<Longrightarrow> i \<notin> leaving w"
  obtains w' gs i where "sync_cleanup c (ghost g w) = sync_cleanup c (ghost g w')" "net_inv w'" "ghost_ok g w'"
    "conns w' c = Some gs" "length gs \<le> length fns" "closed c w' = closed c w" "keeps i w w'"
    "cb = CB_Client i \<or> cb = CB_Thread i"
proof (cases cb)
  case (CB_Client i)
  obtain w' where w': "run_callback cb ((ghost g w)\<lparr>conns := (conns w)(c \<mapsto> fns)\<rparr>) = Inr (ghost g w')"
    "net_inv w'" "ghost_ok g w'" "conns w' c = Some fns" "closed c w' = closed c w" "keeps i w w'"
    using front_client [OF inv _ g, of c i fns] fns CB_Client by auto
  moreover have "sync_cleanup c (ghost g w) = sync_cleanup c (ghost g w')"
    using fns w'(1) by (subst sync_cleanup.simps) simp
  ultimately show ?thesis using that CB_Client by blast
next
  case (CB_Thread i)
  obtain w' gs where w': "run_callback cb ((ghost g w)\<lparr>conns := (conns w)(c \<mapsto> fns)\<rparr>) = Inr (ghost g w')"
    "net_inv w'" "ghost_ok g w'" "conns w' c = Some gs" "length gs \<le> length fns" "closed c w' = closed c w" "keeps i w w'"
    using front_thread [OF inv _ g, of c i fns] fns CB_Thread ok by auto
  moreover have "sync_cleanup c (ghost g w) = sync_cleanup c (ghost g w')"
    using fns w'(1) by (subst sync_cleanup.simps) simp
  ultimately show ?thesis using that CB_Thread by blast
qed

lemma sync_cleanup_closed:
  assumes "net_inv w" "conns w c = Some fns" "ghost_ok g w" "quiet w c"
  shows "sync_cleanup c (ghost g w) = Some (Inr (ghost g (closed c w))) \<and> net_inv (closed c w)"
  using assms
proof (induction "length fns" arbitrary: w fns rule: less_induct)
  case less
  show ?case
  proof (cases fns)
    case Nil
    then have c: "conns w c = Some []" using less.prems(2) by simp
    show ?thesis
      using closed_empty [OF less.prems(1) c] c
      by (subst sync_cleanup.simps) (cases g; auto simp: ghost_def)
  next
    case (Cons cb gs)
    have fns: "conns w c = Some (cb # gs)" using less.prems(2) Cons by simp
    have "i \<notin> leaving w" if "cb = CB_Thread i" for i
      using thread_cbD [OF net_invD(1) [OF less.prems(1) fns], of i] less.prems(4) that by (auto simp: quiet_def)
    then obtain w' hs i where w': "sync_cleanup c (ghost g w) = sync_cleanup c (ghost g w')" "net_inv w'" "ghost_ok g w'"
      "conns w' c = Some hs" "length hs \<le> length gs" "closed c w' = closed c w" "keeps i w w'"
      using front_callback [OF less.prems(1) fns less.prems(3)] by metis
    have "length hs < length fns" using w'(5) Cons by simp
    from less.hyps [OF this w'(2,4,3) keeps_quiet [OF w'(7) less.prems(4)]] show ?thesis
      using w'(1,6) by simp
  qed
qed

text \<open>A disconnect that meets a thread that leaves destroys its client a second time.\<close>

lemma sync_cleanup_twice:
  assumes "net_inv w" "conns w c = Some fns" "ghost_ok g w" "\<not> quiet w c"
  shows "sync_cleanup c (ghost g w) = Some (Inl Destroyed_twice)"
  using assms
proof (induction "length fns" arbitrary: w fns rule: less_induct)
  case less
  note ok = net_invD(1) [OF less.prems(1,2)]
  obtain i where i: "i \<in> leaving w" "connected w i c" using less.prems(4) by (auto simp: quiet_def)
  have "CB_Thread i \<in> set fns"
    using ok i net_invD(3) [OF less.prems(1) i(1)] by (simp add: callbacks_ok_def)
  then obtain cb gs where fns: "fns = cb # gs" by (cases fns) auto
  have c: "conns w c = Some (cb # gs)" using less.prems(2) fns by simp
  show ?case
  proof (cases "\<exists>j. cb = CB_Thread j \<and> j \<in> leaving w")
    case True
    then obtain j where j: "cb = CB_Thread j" "j \<in> leaving w" by blast
    obtain cl where "clients w j = Some cl"
      using net_invD(3) [OF less.prems(1) j(2)] by (auto simp: threaded_def)
    then have "clients (ghost g w) j = Some cl"
      using less.prems(3) by (auto simp: ghost_def ghost_ok_def split: option.splits)
    then show ?thesis using c j by (subst sync_cleanup.simps) (simp add: thread_disconnected_def)
  next
    case False
    obtain w' hs j where w': "sync_cleanup c (ghost g w) = sync_cleanup c (ghost g w')" "net_inv w'" "conns w' c = Some hs"
      "length hs \<le> length gs" "keeps j w w'" "cb = CB_Client j \<or> cb = CB_Thread j" "ghost_ok g w'"
      using front_callback [OF less.prems(1) c less.prems(3)] False by metis
    have "i \<noteq> j"
    proof
      assume "i = j"
      then have "cb = CB_Client i" using w'(6) False i(1) by blast
      then show False using ok \<open>CB_Thread i \<in> set fns\<close> fns by (auto simp: callbacks_ok_def)
    qed
    then have "connected w' i c" "i \<in> leaving w'"
      using i keeps_connected [OF w'(5)] w'(5) by (simp_all add: keeps_def)
    then have "\<not> quiet w' c" by (auto simp: quiet_def)
    moreover have "length hs < length fns" using w'(4) fns by simp
    ultimately show ?thesis using less.hyps [OF _ w'(2,3,7)] w'(1) by simp
  qed
qed

section \<open>Runs\<close>

text \<open>
  Objects are made at fresh numbers, on connections that exist, and destroyed once. The clients
  in a \<open>ConnThreads\<close> map are the ones with \<open>disconnect_cb\<close>: they are destroyed on the event loop thread, or by
  the thread itself when it ends.
\<close>

inductive net_step :: "net \<Rightarrow> net \<Rightarrow> bool" where
  connect: "conns w c = None \<Longrightarrow> (\<And>i cl. clients w i = Some cl \<Longrightarrow> connection cl \<noteq> Some c) \<Longrightarrow>
    net_step w (w\<lparr>conns := (conns w)(c \<mapsto> [])\<rparr>)"
| new_client: "clients w i = None \<Longrightarrow> ProxyClientBase_ctor i c destroy w = Inr w' \<Longrightarrow> net_step w w'"
| new_thread: "clients w i = None \<Longrightarrow> SetThread_new i c w = Inr w' \<Longrightarrow> net_step w w'"
| delete_client: "clients w i = Some cl \<Longrightarrow> \<not> disconnect_cb cl \<Longrightarrow>
    ProxyClientBase_dtor i w = Some (Inr w') \<Longrightarrow> net_step w w'"
| delete_thread: "clients w i = Some cl \<Longrightarrow> disconnect_cb cl \<Longrightarrow> i \<notin> leaving w \<Longrightarrow>
    ProxyClientThread_dtor i w = Some (Inr w') \<Longrightarrow> net_step w w'"
| thread_leaves: "clients w i = Some cl \<Longrightarrow> disconnect_cb cl \<Longrightarrow> net_step w (thread_leaves i w)"
| thread_left: "i \<in> leaving w \<Longrightarrow> thread_left i w = Inr w' \<Longrightarrow> net_step w w'"
| disconnect: "conns w c \<noteq> None \<Longrightarrow> Connection_dtor c w = Some (Inr w') \<Longrightarrow> net_step w w'"

text \<open>A client that has lost its connection.\<close>

lemma free_client_ok:
  assumes inv: "net_inv w" and cl: "clients w i = Some cl" "connection cl = None"
  shows "net_inv (free_client i w)"
proof (rule net_invI)
  fix c fns assume "conns (free_client i w) c = Some fns"
  then have "callbacks_ok w c fns" using net_invD(1) [OF inv] by (simp add: free_client_def)
  moreover have "\<not> connected w i c" "\<not> connected (free_client i w) i c"
    using cl by (simp_all add: connected_def free_client_def)
  ultimately show "callbacks_ok (free_client i w) c fns"
    by (rule callbacks_ok_other) (simp add: free_client_def)
next
  fix j dl assume "clients (free_client i w) j = Some dl"
  then have "client_ok w dl"
    using net_invD(2) [OF inv] by (simp add: free_client_def split: if_splits)
  then show "client_ok (free_client i w) dl" by (auto simp: client_ok_def free_client_def split: option.splits)
next
  fix j assume "j \<in> leaving (free_client i w)"
  then have "threaded w j" using net_invD(3) [OF inv] by (simp add: free_client_def)
  moreover have "\<not> threaded w i" using net_invD(2) [OF inv cl(1)] cl by (auto simp: threaded_def client_ok_def)
  ultimately show "threaded (free_client i w) j" by (cases "j = i") (simp_all add: threaded_def free_client_def)
qed

text \<open>A client that deletes its connection must not do so while a thread leaves it.\<close>

definition may_delete :: "net \<Rightarrow> client \<Rightarrow> bool" where
  "may_delete w cl \<longleftrightarrow> (\<forall>c. destroy_connection cl \<and> connection cl = Some c \<longrightarrow> quiet w c)"

lemma client_cleanup_ok:
  assumes inv: "net_inv w" and cl: "clients w i = Some cl" "\<not> disconnect_cb cl" "connection cl = Some c"
  obtains fns w0 where "client_cleanup i w = Inr (ghost (Some (i, cl\<lparr>cap := False\<rparr>)) w0)" "net_inv w0"
    "conns w0 c = Some fns" "clients w0 i = None" "quiet w0 c = quiet w c"
proof -
  obtain fns where fns: "conns w c = Some fns"
    using net_invD(2) [OF inv cl(1)] cl(3) by (auto simp: client_ok_def)
  note ok = net_invD(1) [OF inv fns]
  have in_fns: "CB_Client i \<in> set fns"
    using ok cl by (simp add: callbacks_ok_def connected_def)
  have no_thr: "CB_Thread i \<notin> set fns"
    using thread_cbD [OF ok, of i] cl by (auto simp: threaded_def)
  let ?w0 = "w\<lparr>conns := (conns w)(c \<mapsto> remove1 (CB_Client i) fns), clients := (clients w)(i := None)\<rparr>"
  have inv0: "net_inv ?w0"
    by (rule drop_client [OF inv fns in_fns no_thr cl(1), of _ None]) simp_all
  have "client_cleanup i w = Inr (ghost (Some (i, cl\<lparr>cap := False\<rparr>)) ?w0)"
    using cl fns in_fns by (simp add: client_cleanup_def removeSyncCleanup_def ghost_def)
  moreover have "i \<notin> leaving w" using net_invD(3) [OF inv, of i] cl by (auto simp: threaded_def)
  then have "quiet ?w0 c = quiet w c" by (auto simp: quiet_def connected_def)
  ultimately show ?thesis using that [of ?w0] inv0 by simp
qed

lemma delete_connected_ok:
  assumes inv: "net_inv w" and cl: "clients w i = Some cl" "\<not> disconnect_cb cl" "connection cl = Some c"
    and may: "may_delete w cl"
  shows "\<exists>w'. ProxyClientBase_dtor i w = Some (Inr w') \<and> net_inv w' \<and> clients w' i = None"
proof -
  obtain fns w0 where w0: "client_cleanup i w = Inr (ghost (Some (i, cl\<lparr>cap := False\<rparr>)) w0)" "net_inv w0"
    "conns w0 c = Some fns" "clients w0 i = None" "quiet w0 c = quiet w c"
    by (rule client_cleanup_ok [OF inv cl])
  have free: "free_client i (ghost (Some (i, x)) v) = v" if "clients v i = None" for x v
    using that by (cases v) (simp add: ghost_def free_client_def fun_upd_idem_iff)
  show ?thesis
  proof (cases "destroy_connection cl")
    case False
    then have "ProxyClientBase_dtor i w = Some (Inr w0)"
      using cl(1) w0(1) free [OF w0(4)] by (simp add: ProxyClientBase_dtor_def)
    then show ?thesis using w0 by blast
  next
    case True
    have "quiet w0 c" using may True cl(3) w0(5) by (simp add: may_delete_def)
    then have "sync_cleanup c (ghost (Some (i, cl\<lparr>cap := False\<rparr>)) w0) =
        Some (Inr (ghost (Some (i, cl\<lparr>cap := False\<rparr>)) (closed c w0))) \<and> net_inv (closed c w0)"
      using w0(4) by (intro sync_cleanup_closed [OF w0(2,3)]) (simp_all add: ghost_ok_def)
    moreover have none: "clients (closed c w0) i = None"
      using w0(4) by (simp add: closed_def)
    ultimately have "ProxyClientBase_dtor i w = Some (Inr (closed c w0))" "net_inv (closed c w0)"
      using cl(1,3) w0(1) free [of "closed c w0"] True
      by (simp_all add: ProxyClientBase_dtor_def Connection_dtor_def)
    then show ?thesis using none by blast
  qed
qed

lemma delete_client_ok:
  assumes "net_inv w" "clients w i = Some cl" "\<not> disconnect_cb cl" "may_delete w cl"
  shows "\<exists>w'. ProxyClientBase_dtor i w = Some (Inr w') \<and> net_inv w' \<and> clients w' i = None"
proof (cases "connection cl")
  case None
  then show ?thesis
    using assms(2) free_client_ok [OF assms(1,2) None]
    by (simp add: ProxyClientBase_dtor_def client_cleanup_def free_client_def)
next
  case (Some c)
  then show ?thesis using delete_connected_ok [OF assms(1-3) _ assms(4)] by blast
qed

text \<open>The first part of the destructor of a thread client.\<close>

lemma thread_cleanup_ok:
  assumes "net_inv w" "clients w i = Some cl" "disconnect_cb cl"
  obtains w' where "thread_cleanup i w = Inr w'" "net_inv (w'\<lparr>leaving := leaving w' - {i}\<rparr>)" "leaving w' = leaving w"
    "clients w' i = Some (cl\<lparr>disconnect_cb := False\<rparr>)"
proof -
  obtain c where c: "connection cl = Some c"
    using net_invD(2) [OF assms(1,2)] assms(3) by (auto simp: client_ok_def)
  obtain fns where fns: "conns w c = Some fns"
    using net_invD(2) [OF assms(1,2)] c by (auto simp: client_ok_def)
  have in_fns: "CB_Thread i \<in> set fns"
    using net_invD(1) [OF assms(1) fns] assms(2,3) c by (simp add: callbacks_ok_def connected_def threaded_def)
  let ?w = "w\<lparr>conns := (conns w)(c \<mapsto> remove1 (CB_Thread i) fns), clients := (clients w)(i \<mapsto> cl\<lparr>disconnect_cb := False\<rparr>)\<rparr>"
  have "thread_cleanup i w = Inr ?w"
    using assms(2,3) c fns in_fns by (simp add: thread_cleanup_def removeSyncCleanup_def)
  moreover have "net_inv (?w\<lparr>leaving := leaving ?w - {i}\<rparr>)"
    by (rule drop_thread [OF assms(1) fns in_fns assms(2)]) simp
  ultimately show ?thesis using that by simp
qed

lemma delete_thread_ok:
  assumes "net_inv w" "clients w i = Some cl" "disconnect_cb cl" "i \<notin> leaving w"
  shows "\<exists>w'. ProxyClientThread_dtor i w = Some (Inr w') \<and> net_inv w' \<and> clients w' i = None"
proof -
  obtain w1 where w1: "thread_cleanup i w = Inr w1" "net_inv (w1\<lparr>leaving := leaving w1 - {i}\<rparr>)" "leaving w1 = leaving w"
    "clients w1 i = Some (cl\<lparr>disconnect_cb := False\<rparr>)"
    using thread_cleanup_ok [OF assms(1-3)] by blast
  moreover have "w1\<lparr>leaving := leaving w1 - {i}\<rparr> = w1" using assms(4) w1(3) by (cases w1) simp
  ultimately have "net_inv w1" by simp
  moreover have "may_delete w1 (cl\<lparr>disconnect_cb := False\<rparr>)"
    using net_invD(2) [OF assms(1,2)] assms(3) by (simp add: may_delete_def client_ok_def)
  ultimately show ?thesis
    using delete_client_ok [of w1 i] w1(1,4) by (simp add: ProxyClientThread_dtor_def)
qed

lemma thread_left_ok:
  assumes "net_inv w" "i \<in> leaving w"
  shows "\<exists>w'. thread_left i w = Inr w' \<and> net_inv w'"
proof -
  obtain cl where cl: "clients w i = Some cl" "disconnect_cb cl"
    using net_invD(3) [OF assms] by (auto simp: threaded_def)
  show ?thesis
    by (rule thread_cleanup_ok [OF assms(1) cl]) (simp add: thread_left_def)
qed

lemma thread_leaves_ok: "net_inv w \<Longrightarrow> threaded w i \<Longrightarrow> net_inv (thread_leaves i w)"
  by (rule net_invI) (auto simp: thread_leaves_def dest: net_invD)

lemma disconnect_ok:
  assumes "net_inv w" "conns w c = Some fns" "quiet w c"
  shows "Connection_dtor c w = Some (Inr (closed c w)) \<and> net_inv (closed c w)"
  using sync_cleanup_closed [OF assms(1,2) _ assms(3), of None]
  by (simp add: Connection_dtor_def ghost_def ghost_ok_def)

text \<open>What returns has met no thread that leaves.\<close>

lemma disconnect_quiet:
  assumes "net_inv w" "conns w c = Some fns" "Connection_dtor c w = Some (Inr w')"
  shows "quiet w c"
  using sync_cleanup_twice [OF assms(1,2), of None] assms(3)
  by (auto simp: Connection_dtor_def ghost_def ghost_ok_def)

lemma new_client_ok:
  assumes "net_inv w" "clients w i = None" "conns w c = Some fns"
    and w': "w' = w\<lparr>conns := (conns w)(c \<mapsto> CB_Client i # fns), clients := (clients w)(i \<mapsto>
      \<lparr>connection = Some c, cap = True, destroy_connection = d, disconnect_cb = False\<rparr>)\<rparr>"
  shows "net_inv w'"
proof (rule net_invI)
  note ok = net_invD(1) [OF assms(1,3)]
  have con: "connected w' j b \<longleftrightarrow> (if j = i then b = c else connected w j b)" for j b
    by (auto simp: connected_def w')
  have thr: "threaded w' j \<longleftrightarrow> threaded w j" for j
    using assms(2) by (simp add: threaded_def w')
  have not: "\<not> connected w i b" "\<not> threaded w i" for b
    using assms(2) by (simp_all add: connected_def threaded_def)
  have fresh: "CB_Client i \<notin> set fns" "CB_Thread i \<notin> set fns"
    using client_cbD [OF ok, of i] thread_cbD [OF ok, of i] not by blast+
  fix b gs assume b: "conns w' b = Some gs"
  show "callbacks_ok w' b gs"
  proof (cases "b = c")
    case False
    then have "callbacks_ok w b gs" using b net_invD(1) [OF assms(1)] by (simp add: w')
    then show ?thesis
      using not False unfolding callbacks_ok_def con thr by metis
  next
    case True
    then have "gs = CB_Client i # fns" using b by (simp add: w')
    then show ?thesis
      using ok fresh not unfolding True callbacks_ok_def con thr by auto
  qed
next
  fix j dl assume "clients w' j = Some dl"
  then show "client_ok w' dl"
    using net_invD(2) [OF assms(1), of j dl]
    by (auto simp: client_ok_def w' split: option.splits if_splits)
next
  fix j assume "j \<in> leaving w'"
  then show "threaded w' j"
    using net_invD(3) [OF assms(1), of j] assms(2) by (cases "j = i") (auto simp: threaded_def w')
qed

lemma new_thread_ok:
  assumes "net_inv w" "conns w c = Some (CB_Client i # fns)" "clients w i = Some cl"
    and cl: "connection cl = Some c" "\<not> disconnect_cb cl" "\<not> destroy_connection cl"
    and w': "w' = w\<lparr>conns := (conns w)(c \<mapsto> CB_Thread i # CB_Client i # fns),
      clients := (clients w)(i \<mapsto> cl\<lparr>disconnect_cb := True\<rparr>)\<rparr>"
  shows "net_inv w'"
proof (rule net_invI)
  note ok = net_invD(1) [OF assms(1,2)]
  have con: "connected w' j b \<longleftrightarrow> connected w j b" for j b
    using assms(3) by (simp add: connected_def w')
  have thr: "threaded w' j \<longleftrightarrow> j = i \<or> threaded w j" for j
    by (simp add: threaded_def w')
  have i: "connected w i b \<longleftrightarrow> b = c" "\<not> threaded w i" for b
    using assms(3) cl by (auto simp: connected_def threaded_def)
  fix b gs assume b: "conns w' b = Some gs"
  show "callbacks_ok w' b gs"
  proof (cases "b = c")
    case False
    then have "callbacks_ok w b gs" using b net_invD(1) [OF assms(1)] by (simp add: w')
    then show ?thesis
      using i False unfolding callbacks_ok_def con thr by metis
  next
    case True
    then have "gs = CB_Thread i # CB_Client i # fns" using b by (simp add: w')
    moreover have "CB_Thread i \<notin> set fns"
      using thread_cbD [OF ok, of i] i(2) by auto
    ultimately show ?thesis
      using ok i unfolding True callbacks_ok_def con thr by auto
  qed
next
  fix j dl assume j: "clients w' j = Some dl"
  show "client_ok w' dl"
  proof (cases "j = i")
    case True
    then show ?thesis
      using net_invD(2) [OF assms(1,3)] cl j by (auto simp: client_ok_def w')
  next
    case False
    then have "client_ok w dl" using net_invD(2) [OF assms(1)] j by (simp add: w')
    then show ?thesis by (auto simp: client_ok_def w' split: option.splits)
  qed
next
  fix j assume "j \<in> leaving w'"
  then show "threaded w' j" using net_invD(3) [OF assms(1), of j] by (simp add: threaded_def w')
qed

text \<open>A client that is deleted by a step may delete its connection.\<close>

lemma deleted_may:
  assumes inv: "net_inv w" and cl: "clients w i = Some cl" "\<not> disconnect_cb cl"
    and w': "ProxyClientBase_dtor i w = Some (Inr w')"
  shows "may_delete w cl"
  unfolding may_delete_def
proof (intro allI impI)
  fix c assume c: "destroy_connection cl \<and> connection cl = Some c"
  have con: "connection cl = Some c" using c by simp
  obtain fns w0 where w0: "client_cleanup i w = Inr (ghost (Some (i, cl\<lparr>cap := False\<rparr>)) w0)" "net_inv w0"
    "conns w0 c = Some fns" "clients w0 i = None" "quiet w0 c = quiet w c"
    by (rule client_cleanup_ok [OF inv cl con])
  have "sync_cleanup c (ghost (Some (i, cl\<lparr>cap := False\<rparr>)) w0) = Some (Inl Destroyed_twice)" if "\<not> quiet w c"
    using that w0(4,5) by (intro sync_cleanup_twice [OF w0(2,3)]) (simp_all add: ghost_ok_def)
  then show "quiet w c"
    using w' cl(1) c w0(1) by (cases "quiet w c") (simp_all add: ProxyClientBase_dtor_def Connection_dtor_def)
qed

text \<open>Every step keeps the agreement.\<close>

lemma net_step_inv:
  assumes "net_step w w'" "net_inv w"
  shows "net_inv w'"
  using assms
proof (induction rule: net_step.induct)
  case (connect w c)
  show ?case
  proof (rule net_invI)
    fix d gs assume "conns (w\<lparr>conns := (conns w)(c \<mapsto> [])\<rparr>) d = Some gs"
    then show "callbacks_ok (w\<lparr>conns := (conns w)(c \<mapsto> [])\<rparr>) d gs"
      using connect(2) net_invD(1) [OF connect(3), of d gs]
      by (auto simp: callbacks_ok_def connected_def split: if_splits)
  next
    show "threaded (w\<lparr>conns := (conns w)(c \<mapsto> [])\<rparr>) i" if "i \<in> leaving (w\<lparr>conns := (conns w)(c \<mapsto> [])\<rparr>)" for i
      using that net_invD(3) [OF connect(3)] by simp
  next
    fix i cl assume "clients (w\<lparr>conns := (conns w)(c \<mapsto> [])\<rparr>) i = Some cl"
    then show "client_ok (w\<lparr>conns := (conns w)(c \<mapsto> [])\<rparr>) cl"
      using net_invD(2) [OF connect(3), of i cl] by (auto simp: client_ok_def split: option.splits)
  qed
next
  case (new_client w i c destroy w')
  obtain fns where fns: "conns w c = Some fns"
    using new_client(2) by (cases "conns w c") (simp_all add: ProxyClientBase_ctor_def addSyncCleanup_def)
  show ?case
    using new_client(2) fns
    by (intro new_client_ok [OF new_client(3,1) fns, of _ destroy])
      (simp add: ProxyClientBase_ctor_def addSyncCleanup_def)
next
  case (new_thread w i c w')
  let ?cl = "\<lparr>connection = Some c, cap = True, destroy_connection = False, disconnect_cb = False\<rparr>"
  obtain fns where fns: "conns w c = Some fns"
    using new_thread(2)
    by (cases "conns w c") (simp_all add: SetThread_new_def ProxyClientBase_ctor_def addSyncCleanup_def)
  have "net_inv (w\<lparr>conns := (conns w)(c \<mapsto> CB_Client i # fns), clients := (clients w)(i \<mapsto> ?cl)\<rparr>)"
    by (rule new_client_ok [OF new_thread(3,1) fns]) simp
  from new_thread_ok [OF this, of c i fns ?cl] show ?case
    using new_thread(2) fns
    by (simp add: SetThread_new_def ProxyClientBase_ctor_def addSyncCleanup_def)
next
  case (delete_client w i cl w')
  then show ?case using delete_client_ok [of w i cl] deleted_may [of w i cl] by auto
next
  case (delete_thread w i cl w')
  then show ?case using delete_thread_ok [of w i cl] by auto
next
  case (thread_leaves w i cl)
  then show ?case by (intro thread_leaves_ok) (auto simp: threaded_def)
next
  case (thread_left i w w')
  then show ?case using thread_left_ok [of w i] by auto
next
  case (disconnect w c w')
  then show ?case using disconnect_ok [of w c] disconnect_quiet [of w c] by auto
qed

definition empty_net :: "net \<Rightarrow> bool" where
  "empty_net w \<longleftrightarrow> conns w = Map.empty \<and> clients w = Map.empty \<and> leaving w = {}"

interpretation net: transition_invariant empty_net net_step net_inv
proof
  show "net_inv w" if "empty_net w" for w
    using that by (simp add: empty_net_def net_inv_def)
  show "net_inv w'" if "net_step w w'" "net_inv w" for w w'
    using that by (rule net_step_inv)
qed

section \<open>Properties\<close>

lemma SetThread_new_ok:
  assumes "conns w c = Some fns"
  shows "\<exists>w'. SetThread_new i c w = Inr w'"
  using assms by (simp add: SetThread_new_def ProxyClientBase_ctor_def addSyncCleanup_def)

text \<open>
  C3. Whatever clients were made, deleted and disconnected before, in whatever order: making a
  client or the client of a thread on an existing connection, deleting a client (which may
  delete its connection) or the client of a thread, on the event loop thread or by a thread that ends, and closing
  a connection never follow a dead iterator, a destroyed object or a null connection, and they return. While a thread
  that ends waits in the destructor of one of its clients, this client must not be deleted and its connection must not go.
\<close>

theorem lifetimes_no_fault:
  assumes "empty_net w0" and "net_step\<^sup>*\<^sup>* w0 w"
  shows "(\<forall>i cl. clients w i = Some cl \<and> disconnect_cb cl \<longrightarrow>
      (if i \<in> leaving w then \<exists>w'. thread_left i w = Inr w' else \<exists>w'. ProxyClientThread_dtor i w = Some (Inr w'))) \<and>
    (\<forall>i cl. clients w i = Some cl \<and> \<not> disconnect_cb cl \<and> may_delete w cl \<longrightarrow>
      (\<exists>w'. ProxyClientBase_dtor i w = Some (Inr w'))) \<and>
    (\<forall>c. conns w c \<noteq> None \<longrightarrow>
      (quiet w c \<longrightarrow> (\<exists>w'. Connection_dtor c w = Some (Inr w'))) \<and>
      (\<forall>i. \<exists>w'. SetThread_new i c w = Inr w') \<and>
      (\<forall>i destroy. \<exists>w'. ProxyClientBase_ctor i c destroy w = Inr w'))"
proof -
  note inv = net.reachable_inv [OF assms]
  have "if i \<in> leaving w then \<exists>w'. thread_left i w = Inr w' else \<exists>w'. ProxyClientThread_dtor i w = Some (Inr w')"
    if "clients w i = Some cl" "disconnect_cb cl" for i cl
    using thread_left_ok [OF inv, of i] delete_thread_ok [OF inv that] by auto
  moreover have "\<exists>w'. ProxyClientBase_dtor i w = Some (Inr w')"
    if "clients w i = Some cl" "\<not> disconnect_cb cl" "may_delete w cl" for i cl
    using delete_client_ok [OF inv that] by auto
  moreover have "(quiet w c \<longrightarrow> (\<exists>w'. Connection_dtor c w = Some (Inr w'))) \<and> (\<forall>i. \<exists>w'. SetThread_new i c w = Inr w') \<and>
      (\<forall>i destroy. \<exists>w'. ProxyClientBase_ctor i c destroy w = Inr w')" if "conns w c \<noteq> None" for c
  proof -
    obtain fns where "conns w c = Some fns" using \<open>conns w c \<noteq> None\<close> by auto
    then show ?thesis
      using disconnect_ok [OF inv] SetThread_new_ok by (auto simp: ProxyClientBase_ctor_def addSyncCleanup_def)
  qed
  ultimately show ?thesis by blast
qed

text \<open>A connection 7 with a client that owns it, 0, and the client of a thread, 1.\<close>

definition sample_net :: net where
  "sample_net =
     \<lparr>conns = [7 \<mapsto> [CB_Thread 1, CB_Client 1, CB_Client 0]],
      clients = [0 \<mapsto> \<lparr>connection = Some 7, cap = True, destroy_connection = True, disconnect_cb = False\<rparr>,
                 1 \<mapsto> \<lparr>connection = Some 7, cap = True, destroy_connection = False, disconnect_cb = True\<rparr>],
      leaving = {}\<rparr>"

lemma sample_net_reachable: "net_step\<^sup>*\<^sup>* \<lparr>conns = Map.empty, clients = Map.empty, leaving = {}\<rparr> sample_net"
proof -
  let ?w0 = "\<lparr>conns = Map.empty, clients = Map.empty, leaving = {}\<rparr> :: net"
  let ?w1 = "\<lparr>conns = [7 \<mapsto> []], clients = Map.empty, leaving = {}\<rparr> :: net"
  let ?w2 = "\<lparr>conns = [7 \<mapsto> [CB_Client 0]], clients = [0 \<mapsto>
    \<lparr>connection = Some 7, cap = True, destroy_connection = True, disconnect_cb = False\<rparr>], leaving = {}\<rparr> :: net"
  have "net_step ?w0 ?w1" using net_step.connect [of ?w0 7] by simp
  moreover have "net_step ?w1 ?w2"
    by (rule net_step.new_client [of _ 0 7 True]) (simp_all add: ProxyClientBase_ctor_def addSyncCleanup_def)
  moreover have "net_step ?w2 sample_net"
    by (rule net_step.new_thread [of _ 1 7])
      (simp_all add: SetThread_new_def ProxyClientBase_ctor_def addSyncCleanup_def sample_net_def)
  ultimately show ?thesis
    by (blast intro: rtranclp.rtrancl_into_rtrancl rtranclp.rtrancl_refl)
qed

theorem lifetimes_no_fault_witness:
  "\<exists>w'. ProxyClientBase_dtor 0 sample_net = Some (Inr w')"
proof -
  let ?cl = "\<lparr>connection = Some 7, cap = True, destroy_connection = True, disconnect_cb = False\<rparr>"
  have cl: "clients sample_net 0 = Some ?cl \<and> \<not> disconnect_cb ?cl \<and> may_delete sample_net ?cl"
    by (simp add: sample_net_def may_delete_def quiet_def)
  show ?thesis
    using lifetimes_no_fault [OF _ sample_net_reachable, THEN conjunct2, THEN conjunct1, rule_format, OF _ cl] by (simp add: empty_net_def)
qed

text \<open>
  C12. Closing a connection leaves each of its clients without capability and without connection,
  so that their destructors have nothing more to do with it, removes the clients its threads kept
  for it from their maps, and touches no other client and no other connection, when no thread that ends waits
  in the destructor of a client of the connection.
\<close>

theorem connection_closed:
  assumes "empty_net w0" and "net_step\<^sup>*\<^sup>* w0 w" and "conns w c \<noteq> None" and "quiet w c"
  shows "\<exists>w'. Connection_dtor c w = Some (Inr w') \<and> conns w' = (conns w)(c := None) \<and>
    (\<forall>i. clients w' i =
       (case clients w i of
          None \<Rightarrow> None
        | Some cl \<Rightarrow>
            if connection cl \<noteq> Some c then Some cl
            else if disconnect_cb cl then None
            else Some (cl\<lparr>cap := False, connection := None\<rparr>)))"
proof -
  obtain fns where "conns w c = Some fns" using assms(3) by auto
  then have "Connection_dtor c w = Some (Inr (closed c w))"
    using disconnect_ok [OF net.reachable_inv [OF assms(1,2)] _ assms(4)] by blast
  moreover have "clients (closed c w) i =
       (case clients w i of
          None \<Rightarrow> None
        | Some cl \<Rightarrow>
            if connection cl \<noteq> Some c then Some cl
            else if disconnect_cb cl then None
            else Some (cl\<lparr>cap := False, connection := None\<rparr>))" for i
    by (simp add: closed_def disconnected_def split: option.splits)
  ultimately show ?thesis by (simp add: closed_def)
qed

theorem connection_closed_witness:
  "\<exists>w'. Connection_dtor 7 sample_net = Some (Inr w') \<and> conns w' 7 = None \<and> clients w' 1 = None \<and>
    clients w' 0 = Some \<lparr>connection = None, cap = False, destroy_connection = True, disconnect_cb = False\<rparr>"
proof -
  have "conns sample_net 7 \<noteq> None" "quiet sample_net 7" by (simp_all add: sample_net_def quiet_def)
  from connection_closed [OF _ sample_net_reachable this] obtain w' where w':
    "Connection_dtor 7 sample_net = Some (Inr w')" "conns w' = (conns sample_net)(7 := None)"
    "\<forall>i. clients w' i =
       (case clients sample_net i of
          None \<Rightarrow> None
        | Some cl \<Rightarrow>
            if connection cl \<noteq> Some 7 then Some cl
            else if disconnect_cb cl then None
            else Some (cl\<lparr>cap := False, connection := None\<rparr>))"
    by (auto simp: empty_net_def)
  have "clients w' 1 = None" "conns w' 7 = None"
    "clients w' 0 = Some \<lparr>connection = None, cap = False, destroy_connection = True, disconnect_cb = False\<rparr>"
    using w'(2) spec [OF w'(3), of 1] spec [OF w'(3), of 0] by (simp_all add: sample_net_def)
  then show ?thesis using w'(1) by blast
qed

text \<open>
  C38. When a connection goes while a thread that ends waits for the event loop in the destructor of the client it has
  for the connection, the disconnect callback destroys this client a second time.
\<close>

theorem thread_exit_race:
  assumes "empty_net w0" and "net_step\<^sup>*\<^sup>* w0 w" and "conns w c \<noteq> None"
    and "clients w i = Some cl" and "disconnect_cb cl" and "connection cl = Some c"
  shows "net_step w (thread_leaves i w) \<and> Connection_dtor c (thread_leaves i w) = Some (Inl Destroyed_twice)"
proof -
  have step: "net_step w (thread_leaves i w)" by (rule net_step.thread_leaves [OF assms(4,5)])
  have inv: "net_inv (thread_leaves i w)"
    by (rule net.reachable_inv [OF assms(1) rtranclp.rtrancl_into_rtrancl [OF assms(2) step]])
  obtain fns where fns: "conns (thread_leaves i w) c = Some fns" using assms(3) by (auto simp: thread_leaves_def)
  have "\<not> quiet (thread_leaves i w) c"
    using assms(4,6) by (auto simp: quiet_def thread_leaves_def connected_def)
  then have "Connection_dtor c (thread_leaves i w) = Some (Inl Destroyed_twice)"
    using sync_cleanup_twice [OF inv fns, of None] by (simp add: Connection_dtor_def ghost_def ghost_ok_def)
  then show ?thesis using step by blast
qed

theorem thread_exit_race_witness:
  "Connection_dtor 7 (thread_leaves 1 sample_net) = Some (Inl Destroyed_twice)"
  using thread_exit_race [OF _ sample_net_reachable, of 7 1
      "\<lparr>connection = Some 7, cap = True, destroy_connection = False, disconnect_cb = True\<rparr>"]
  by (simp add: empty_net_def sample_net_def)

text \<open>
  When the \<open>construct\<close> call of a new client throws, the disconnect callback of the client stays
  registered although the object is gone: destroying the connection afterwards runs it on the freed
  object.
\<close>

theorem failed_construct_dangles:
  assumes "conns w c = Some fns" and "clients w i = None"
  shows "\<exists>w'. ProxyClientBase_ctor_throws i c w = Inr w' \<and> Connection_dtor c w' = Some (Inl Use_after_free)"
  using assms
  by (simp add: ProxyClientBase_ctor_throws_def ProxyClientBase_ctor_def addSyncCleanup_def Connection_dtor_def
      client_disconnected_def sync_cleanup.simps [of c])

theorem failed_construct_dangles_witness:
  "\<exists>w'. ProxyClientBase_ctor_throws 5 0 \<lparr>conns = [0 \<mapsto> []], clients = Map.empty, leaving = {}\<rparr> = Inr w' \<and>
    Connection_dtor 0 w' = Some (Inl Use_after_free)"
  using failed_construct_dangles [of "\<lparr>conns = [0 \<mapsto> []], clients = Map.empty, leaving = {}\<rparr>" 0 "[]" 5] by simp

end
