(* ===== verification/Codec.thy ===== *)
theory Codec
  imports Prelude
begin

text \<open>
  How one value goes into and out of one Cap'n Proto field: \<open>Accessor\<close> of
  \<open>include/mp/proxy.h\<close> and \<open>ValueField\<close>, \<open>StructField\<close>, \<open>ListOutput\<close>, \<open>ReadDestEmplace\<close>,
  \<open>ReadDestUpdate\<close>, \<open>BuildField\<close> and \<open>ReadField\<close> of \<open>include/mp/proxy-types.h\<close>. A C++ type
  that can be a field is a record of its handlers; the interface they meet is a locale.
\<close>

section \<open>Accessors\<close>

definition FIELD_IN :: nat where "FIELD_IN = 1"
definition FIELD_OUT :: nat where "FIELD_OUT = 2"
definition FIELD_OPTIONAL :: nat where "FIELD_OPTIONAL = 4"
definition FIELD_REQUESTED :: nat where "FIELD_REQUESTED = 8"
definition FIELD_BOXED :: nat where "FIELD_BOXED = 16"

record accessor =
  acc_in :: bool
  acc_out :: bool
  acc_optional :: bool
  acc_requested :: bool
  acc_boxed :: bool

definition Accessor :: "nat \<Rightarrow> accessor" where
  "Accessor flags =
     \<lparr>acc_in = (and flags FIELD_IN \<noteq> 0), acc_out = (and flags FIELD_OUT \<noteq> 0),
      acc_optional = (and flags FIELD_OPTIONAL \<noteq> 0),
      acc_requested = (and flags FIELD_REQUESTED \<noteq> 0), acc_boxed = (and flags FIELD_BOXED \<noteq> 0)\<rparr>"

section \<open>Fields\<close>

text \<open>
  The storage behind a field of a message: what it holds, whether its pointer is set (what the
  generated \<open>has\<close> reports), and the two companion fields \<open>hasX\<close> and \<open>wantX\<close>.
\<close>

record 'm slot =
  content :: 'm
  is_set :: bool
  has_flag :: bool
  want_flag :: bool

text \<open>
  A field is reached as an element of a list (\<open>ListOutput\<close> when building, \<open>ValueField\<close> when
  reading) or as a member of a struct (\<open>StructField\<close>).
\<close>

datatype place = Elem | Member accessor

fun field_has :: "place \<Rightarrow> 'm slot \<Rightarrow> bool" where
  "field_has Elem s = True"
| "field_has (Member a) s =
     (if acc_optional a then has_flag s else if acc_boxed a then is_set s else True)"

fun field_want :: "place \<Rightarrow> 'm slot \<Rightarrow> bool" where
  "field_want Elem s = True"
| "field_want (Member a) s = (if acc_requested a then want_flag s else True)"

fun setHas :: "place \<Rightarrow> 'm slot \<Rightarrow> 'm slot" where
  "setHas Elem s = s"
| "setHas (Member a) s = (if acc_optional a then s\<lparr>has_flag := True\<rparr> else s)"

fun setWant :: "place \<Rightarrow> 'm slot \<Rightarrow> 'm slot" where
  "setWant Elem s = s"
| "setWant (Member a) s = (if acc_requested a then s\<lparr>want_flag := True\<rparr> else s)"

text \<open>\<open>Accessor::set\<close>, or \<open>Accessor::init\<close> and writing to what it returns.\<close>

definition field_set :: "'m \<Rightarrow> 'm slot \<Rightarrow> 'm slot" where
  "field_set x s = s\<lparr>content := x, is_set := True\<rparr>"

section \<open>Destinations\<close>

text \<open>
  \<open>Emplace\<close> is \<open>ReadDestEmplace\<close>: the value is made by the caller from the arguments that were
  read, or default constructed and then updated. \<open>Update v\<close> is \<open>ReadDestUpdate\<close> on a variable
  that holds \<open>v\<close>. The result is the value the destination ends with.
\<close>

datatype 'v dest = Emplace | Update 'v

definition dest_construct :: "'v \<Rightarrow> 'v dest \<Rightarrow> 'e + 'v" where
  "dest_construct v d = Inr v"

definition dest_update :: "'v \<Rightarrow> ('v \<Rightarrow> 'e + 'v) \<Rightarrow> 'v dest \<Rightarrow> 'e + 'v" where
  "dest_update def f d = (case d of Emplace \<Rightarrow> f def | Update v \<Rightarrow> f v)"

lemma dest_simps [simp, res_simps]:
  "dest_construct v d = Inr v" "dest_update def f Emplace = f def" "dest_update def f (Update v) = f v"
  by (simp_all add: dest_construct_def dest_update_def)

lemma dest_update_const: "(\<And>x. f x = r) \<Longrightarrow> dest_update def f d = r"
  by (cases d) simp_all

section \<open>Field types\<close>

text \<open>What can go wrong when a message is read; the second is reading outside of the message.\<close>

datatype read_error = Range_error | Read_past_end

text \<open>
  The overloads chosen for a C++ type: \<open>CustomBuildField\<close>, \<open>CustomReadField\<close>,
  \<open>CustomHasValue\<close>, \<open>CustomHasField\<close>; its default value and the content of a new field; and
  whether \<open>CustomReadField\<close> works by \<open>update\<close> (rather than \<open>construct\<close>).
\<close>

record ('v, 'm) field_type =
  CustomBuildField :: "place \<Rightarrow> 'v \<Rightarrow> 'm slot \<Rightarrow> 'm slot"
  CustomReadField :: "place \<Rightarrow> 'm slot \<Rightarrow> 'v dest \<Rightarrow> read_error + 'v"
  CustomHasValue :: "'v \<Rightarrow> bool"
  CustomHasField :: "place \<Rightarrow> 'm slot \<Rightarrow> bool"
  default_value :: 'v
  zero_content :: 'm
  by_update :: bool

definition BuildField :: "('v, 'm) field_type \<Rightarrow> place \<Rightarrow> 'v \<Rightarrow> 'm slot \<Rightarrow> 'm slot" where
  "BuildField c p v s = (if CustomHasValue c v then CustomBuildField c p v s else s)"

definition ReadField :: "('v, 'm) field_type \<Rightarrow> place \<Rightarrow> 'm slot \<Rightarrow> 'v dest \<Rightarrow> read_error + 'v" where
  "ReadField c p s d = CustomReadField c p s d"

definition new_slot :: "('v, 'm) field_type \<Rightarrow> 'm slot" where
  "new_slot c = \<lparr>content = zero_content c, is_set = False, has_flag = False, want_flag = False\<rparr>"

text \<open>A type with the default \<open>CustomHasValue\<close> and \<open>CustomHasField\<close>.\<close>

definition plain_field ::
  "(place \<Rightarrow> 'v \<Rightarrow> 'm slot \<Rightarrow> 'm slot) \<Rightarrow> (place \<Rightarrow> 'm slot \<Rightarrow> 'v dest \<Rightarrow> read_error + 'v) \<Rightarrow>
   'v \<Rightarrow> 'm \<Rightarrow> bool \<Rightarrow> ('v, 'm) field_type" where
  "plain_field b r v0 m0 u =
     \<lparr>CustomBuildField = b, CustomReadField = r, CustomHasValue = (\<lambda>_. True),
      CustomHasField = field_has, default_value = v0, zero_content = m0, by_update = u\<rparr>"

lemma plain_field_sel [simp]:
  "BuildField (plain_field b r v0 m0 u) = b" "ReadField (plain_field b r v0 m0 u) = r"
  "CustomHasField (plain_field b r v0 m0 u) = field_has" "zero_content (plain_field b r v0 m0 u) = m0"
  "default_value (plain_field b r v0 m0 u) = v0" "by_update (plain_field b r v0 m0 u) = u"
  by (auto simp: plain_field_def BuildField_def ReadField_def fun_eq_iff)

section \<open>The interface of a field type\<close>

text \<open>
  A field that nothing has been written to yet; \<open>blank\<close> allows the companion flag to be set.
\<close>

definition blank :: "('v, 'm) field_type \<Rightarrow> 'm slot \<Rightarrow> bool" where
  "blank c s \<longleftrightarrow> content s = zero_content c \<and> \<not> is_set s"

definition unset :: "('v, 'm) field_type \<Rightarrow> 'm slot \<Rightarrow> bool" where
  "unset c s \<longleftrightarrow> blank c s \<and> \<not> has_flag s"

lemma unset_new [simp]: "unset c (new_slot c)" and blank_new [simp]: "blank c (new_slot c)"
  by (simp_all add: unset_def blank_def new_slot_def)

lemma unset_blank: "unset c s \<Longrightarrow> blank c s"
  by (simp add: unset_def)

fun announced :: "place \<Rightarrow> 'm slot \<Rightarrow> bool" where
  "announced Elem s = True"
| "announced (Member a) s = (acc_optional a \<longrightarrow> has_flag s)"

text \<open>
  What the containers rely on: a value of \<open>ok\<close> built into an unset field at a place of
  \<open>fits\<close> is read back, whatever the destination held before. \<open>present_field\<close> is the stronger
  contract of types that have no null value: what was built also counts as there.
\<close>

locale field_codec =
  fixes c :: "('v, 'm) field_type"
    and ok :: "'v \<Rightarrow> bool"
    and fits :: "place \<Rightarrow> bool"
  assumes build_read: "ok v \<Longrightarrow> fits p \<Longrightarrow> unset c s \<Longrightarrow> ReadField c p (BuildField c p v s) d = Inr v"
begin

lemma dest_irrelevant:
  "ok v \<Longrightarrow> fits p \<Longrightarrow> unset c s \<Longrightarrow>
    ReadField c p (BuildField c p v s) (Update old) = ReadField c p (BuildField c p v s) Emplace"
  by (simp add: build_read)

lemma build_inj:
  "ok v \<Longrightarrow> ok w \<Longrightarrow> fits p \<Longrightarrow> unset c s \<Longrightarrow> BuildField c p v s = BuildField c p w s \<Longrightarrow> v = w"
  by (metis build_read sum.inject(2))

end

locale present_field = field_codec c ok fits
  for c :: "('v, 'm) field_type" and ok :: "'v \<Rightarrow> bool" and fits :: "place \<Rightarrow> bool" +
  assumes present_read: "ok v \<Longrightarrow> fits p \<Longrightarrow> blank c s \<Longrightarrow> ReadField c p (BuildField c p v s) d = Inr v"
    and present_has: "ok v \<Longrightarrow> fits p \<Longrightarrow> blank c s \<Longrightarrow> announced p s \<Longrightarrow>
      CustomHasField c p (BuildField c p v s)"

text \<open>
  A place at which a field that was not written reports that it is absent, so that a null value
  can be told from a default value. With the default \<open>CustomHasField\<close> these are the struct
  members with a \<open>has\<close> flag and those with a pointer of their own.
\<close>

fun nullable :: "place \<Rightarrow> bool" where
  "nullable Elem = False"
| "nullable (Member a) = (acc_optional a \<or> acc_boxed a)"

locale nullable_field = present_field c ok fits
  for c :: "('v, 'm) field_type" and ok :: "'v \<Rightarrow> bool" and fits :: "place \<Rightarrow> bool" +
  fixes null_at :: "place \<Rightarrow> bool"
  assumes absent: "null_at p \<Longrightarrow> unset c s \<Longrightarrow> \<not> CustomHasField c p s"

text \<open>
  Types that are built by storing an encoding and read by decoding it meet the stronger
  contract.
\<close>

definition stored_field :: "('v \<Rightarrow> 'm) \<Rightarrow> ('m \<Rightarrow> 'v dest \<Rightarrow> read_error + 'v) \<Rightarrow> 'v \<Rightarrow> 'm \<Rightarrow> bool \<Rightarrow>
  ('v, 'm) field_type" where
  "stored_field enc dec v0 m0 u =
     plain_field (\<lambda>_ v s. field_set (enc v) s) (\<lambda>_ s d. dec (content s) d) v0 m0 u"

lemma field_has_set: "announced p s \<Longrightarrow> field_has p (field_set x s)"
  by (cases p) (simp_all add: field_set_def)

lemma stored_present:
  assumes "\<And>v d. ok v \<Longrightarrow> dec (enc v) d = Inr v"
  shows "present_field (stored_field enc dec v0 m0 u) ok fits"
  by unfold_locales
    (simp_all add: stored_field_def assms field_has_set, simp_all add: field_set_def assms)

lemma field_has_unset: "nullable p \<Longrightarrow> unset c s \<Longrightarrow> \<not> field_has p s"
  by (cases p) (auto simp: unset_def blank_def)

text \<open>A type with the default \<open>CustomHasField\<close> has a null value at the nullable places.\<close>

lemma nullable_default:
  assumes "present_field c ok fits" "CustomHasField c = field_has"
  shows "nullable_field c ok fits nullable"
  by (intro nullable_field.intro nullable_field_axioms.intro assms(1))
    (simp add: assms(2) field_has_unset)

end
