(* ===== verification/Containers.thy ===== *)
theory Containers
  imports Codec
begin

text \<open>
  The field types of \<open>include/mp/type-vector.h\<close>, \<open>type-set.h\<close>, \<open>type-map.h\<close>, \<open>type-pair.h\<close>,
  \<open>type-tuple.h\<close>, \<open>type-struct.h\<close>, \<open>type-optional.h\<close>, \<open>type-pointer.h\<close> and \<open>type-message.h\<close>.
  Each takes the field types of its parts, as the template does, and meets the interface of
  \<open>Codec\<close> when they do.
\<close>

section \<open>Lists\<close>

text \<open>
  The loop that builds a list goes over the values and the index together; each element is
  built through \<open>ListOutput\<close> at its index.
\<close>

fun build_list :: "('v, 'm) field_type \<Rightarrow> nat \<Rightarrow> 'v list \<Rightarrow> 'm slot list \<Rightarrow> 'm slot list" where
  "build_list c i [] list = list"
| "build_list c i (v # vs) list =
     build_list c (i + 1) vs (list[i := BuildField c Elem v (list ! i)])"

definition init_list :: "('v, 'm) field_type \<Rightarrow> nat \<Rightarrow> 'm slot list" where
  "init_list c n = replicate n (new_slot c)"

definition vector_build ::
  "('v, 'm) field_type \<Rightarrow> place \<Rightarrow> 'v list \<Rightarrow> 'm slot list slot \<Rightarrow> 'm slot list slot" where
  "vector_build c p value s = field_set (build_list c 0 value (init_list c (length value))) s"

fun read_items :: "('v, 'm) field_type \<Rightarrow> 'm slot list \<Rightarrow> 'v list \<Rightarrow> read_error + 'v list" where
  "read_items c [] value = Inr value"
| "read_items c (item # items) value =
     bind_res (ReadField c Elem item Emplace) (\<lambda>v. read_items c items (value @ [v]))"

definition vector_read ::
  "('v, 'm) field_type \<Rightarrow> place \<Rightarrow> 'm slot list slot \<Rightarrow> 'v list dest \<Rightarrow> read_error + 'v list" where
  "vector_read c p s d = dest_update [] (\<lambda>value. read_items c (content s) []) d"

definition vector_field :: "('v, 'm) field_type \<Rightarrow> ('v list, 'm slot list) field_type" where
  "vector_field c = plain_field (vector_build c) (vector_read c) [] [] True"

text \<open>A \<open>std::set\<close> is iterated in order and filled by \<open>emplace\<close>, which ignores what is there.\<close>

definition set_build ::
  "('v::linorder, 'm) field_type \<Rightarrow> place \<Rightarrow> 'v set \<Rightarrow> 'm slot list slot \<Rightarrow> 'm slot list slot" where
  "set_build c p value s =
     field_set (build_list c 0 (sorted_list_of_set value) (init_list c (card value))) s"

fun read_set_items :: "('v, 'm) field_type \<Rightarrow> 'm slot list \<Rightarrow> 'v set \<Rightarrow> read_error + 'v set" where
  "read_set_items c [] value = Inr value"
| "read_set_items c (item # items) value =
     bind_res (ReadField c Elem item Emplace) (\<lambda>v. read_set_items c items (insert v value))"

definition set_read ::
  "('v, 'm) field_type \<Rightarrow> place \<Rightarrow> 'm slot list slot \<Rightarrow> 'v set dest \<Rightarrow> read_error + 'v set" where
  "set_read c p s d = dest_update {} (\<lambda>value. read_set_items c (content s) {}) d"

definition set_field :: "('v::linorder, 'm) field_type \<Rightarrow> ('v set, 'm slot list) field_type" where
  "set_field c = plain_field (set_build c) (set_read c) {} [] True"

section \<open>Pairs, tuples and maps\<close>

type_synonym ('a, 'b) pair_content = "'a slot \<times> 'b slot"

definition pair_init ::
  "('k, 'a) field_type \<Rightarrow> ('v, 'b) field_type \<Rightarrow> ('a, 'b) pair_content" where
  "pair_init ck cv = (new_slot ck, new_slot cv)"

definition pair_build ::
  "accessor \<Rightarrow> ('k, 'a) field_type \<Rightarrow> accessor \<Rightarrow> ('v, 'b) field_type \<Rightarrow> place \<Rightarrow> 'k \<times> 'v \<Rightarrow>
   ('a, 'b) pair_content slot \<Rightarrow> ('a, 'b) pair_content slot" where
  "pair_build ak ck av cv p value s =
     (let (first, second) = pair_init ck cv;
          first = BuildField ck (Member ak) (fst value) first;
          second = BuildField cv (Member av) (snd value) second
      in field_set (first, second) s)"

text \<open>
  Reading a pair nests the two reads: the second member is read when the first one asks for its
  destination, which for a type read by \<open>update\<close> is before its own content is read.
\<close>

definition pair_read ::
  "accessor \<Rightarrow> ('k, 'a) field_type \<Rightarrow> accessor \<Rightarrow> ('v, 'b) field_type \<Rightarrow> place \<Rightarrow>
   ('a, 'b) pair_content slot \<Rightarrow> ('k \<times> 'v) dest \<Rightarrow> read_error + 'k \<times> 'v" where
  "pair_read ak ck av cv p s d =
     (let key = ReadField ck (Member ak) (fst (content s)) Emplace;
          val = ReadField cv (Member av) (snd (content s)) Emplace
      in if by_update ck
         then bind_res val (\<lambda>v. bind_res key (\<lambda>k. dest_construct (k, v) d))
         else bind_res key (\<lambda>k. bind_res val (\<lambda>v. dest_construct (k, v) d)))"

definition pair_field ::
  "accessor \<Rightarrow> ('k, 'a) field_type \<Rightarrow> accessor \<Rightarrow> ('v, 'b) field_type \<Rightarrow>
   ('k \<times> 'v, ('a, 'b) pair_content) field_type" where
  "pair_field ak ck av cv =
     plain_field (pair_build ak ck av cv) (pair_read ak ck av cv)
       (default_value ck, default_value cv) (pair_init ck cv) False"

definition tuple_read ::
  "accessor \<Rightarrow> ('k, 'a) field_type \<Rightarrow> accessor \<Rightarrow> ('v, 'b) field_type \<Rightarrow> place \<Rightarrow>
   ('a, 'b) pair_content slot \<Rightarrow> ('k \<times> 'v) dest \<Rightarrow> read_error + 'k \<times> 'v" where
  "tuple_read ak ck av cv p s d =
     dest_update (default_value ck, default_value cv)
       (\<lambda>value.
          bind_res (ReadField ck (Member ak) (fst (content s)) (Update (fst value))) (\<lambda>k.
          bind_res (ReadField cv (Member av) (snd (content s)) (Update (snd value))) (\<lambda>v.
          Inr (k, v)))) d"

definition tuple_field ::
  "accessor \<Rightarrow> ('k, 'a) field_type \<Rightarrow> accessor \<Rightarrow> ('v, 'b) field_type \<Rightarrow>
   ('k \<times> 'v, ('a, 'b) pair_content) field_type" where
  "tuple_field ak ck av cv =
     plain_field (pair_build ak ck av cv) (tuple_read ak ck av cv)
       (default_value ck, default_value cv) (pair_init ck cv) True"

text \<open>
  A \<open>std::map\<close> is built as the list of its entries in key order. Reading goes through
  \<open>emplace\<close>: for a key that is there already, nothing is inserted, but a value read by
  \<open>update\<close> is then read into the existing element.
\<close>

definition map_entries :: "('k::linorder \<rightharpoonup> 'v) \<Rightarrow> ('k \<times> 'v) list" where
  "map_entries m = map (\<lambda>k. (k, the (m k))) (sorted_list_of_set (dom m))"

definition map_build ::
  "accessor \<Rightarrow> ('k::linorder, 'a) field_type \<Rightarrow> accessor \<Rightarrow> ('v, 'b) field_type \<Rightarrow> place \<Rightarrow>
   ('k \<rightharpoonup> 'v) \<Rightarrow> ('a, 'b) pair_content slot list slot \<Rightarrow> ('a, 'b) pair_content slot list slot" where
  "map_build ak ck av cv p value s =
     (let c = pair_field ak ck av cv
      in field_set (build_list c 0 (map_entries value) (init_list c (card (dom value)))) s)"

definition map_emplace ::
  "('v, 'b) field_type \<Rightarrow> accessor \<Rightarrow> 'b slot \<Rightarrow> 'k \<Rightarrow> ('k \<rightharpoonup> 'v) \<Rightarrow> read_error + ('k \<rightharpoonup> 'v)" where
  "map_emplace cv av item k value =
     (case value k of
        None \<Rightarrow> bind_res (ReadField cv (Member av) item Emplace) (\<lambda>v. Inr (value(k \<mapsto> v)))
      | Some old \<Rightarrow>
          if by_update cv
          then bind_res (ReadField cv (Member av) item (Update old)) (\<lambda>v. Inr (value(k \<mapsto> v)))
          else bind_res (ReadField cv (Member av) item Emplace) (\<lambda>v. Inr value))"

fun read_map_items ::
  "accessor \<Rightarrow> ('k, 'a) field_type \<Rightarrow> accessor \<Rightarrow> ('v, 'b) field_type \<Rightarrow>
   ('a, 'b) pair_content slot list \<Rightarrow> ('k \<rightharpoonup> 'v) \<Rightarrow> read_error + ('k \<rightharpoonup> 'v)" where
  "read_map_items ak ck av cv [] value = Inr value"
| "read_map_items ak ck av cv (item # items) value =
     bind_res (ReadField ck (Member ak) (fst (content item)) Emplace) (\<lambda>k.
     bind_res (map_emplace cv av (snd (content item)) k value) (\<lambda>value'.
     read_map_items ak ck av cv items value'))"

definition map_read ::
  "accessor \<Rightarrow> ('k, 'a) field_type \<Rightarrow> accessor \<Rightarrow> ('v, 'b) field_type \<Rightarrow> place \<Rightarrow>
   ('a, 'b) pair_content slot list slot \<Rightarrow> ('k \<rightharpoonup> 'v) dest \<Rightarrow> read_error + ('k \<rightharpoonup> 'v)" where
  "map_read ak ck av cv p s d =
     dest_update Map.empty (\<lambda>value. read_map_items ak ck av cv (content s) Map.empty) d"

definition map_field ::
  "accessor \<Rightarrow> ('k::linorder, 'a) field_type \<Rightarrow> accessor \<Rightarrow> ('v, 'b) field_type \<Rightarrow>
   ('k \<rightharpoonup> 'v, ('a, 'b) pair_content slot list) field_type" where
  "map_field ak ck av cv = plain_field (map_build ak ck av cv) (map_read ak ck av cv) Map.empty [] True"

section \<open>Structs\<close>

text \<open>
  The members of a struct, with their accessors, in order; values and slots of the members
  share one type each.
\<close>

type_synonym ('u, 'w) members = "(accessor \<times> ('u, 'w) field_type) list"

fun BuildOne :: "nat \<Rightarrow> ('u, 'w) members \<Rightarrow> 'w slot list \<Rightarrow> 'u list \<Rightarrow> 'w slot list" where
  "BuildOne index [] output value = output"
| "BuildOne index ((a, c) # fs) output value =
     BuildOne (index + 1) fs
       (output[index := BuildField c (Member a) (value ! index) (output ! index)]) value"

definition struct_init :: "('u, 'w) members \<Rightarrow> 'w slot list" where
  "struct_init fs = map (\<lambda>(a, c). new_slot c) fs"

definition struct_build ::
  "('u, 'w) members \<Rightarrow> place \<Rightarrow> 'u list \<Rightarrow> 'w slot list slot \<Rightarrow> 'w slot list slot" where
  "struct_build fs p value s = field_set (BuildOne 0 fs (struct_init fs) value) s"

fun ReadOne :: "nat \<Rightarrow> ('u, 'w) members \<Rightarrow> 'w slot list \<Rightarrow> 'u list \<Rightarrow> read_error + 'u list" where
  "ReadOne index [] input value = Inr value"
| "ReadOne index ((a, c) # fs) input value =
     bind_res (ReadField c (Member a) (input ! index) (Update (value ! index))) (\<lambda>v.
     ReadOne (index + 1) fs input (value[index := v]))"

definition struct_read ::
  "('u, 'w) members \<Rightarrow> place \<Rightarrow> 'w slot list slot \<Rightarrow> 'u list dest \<Rightarrow> read_error + 'u list" where
  "struct_read fs p s d =
     dest_update (map (\<lambda>(a, c). default_value c) fs)
       (\<lambda>value. ReadOne 0 fs (content s) value) d"

definition struct_field :: "('u, 'w) members \<Rightarrow> ('u list, 'w slot list) field_type" where
  "struct_field fs =
     plain_field (struct_build fs) (struct_read fs)
       (map (\<lambda>(a, c). default_value c) fs) (struct_init fs) True"

section \<open>Types with a null value\<close>

definition optional_build ::
  "('v, 'm) field_type \<Rightarrow> place \<Rightarrow> 'v option \<Rightarrow> 'm slot \<Rightarrow> 'm slot" where
  "optional_build c p value s =
     (case value of None \<Rightarrow> s | Some v \<Rightarrow> BuildField c p v (setHas p s))"

definition optional_read ::
  "('v, 'm) field_type \<Rightarrow> place \<Rightarrow> 'm slot \<Rightarrow> 'v option dest \<Rightarrow> read_error + 'v option" where
  "optional_read c p s d =
     dest_update None
       (\<lambda>value.
          if \<not> CustomHasField c p s then Inr None
          else (case value of
                  Some old \<Rightarrow> bind_res (ReadField c p s (Update old)) (\<lambda>v. Inr (Some v))
                | None \<Rightarrow> bind_res (ReadField c p s Emplace) (\<lambda>v. Inr (Some v)))) d"

definition optional_field :: "('v, 'm) field_type \<Rightarrow> ('v option, 'm) field_type" where
  "optional_field c = plain_field (optional_build c) (optional_read c) None (zero_content c) True"

text \<open>
  Pointers and shared pointers, a null pointer being \<open>None\<close>. Nothing is written for a null
  pointer. A raw pointer is read into the object it points to, if any.
\<close>

definition pointer_build ::
  "('v, 'm) field_type \<Rightarrow> place \<Rightarrow> 'v option \<Rightarrow> 'm slot \<Rightarrow> 'm slot" where
  "pointer_build c p value s = (case value of None \<Rightarrow> s | Some v \<Rightarrow> BuildField c p v s)"

definition pointer_read ::
  "('v, 'm) field_type \<Rightarrow> place \<Rightarrow> 'm slot \<Rightarrow> 'v option dest \<Rightarrow> read_error + 'v option" where
  "pointer_read c p s d =
     dest_update None
       (\<lambda>value. case value of
          None \<Rightarrow> Inr None
        | Some old \<Rightarrow> bind_res (ReadField c p s (Update old)) (\<lambda>v. Inr (Some v))) d"

definition pointer_field :: "('v, 'm) field_type \<Rightarrow> ('v option, 'm) field_type" where
  "pointer_field c = plain_field (pointer_build c) (pointer_read c) None (zero_content c) True"

definition shared_ptr_read ::
  "('v, 'm) field_type \<Rightarrow> place \<Rightarrow> 'm slot \<Rightarrow> 'v option dest \<Rightarrow> read_error + 'v option" where
  "shared_ptr_read c p s d =
     dest_update None
       (\<lambda>value.
          if \<not> CustomHasField c p s then Inr None
          else (case value of
                  Some old \<Rightarrow> bind_res (ReadField c p s (Update old)) (\<lambda>v. Inr (Some v))
                | None \<Rightarrow> bind_res (ReadField c p s Emplace) (\<lambda>v. Inr (Some v)))) d"

definition shared_ptr_const_read ::
  "('v, 'm) field_type \<Rightarrow> place \<Rightarrow> 'm slot \<Rightarrow> 'v option dest \<Rightarrow> read_error + 'v option" where
  "shared_ptr_const_read c p s d =
     dest_update None
       (\<lambda>value.
          if \<not> CustomHasField c p s then Inr None
          else bind_res (ReadField c p s Emplace) (\<lambda>v. Inr (Some v))) d"

definition shared_ptr_field :: "('v, 'm) field_type \<Rightarrow> ('v option, 'm) field_type" where
  "shared_ptr_field c = plain_field (pointer_build c) (shared_ptr_read c) None (zero_content c) True"

definition shared_ptr_const_field :: "('v, 'm) field_type \<Rightarrow> ('v option, 'm) field_type" where
  "shared_ptr_const_field c =
     plain_field (pointer_build c) (shared_ptr_const_read c) None (zero_content c) True"

section \<open>Types with their own message functions\<close>

text \<open>
  \<open>CustomBuildMessage\<close> and \<open>CustomReadMessage\<close> are supplied by the application: \<open>bm\<close> fills a
  new message, \<open>rm\<close> updates a value from one.
\<close>

definition message_field ::
  "('v \<Rightarrow> 'm) \<Rightarrow> ('m \<Rightarrow> 'v \<Rightarrow> read_error + 'v) \<Rightarrow> 'v \<Rightarrow> 'm \<Rightarrow> ('v, 'm) field_type" where
  "message_field bm rm v0 m0 =
     plain_field (\<lambda>p value s. field_set (bm value) s)
       (\<lambda>p s d. dest_update v0 (\<lambda>value. if field_has p s then rm (content s) value else Inr value) d)
       v0 m0 True"

end
