(* ===== verification/Roundtrip.thy ===== *)
theory Roundtrip
  imports Containers
begin

text \<open>
  The field types of \<open>Containers\<close> meet the interface of \<open>Codec\<close> when their parts do: what is
  built is read back, into any destination.
\<close>

section \<open>Lists\<close>

lemma build_list_fill:
  "build_list c (length pre) vs (pre @ replicate (length vs) x) =
     pre @ map (\<lambda>v. BuildField c Elem v x) vs"
proof (induction vs arbitrary: pre)
  case (Cons v vs)
  have "build_list c (length pre) (v # vs) (pre @ replicate (length (v # vs)) x) =
      build_list c (length (pre @ [BuildField c Elem v x])) vs
        ((pre @ [BuildField c Elem v x]) @ replicate (length vs) x)"
    by (simp add: list_update_append)
  then show ?case
    using Cons.IH [of "pre @ [BuildField c Elem v x]"] by simp
qed simp

lemma build_list_init:
  "build_list c 0 vs (init_list c (length vs)) = map (\<lambda>v. BuildField c Elem v (new_slot c)) vs"
  using build_list_fill [of c "[]" vs "new_slot c"] by (simp add: init_list_def)

context field_codec
begin

lemma elem_read: "ok v \<Longrightarrow> fits Elem \<Longrightarrow> ReadField c Elem (BuildField c Elem v (new_slot c)) d = Inr v"
  by (simp add: build_read)

lemma read_items_built:
  "fits Elem \<Longrightarrow> \<forall>v\<in>set vs. ok v \<Longrightarrow>
    read_items c (map (\<lambda>v. BuildField c Elem v (new_slot c)) vs) acc = Inr (acc @ vs)"
  by (induction vs arbitrary: acc) (simp_all add: elem_read)

lemma read_set_items_built:
  "fits Elem \<Longrightarrow> \<forall>v\<in>set vs. ok v \<Longrightarrow>
    read_set_items c (map (\<lambda>v. BuildField c Elem v (new_slot c)) vs) acc = Inr (acc \<union> set vs)"
  by (induction vs arbitrary: acc) (simp_all add: elem_read)

lemma member_read:
  "ok v \<Longrightarrow> fits (Member a) \<Longrightarrow>
    ReadField c (Member a) (BuildField c (Member a) v (new_slot c)) d = Inr v"
  by (simp add: build_read)

end

text \<open>
  The common pattern: a type whose fields are always set by \<open>field_set\<close>, and whose content is
  read back, meets the stronger contract.
\<close>

lemma set_content_present:
  assumes "\<And>p v s. ok v \<Longrightarrow> b p v s = field_set (enc v) s"
    and "\<And>p v s d. ok v \<Longrightarrow> content s = enc v \<Longrightarrow> r p s d = Inr v"
  shows "present_field (plain_field b r v0 m0 u) ok (\<lambda>_. True)"
  by unfold_locales (simp_all add: assms field_has_set, simp_all add: field_set_def assms)

lemma vector_present:
  assumes "field_codec c ok fits" "fits Elem"
  shows "present_field (vector_field c) (\<lambda>vs. \<forall>v\<in>set vs. ok v) (\<lambda>_. True)"
  unfolding vector_field_def
proof (rule set_content_present)
  show "vector_build c p vs s = field_set (map (\<lambda>v. BuildField c Elem v (new_slot c)) vs) s" for p vs s
    by (simp add: vector_build_def build_list_init)
  show "vector_read c p s d = Inr vs"
    if "\<forall>v\<in>set vs. ok v" "content s = map (\<lambda>v. BuildField c Elem v (new_slot c)) vs" for p vs s d
    using field_codec.read_items_built [OF assms(1,2) that(1)] that(2)
    by (simp add: vector_read_def dest_update_const)
qed

lemma set_present:
  fixes c :: "('v::linorder, 'm) field_type"
  assumes "field_codec c ok fits" "fits Elem"
  shows "present_field (set_field c) (\<lambda>V. finite V \<and> (\<forall>v\<in>V. ok v)) (\<lambda>_. True)"
  unfolding set_field_def
proof (rule set_content_present)
  show "set_build c p V s =
      field_set (map (\<lambda>v. BuildField c Elem v (new_slot c)) (sorted_list_of_set V)) s" for p V s
    using build_list_init [of c "sorted_list_of_set V"] by (simp add: set_build_def)
  show "set_read c p s d = Inr V"
    if "finite V \<and> (\<forall>v\<in>V. ok v)"
      "content s = map (\<lambda>v. BuildField c Elem v (new_slot c)) (sorted_list_of_set V)" for p V s d
    using field_codec.read_set_items_built [OF assms, of "sorted_list_of_set V"] that
    by (simp add: set_read_def dest_update_const)
qed

section \<open>Pairs, tuples and maps\<close>

definition pair_enc ::
  "accessor \<Rightarrow> ('k, 'a) field_type \<Rightarrow> accessor \<Rightarrow> ('v, 'b) field_type \<Rightarrow> 'k \<times> 'v \<Rightarrow> ('a, 'b) pair_content" where
  "pair_enc ak ck av cv value =
     (BuildField ck (Member ak) (fst value) (new_slot ck), BuildField cv (Member av) (snd value) (new_slot cv))"

lemma pair_build_enc: "pair_build ak ck av cv p value s = field_set (pair_enc ak ck av cv value) s"
  by (simp add: pair_build_def pair_enc_def pair_init_def)

lemma pair_present:
  fixes ck :: "('k, 'a) field_type" and cv :: "('v, 'b) field_type"
  assumes "field_codec ck okk fk" "fk (Member ak)" "field_codec cv okv fv" "fv (Member av)"
  shows "present_field (pair_field ak ck av cv) (\<lambda>(k, v). okk k \<and> okv v) (\<lambda>_. True)"
  unfolding pair_field_def
proof (rule set_content_present, rule pair_build_enc)
  fix p kv d and s :: "('a, 'b) pair_content slot"
  assume "case kv of (k, v) \<Rightarrow> okk k \<and> okv v" and "content s = pair_enc ak ck av cv kv"
  then show "pair_read ak ck av cv p s d = Inr kv"
    using field_codec.member_read [OF assms(1) _ assms(2)] field_codec.member_read [OF assms(3) _ assms(4)]
    by (cases kv) (simp add: pair_read_def pair_enc_def Let_def)
qed

lemma tuple_present:
  fixes ck :: "('k, 'a) field_type" and cv :: "('v, 'b) field_type"
  assumes "field_codec ck okk fk" "fk (Member ak)" "field_codec cv okv fv" "fv (Member av)"
  shows "present_field (tuple_field ak ck av cv) (\<lambda>(k, v). okk k \<and> okv v) (\<lambda>_. True)"
  unfolding tuple_field_def
proof (rule set_content_present, rule pair_build_enc)
  fix p kv d and s :: "('a, 'b) pair_content slot"
  assume "case kv of (k, v) \<Rightarrow> okk k \<and> okv v" and "content s = pair_enc ak ck av cv kv"
  then show "tuple_read ak ck av cv p s d = Inr kv"
    using field_codec.member_read [OF assms(1) _ assms(2)] field_codec.member_read [OF assms(3) _ assms(4)]
    by (cases kv) (simp add: tuple_read_def pair_enc_def dest_update_const)
qed

lemma map_entries_props:
  assumes "finite (dom m)"
  shows "map_of (map_entries m) = m" "distinct (map fst (map_entries m))"
    "length (map_entries m) = card (dom m)"
    "(k, v) \<in> set (map_entries m) \<Longrightarrow> m k = Some v"
proof -
  have "map_of (map_entries m) k = m k" for k
    using assms by (cases "m k") (auto simp: map_entries_def map_of_map_restrict restrict_map_def)
  then show "map_of (map_entries m) = m" by blast
  show "distinct (map fst (map_entries m))"
    by (simp add: map_entries_def comp_def)
  show "length (map_entries m) = card (dom m)"
    by (simp add: map_entries_def)
  show "(k, v) \<in> set (map_entries m) \<Longrightarrow> m k = Some v"
    using assms by (auto simp: map_entries_def)
qed

lemma read_map_items_built:
  assumes "field_codec ck okk fk" "fk (Member ak)" "field_codec cv okv fv" "fv (Member av)"
    and enc: "\<And>kv. content (enc kv) = pair_enc ak ck av cv kv"
    and "\<forall>(k, v)\<in>set kvs. okk k \<and> okv v" "distinct (map fst kvs)" "fst ` set kvs \<inter> dom m = {}"
  shows "read_map_items ak ck av cv (map enc kvs) m = Inr (m ++ map_of kvs)"
  using assms(6-)
proof (induction kvs arbitrary: m)
  case (Cons kv kvs)
  obtain k v where kv: "kv = (k, v)" by (cases kv)
  have "m k = None" using Cons.prems(3) kv by auto
  moreover have "ReadField ck (Member ak) (BuildField ck (Member ak) k (new_slot ck)) Emplace = Inr k"
    "ReadField cv (Member av) (BuildField cv (Member av) v (new_slot cv)) Emplace = Inr v"
    using Cons.prems(1) kv field_codec.member_read [OF assms(1) _ assms(2)]
      field_codec.member_read [OF assms(3) _ assms(4)] by auto
  ultimately have "read_map_items ak ck av cv (map enc (kv # kvs)) m =
      read_map_items ak ck av cv (map enc kvs) (m(k \<mapsto> v))"
    by (simp add: enc kv pair_enc_def map_emplace_def)
  also have "\<dots> = Inr (m(k \<mapsto> v) ++ map_of kvs)"
  proof (rule Cons.IH)
    show "fst ` set kvs \<inter> dom (m(k \<mapsto> v)) = {}"
      using Cons.prems(2,3) kv by (simp add: disjoint_iff)
  qed (use Cons.prems kv in simp_all)
  also have "m(k \<mapsto> v) ++ map_of kvs = m ++ map_of (kv # kvs)"
  proof -
    have "map_of kvs k = None" using Cons.prems(2) kv by (simp add: map_of_eq_None_iff)
    then show ?thesis by (auto simp: kv map_add_def fun_eq_iff split: option.splits)
  qed
  finally show ?case .
qed simp

lemma map_present:
  fixes ck :: "('k::linorder, 'a) field_type"
  assumes "field_codec ck okk fk" "fk (Member ak)" "field_codec cv okv fv" "fv (Member av)"
  shows "present_field (map_field ak ck av cv)
    (\<lambda>m. finite (dom m) \<and> (\<forall>k v. m k = Some v \<longrightarrow> okk k \<and> okv v)) (\<lambda>_. True)"
  unfolding map_field_def
proof (rule set_content_present)
  let ?c = "pair_field ak ck av cv"
  let ?enc = "\<lambda>m. map (\<lambda>kv. field_set (pair_enc ak ck av cv kv) (new_slot ?c)) (map_entries m)"
  have b: "BuildField ?c Elem kv (new_slot ?c) = field_set (pair_enc ak ck av cv kv) (new_slot ?c)" for kv
    by (simp add: pair_field_def pair_build_enc)
  show "map_build ak ck av cv p m s = field_set (?enc m) s"
    if "finite (dom m) \<and> (\<forall>k v. m k = Some v \<longrightarrow> okk k \<and> okv v)" for p m s
  proof -
    have "card (dom m) = length (map_entries m)"
      using that map_entries_props(3) [of m] by simp
    then show ?thesis
      using build_list_init [of ?c "map_entries m"] by (simp only: map_build_def Let_def b)
  qed
  show "map_read ak ck av cv p s d = Inr m"
    if m: "finite (dom m) \<and> (\<forall>k v. m k = Some v \<longrightarrow> okk k \<and> okv v)" and s: "content s = ?enc m" for p m s d
  proof -
    note props = map_entries_props [of m]
    have entries: "\<forall>(k, v)\<in>set (map_entries m). okk k \<and> okv v"
      using m props(4) by blast
    have "read_map_items ak ck av cv (content s) Map.empty = Inr (Map.empty ++ map_of (map_entries m))"
      unfolding s
    proof (rule read_map_items_built [OF assms _ entries])
      show "content (field_set (pair_enc ak ck av cv kv) (new_slot ?c)) = pair_enc ak ck av cv kv" for kv
        by (simp add: field_set_def)
    qed (use m props(2) in simp_all)
    then show ?thesis
      using m props(1) by (simp add: map_read_def dest_update_const)
  qed
qed

section \<open>Structs\<close>

text \<open>Each member is of a type that meets the interface at its place.\<close>

definition member_ok :: "accessor \<times> ('u, 'w) field_type \<Rightarrow> ('u \<Rightarrow> bool) \<Rightarrow> bool" where
  "member_ok m ok \<longleftrightarrow> (\<exists>fits. field_codec (snd m) ok fits \<and> fits (Member (fst m)))"

lemma member_ok_read:
  "member_ok (a, c) ok \<Longrightarrow> ok v \<Longrightarrow>
    ReadField c (Member a) (BuildField c (Member a) v (new_slot c)) d = Inr v"
  by (auto simp: member_ok_def intro: field_codec.member_read)

lemma BuildOne_eq:
  "length vs = length pre + length fs \<Longrightarrow>
    BuildOne (length pre) fs (pre @ struct_init fs) vs =
    pre @ map2 (\<lambda>(a, c) v. BuildField c (Member a) v (new_slot c)) fs (drop (length pre) vs)"
proof (induction fs arbitrary: pre)
  case (Cons f fs)
  obtain a c where f: "f = (a, c)" by (cases f)
  have d: "drop (length pre) vs = vs ! length pre # drop (Suc (length pre)) vs"
    using Cons.prems by (intro Cons_nth_drop_Suc [symmetric]) simp
  let ?x = "BuildField c (Member a) (vs ! length pre) (new_slot c)"
  have "BuildOne (length pre) (f # fs) (pre @ struct_init (f # fs)) vs =
      BuildOne (length (pre @ [?x])) fs ((pre @ [?x]) @ struct_init fs) vs"
    by (simp add: f struct_init_def list_update_append)
  then show ?case
    using Cons.IH [of "pre @ [?x]"] Cons.prems by (simp add: f d)
qed (simp add: struct_init_def)

lemma ReadOne_eq:
  assumes "list_all2 member_ok fs oks" "list_all2 (\<lambda>ok v. ok v) oks vs" "length old = length fs"
    and "length pre' = length pre"
  shows "ReadOne (length pre) fs
      (pre' @ map2 (\<lambda>(a, c) v. BuildField c (Member a) v (new_slot c)) fs vs) (pre @ old) =
    Inr (pre @ vs)"
  using assms
proof (induction arbitrary: vs pre pre' old rule: list_all2_induct)
  case (Cons f fs ok oks)
  obtain a c where f: "f = (a, c)" by (cases f)
  obtain v ws where vs: "vs = v # ws" "ok v" "list_all2 (\<lambda>ok v. ok v) oks ws"
    using Cons.prems(1) by (cases vs) auto
  obtain o1 os where old: "old = o1 # os" "length os = length fs"
    using Cons.prems(2) by (cases old) auto
  let ?x = "BuildField c (Member a) v (new_slot c)"
  have r: "ReadField c (Member a) ?x d = Inr v" for d
    using Cons.hyps(1) vs(2) by (intro member_ok_read [of a c ok]) (simp_all add: f)
  have nth: "(pre' @ ?x # ys) ! length pre = ?x" for ys
    using Cons.prems(3) nth_append_length [of pre'] by metis
  have "ReadOne (length pre) (f # fs)
      (pre' @ map2 (\<lambda>(a, c) v. BuildField c (Member a) v (new_slot c)) (f # fs) vs) (pre @ old) =
    ReadOne (length (pre @ [v])) fs
      ((pre' @ [?x]) @ map2 (\<lambda>(a, c) v. BuildField c (Member a) v (new_slot c)) fs ws) ((pre @ [v]) @ os)"
    by (simp add: f vs(1) old(1) nth r list_update_append)
  then show ?case
    using Cons.IH [OF vs(3) old(2), of "pre' @ [?x]" "pre @ [v]"] Cons.prems(3) vs(1) by simp
qed simp

text \<open>A struct may be read into an object whose members hold anything.\<close>

lemma struct_read_built:
  assumes "list_all2 member_ok fs oks" "list_all2 (\<lambda>ok v. ok v) oks vs"
    and "content s = BuildOne 0 fs (struct_init fs) vs" "\<And>old. d = Update old \<Longrightarrow> length old = length fs"
  shows "struct_read fs p s d = Inr vs"
proof -
  have "length vs = length fs"
    using assms(1,2) by (simp add: list_all2_lengthD)
  then have c: "content s = map2 (\<lambda>(a, c) v. BuildField c (Member a) v (new_slot c)) fs vs"
    using BuildOne_eq [of vs "[]" fs] assms(3) by simp
  have "ReadOne 0 fs (content s) old = Inr vs" if "length old = length fs" for old
    using ReadOne_eq [OF assms(1,2) that, of "[]" "[]"] by (simp add: c)
  then show ?thesis
    using assms(4) by (cases d) (simp_all add: struct_read_def)
qed

section \<open>Types with a null value\<close>

lemma optional_codec:
  assumes "nullable_field c ok fits null_at"
  shows "field_codec (optional_field c) (\<lambda>x. \<forall>v. x = Some v \<longrightarrow> ok v)
    (\<lambda>p. fits p \<and> null_at p \<and> p \<noteq> Elem)"
proof unfold_locales
  fix x p s d
  assume x: "\<forall>v. x = Some v \<longrightarrow> ok v" and p: "fits p \<and> null_at p \<and> p \<noteq> Elem"
    and s: "unset (optional_field c) s"
  have s': "unset c s" "blank c (setHas p s)" "announced p (setHas p s)"
    using s by (cases p; simp add: unset_def blank_def optional_field_def)+
  show "ReadField (optional_field c) p (BuildField (optional_field c) p x s) d = Inr x"
  proof (cases x)
    case None
    then show ?thesis
      using nullable_field.absent [OF assms] p s'(1)
      by (simp add: optional_field_def optional_build_def optional_read_def dest_update_const)
  next
    case (Some v)
    have pf: "present_field c ok fits" using assms by (rule nullable_field.axioms)
    have "CustomHasField c p (BuildField c p v (setHas p s))"
      using present_field.present_has [OF pf] x p s' Some by blast
    moreover have "ReadField c p (BuildField c p v (setHas p s)) e = Inr v" for e
      using present_field.present_read [OF pf] x p s' Some by blast
    ultimately show ?thesis
      using Some
      by (cases d) (simp_all add: optional_field_def optional_build_def optional_read_def split: option.splits)
  qed
qed

text \<open>
  A shared pointer is not announced when it is built, so it may only be at a place without a
  \<open>has\<close> flag, and there it is told from null by the pointer of the field itself, or by an
  overload of \<open>CustomHasField\<close>.
\<close>

definition shared_ptr_place :: "place \<Rightarrow> bool" where
  "shared_ptr_place p \<longleftrightarrow> (case p of Elem \<Rightarrow> True | Member a \<Rightarrow> \<not> acc_optional a)"

lemma shared_ptr_read_any:
  "(\<And>e. ReadField c p s e = r) \<Longrightarrow>
    shared_ptr_read c p s d =
      (if CustomHasField c p s then bind_res r (\<lambda>v. Inr (Some v)) else Inr None) \<and>
    shared_ptr_const_read c p s d =
      (if CustomHasField c p s then bind_res r (\<lambda>v. Inr (Some v)) else Inr None)"
  by (cases d) (simp_all add: shared_ptr_read_def shared_ptr_const_read_def split: option.splits)

lemma shared_ptr_roundtrip:
  assumes "nullable_field c ok fits null_at" "\<forall>v. x = Some v \<longrightarrow> ok v" "fits p" "null_at p"
    "shared_ptr_place p" "unset c s"
  shows "shared_ptr_read c p (pointer_build c p x s) d = Inr x"
    and "shared_ptr_const_read c p (pointer_build c p x s) d = Inr x"
proof -
  have pf: "present_field c ok fits" using assms(1) by (rule nullable_field.axioms)
  have s: "blank c s" "announced p s"
    using assms(5,6) by (cases p; simp add: unset_def shared_ptr_place_def)+
  have "shared_ptr_read c p (pointer_build c p x s) d = Inr x \<and>
      shared_ptr_const_read c p (pointer_build c p x s) d = Inr x"
  proof (cases x)
    case None
    have "\<not> CustomHasField c p s" using assms by (intro nullable_field.absent)
    then show ?thesis
      using None by (cases d) (simp_all add: pointer_build_def shared_ptr_read_def shared_ptr_const_read_def)
  next
    case (Some v)
    have "CustomHasField c p (BuildField c p v s)"
      using present_field.present_has [OF pf] assms(2,3) s Some by blast
    moreover have "ReadField c p (BuildField c p v s) e = Inr v" for e
      using present_field.present_read [OF pf] assms(2,3) s Some by blast
    ultimately show ?thesis
      using Some shared_ptr_read_any [of c p "BuildField c p v s" "Inr v" d]
      by (simp add: pointer_build_def)
  qed
  then show "shared_ptr_read c p (pointer_build c p x s) d = Inr x"
    and "shared_ptr_const_read c p (pointer_build c p x s) d = Inr x" by simp_all
qed

lemma shared_ptr_codec:
  assumes "nullable_field c ok fits null_at"
  shows "field_codec (shared_ptr_field c) (\<lambda>x. \<forall>v. x = Some v \<longrightarrow> ok v)
      (\<lambda>p. fits p \<and> null_at p \<and> shared_ptr_place p)"
    and "field_codec (shared_ptr_const_field c) (\<lambda>x. \<forall>v. x = Some v \<longrightarrow> ok v)
      (\<lambda>p. fits p \<and> null_at p \<and> shared_ptr_place p)"
  by (unfold_locales; simp add: shared_ptr_field_def shared_ptr_const_field_def unset_def blank_def
      shared_ptr_roundtrip [OF assms, unfolded unset_def blank_def])+

end
