(* ===== verification/Numbers.thy ===== *)
theory Numbers
  imports Prelude
begin

text \<open>
  Numbers as fields: \<open>include/mp/type-number.h\<close> and \<open>include/mp/type-chrono.h\<close>. The
  integer types of C++ with their conversions, promotions and mixed comparisons are written out,
  because the range checks of the code are comparisons between two different integer types.
\<close>

section \<open>Integer types of C++\<close>

datatype itype = BOOL | I8 | I16 | I32 | I64 | U8 | U16 | U32 | U64

fun bits :: "itype \<Rightarrow> nat" where
  "bits BOOL = 1" | "bits I8 = 8" | "bits I16 = 16" | "bits I32 = 32" | "bits I64 = 64"
| "bits U8 = 8" | "bits U16 = 16" | "bits U32 = 32" | "bits U64 = 64"

fun is_signed :: "itype \<Rightarrow> bool" where
  "is_signed I8 = True" | "is_signed I16 = True" | "is_signed I32 = True" | "is_signed I64 = True"
| "is_signed _ = False"

text \<open>\<open>std::numeric_limits\<close>.\<close>

definition lim_min :: "itype \<Rightarrow> int" where
  "lim_min t = (if is_signed t then - (2 ^ (bits t - 1)) else 0)"

definition lim_max :: "itype \<Rightarrow> int" where
  "lim_max t = (if is_signed t then 2 ^ (bits t - 1) - 1 else 2 ^ bits t - 1)"

definition in_range :: "itype \<Rightarrow> int \<Rightarrow> bool" where
  "in_range t x \<longleftrightarrow> lim_min t \<le> x \<and> x \<le> lim_max t"

text \<open>Conversion to a type is reduction modulo its width; conversion to \<open>bool\<close> tests for zero.\<close>

definition convert :: "itype \<Rightarrow> int \<Rightarrow> int" where
  "convert t x =
     (if t = BOOL then (if x = 0 then 0 else 1)
      else if is_signed t then (x + 2 ^ (bits t - 1)) mod 2 ^ bits t - 2 ^ (bits t - 1)
      else x mod 2 ^ bits t)"

definition promote :: "itype \<Rightarrow> itype" where
  "promote t = (if bits t < 32 then I32 else t)"

text \<open>The usual arithmetic conversions.\<close>

definition common :: "itype \<Rightarrow> itype \<Rightarrow> itype" where
  "common a b =
     (let p = promote a; q = promote b
      in if is_signed p = is_signed q then (if bits p \<ge> bits q then p else q)
         else if is_signed p then (if bits q \<ge> bits p then q else p)
         else (if bits p \<ge> bits q then p else q))"

definition cpp_less :: "itype \<Rightarrow> int \<Rightarrow> itype \<Rightarrow> int \<Rightarrow> bool" where
  "cpp_less a x b y \<longleftrightarrow> convert (common a b) x < convert (common a b) y"

definition cpp_le :: "itype \<Rightarrow> int \<Rightarrow> itype \<Rightarrow> int \<Rightarrow> bool" where
  "cpp_le a x b y \<longleftrightarrow> convert (common a b) x \<le> convert (common a b) y"

section \<open>The field handlers\<close>

datatype number_error = Out_of_bound

text \<open>
  \<open>BuildPrimitive\<close> for integers: \<open>c\<close> is the type of the Cap'n Proto field (\<open>LocalType\<close> there),
  \<open>v\<close> the type of the C++ value. The two \<open>static_assert\<close>s say when the code compiles.
\<close>

definition BuildPrimitive_asserts :: "itype \<Rightarrow> itype \<Rightarrow> bool" where
  "BuildPrimitive_asserts c v \<longleftrightarrow>
     cpp_le c (lim_min c) v (lim_min v) \<and> cpp_le v (lim_max v) c (lim_max c)"

definition BuildPrimitive :: "itype \<Rightarrow> int \<Rightarrow> int" where
  "BuildPrimitive c x = convert c x"

text \<open>\<open>CustomReadField\<close> for integers: \<open>l\<close> is the C++ type, \<open>c\<close> the type of the field.\<close>

definition CustomReadField_int :: "itype \<Rightarrow> itype \<Rightarrow> int \<Rightarrow> number_error + int" where
  "CustomReadField_int l c value =
     (if cpp_less c value l (lim_min l) \<or> cpp_less l (lim_max l) c value then Inl Out_of_bound
      else Inr (convert l value))"

text \<open>Enumerations, given by their underlying type \<open>u\<close>; \<open>unsigned_of\<close> is \<open>make_unsigned_t\<close>.\<close>

fun unsigned_of :: "itype \<Rightarrow> itype" where
  "unsigned_of I8 = U8" | "unsigned_of I16 = U16" | "unsigned_of I32 = U32" | "unsigned_of I64 = U64"
| "unsigned_of t = t"

definition BuildPrimitive_enum_asserts :: "itype \<Rightarrow> itype \<Rightarrow> bool" where
  "BuildPrimitive_enum_asserts c u \<longleftrightarrow>
     cpp_le (unsigned_of u) (lim_max (unsigned_of u)) (unsigned_of c) (lim_max (unsigned_of c))"

definition BuildPrimitive_enum :: "itype \<Rightarrow> int \<Rightarrow> int" where
  "BuildPrimitive_enum c x = convert c x"

definition CustomReadField_enum :: "itype \<Rightarrow> int \<Rightarrow> int" where
  "CustomReadField_enum u value = convert u value"

text \<open>Durations, given by the type \<open>r\<close> of their representation.\<close>

definition CustomBuildField_chrono_asserts :: "itype \<Rightarrow> itype \<Rightarrow> bool" where
  "CustomBuildField_chrono_asserts c r \<longleftrightarrow>
     cpp_le c (lim_min c) r (lim_min r) \<and> cpp_le r (lim_max r) c (lim_max c)"

definition CustomBuildField_chrono :: "itype \<Rightarrow> int \<Rightarrow> int" where
  "CustomBuildField_chrono c count = convert c count"

definition CustomReadField_chrono :: "itype \<Rightarrow> int \<Rightarrow> int" where
  "CustomReadField_chrono r value = convert r value"

section \<open>Conversions\<close>

lemmas limits = in_range_def lim_min_def lim_max_def

lemma lim_table [simp]:
  "lim_min BOOL = 0" "lim_min I8 = - 128" "lim_min I16 = - 32768" "lim_min I32 = - 2147483648" "lim_min I64 = - 9223372036854775808"
  "lim_min U8 = 0" "lim_min U16 = 0" "lim_min U32 = 0" "lim_min U64 = 0"
  "lim_max BOOL = 1" "lim_max I8 = 127" "lim_max I16 = 32767" "lim_max I32 = 2147483647" "lim_max I64 = 9223372036854775807"
  "lim_max U8 = 255" "lim_max U16 = 65535" "lim_max U32 = 4294967295" "lim_max U64 = 18446744073709551615"
  by (simp_all add: lim_min_def lim_max_def)

lemma convert_id: "in_range t x \<Longrightarrow> convert t x = x"
  by (cases t) (auto simp: limits convert_def)

lemma convert_in_range: "in_range t (convert t x)"
  by (cases t) (auto simp: limits convert_def)

lemma lim_in_range [simp]: "in_range t (lim_min t)" "in_range t (lim_max t)"
  by (cases t; simp add: limits)+

text \<open>The common type holds all values of both when no negative value becomes unsigned.\<close>

definition sign_safe :: "itype \<Rightarrow> itype \<Rightarrow> bool" where
  "sign_safe a b \<longleftrightarrow> is_signed (common a b) \<or> (\<not> is_signed a \<and> \<not> is_signed b)"

lemma sign_safe_sym: "sign_safe a b \<longleftrightarrow> sign_safe b a"
  by (cases a; cases b) (simp_all add: sign_safe_def common_def promote_def)

lemma common_sym: "common a b = common b a"
  by (cases a; cases b) (simp_all add: common_def promote_def)

lemma common_limits:
  "sign_safe a b \<Longrightarrow> lim_min (common a b) \<le> lim_min a \<and> lim_max a \<le> lim_max (common a b)"
  by (cases a; cases b; simp add: sign_safe_def common_def promote_def)

lemma common_range: "sign_safe a b \<Longrightarrow> in_range a x \<Longrightarrow> in_range (common a b) x"
  using common_limits [of a b] by (simp add: in_range_def)

lemma cpp_less_exact:
  "sign_safe a b \<Longrightarrow> in_range a x \<Longrightarrow> in_range b y \<Longrightarrow> cpp_less a x b y \<longleftrightarrow> x < y"
  using common_range [of a b x] common_range [of b a y]
  by (simp add: cpp_less_def convert_id sign_safe_sym [of b a] common_sym [of b a])

lemma cpp_le_exact:
  "sign_safe a b \<Longrightarrow> in_range a x \<Longrightarrow> in_range b y \<Longrightarrow> cpp_le a x b y \<longleftrightarrow> x \<le> y"
  using common_range [of a b x] common_range [of b a y]
  by (simp add: cpp_le_def convert_id sign_safe_sym [of b a] common_sym [of b a])

text \<open>The asserts make the field at least as wide as the value.\<close>

lemma asserts_bits:
  "BuildPrimitive_asserts c v \<Longrightarrow> bits v \<le> bits c"
  by (cases c; cases v; simp add: BuildPrimitive_asserts_def cpp_le_def common_def promote_def
      convert_def lim_min_def lim_max_def)

text \<open>Conversions respect reduction modulo the width, so a wider type loses nothing.\<close>

lemma convert_cong:
  assumes t: "t \<noteq> BOOL" and eq: "x mod 2 ^ bits t = y mod 2 ^ bits t"
  shows "convert t x = convert t y"
proof (cases "is_signed t")
  case True
  have "(x + 2 ^ (bits t - 1)) mod 2 ^ bits t = (y + 2 ^ (bits t - 1)) mod 2 ^ bits t"
    by (rule mod_add_cong [OF eq refl])
  then show ?thesis unfolding convert_def by (simp only: t True if_True if_False)
next
  case False
  then show ?thesis unfolding convert_def using eq by (simp only: t if_False)
qed

lemma convert_mod: "t \<noteq> BOOL \<Longrightarrow> convert t x mod 2 ^ bits t = x mod 2 ^ bits t"
  by (simp add: convert_def mod_diff_left_eq)

lemma mod_narrow:
  assumes "k \<le> n" "(a::int) mod 2 ^ n = b mod 2 ^ n"
  shows "a mod 2 ^ k = b mod 2 ^ k"
proof -
  have "(2::int) ^ k dvd 2 ^ n" using assms(1) by (rule le_imp_power_dvd)
  then show ?thesis using assms(2) by (metis mod_mod_cancel)
qed

lemma convert_convert:
  assumes "bits v \<le> bits c" "in_range v x"
  shows "convert v (convert c x) = x"
proof (cases "v = BOOL \<or> c = BOOL")
  case True
  then have "v = BOOL" using assms(1) by (cases v) simp_all
  moreover from this have "x = 0 \<or> x = 1" using assms(2) by (auto simp: limits)
  ultimately show ?thesis by (cases c) (auto simp: convert_def)
next
  case False
  then have "convert c x mod 2 ^ bits c = x mod 2 ^ bits c" by (simp add: convert_mod)
  then have "convert c x mod 2 ^ bits v = x mod 2 ^ bits v" by (rule mod_narrow [OF assms(1)])
  then have "convert v (convert c x) = convert v x" using False by (intro convert_cong) auto
  then show ?thesis using assms(2) by (simp add: convert_id)
qed

text \<open>For types that compare safely the asserts are the inclusion of the ranges.\<close>

lemma asserts_range:
  assumes "BuildPrimitive_asserts c v" "sign_safe v c" "in_range v x"
  shows "in_range c x"
proof -
  have "lim_min c \<le> lim_min v" "lim_max v \<le> lim_max c"
    using assms(1,2) sign_safe_sym [of v c] cpp_le_exact [of c v "lim_min c" "lim_min v"]
      cpp_le_exact [of v c "lim_max v" "lim_max c"]
    by (simp_all add: BuildPrimitive_asserts_def)
  then show ?thesis using assms(3) by (simp add: in_range_def)
qed

section \<open>Properties\<close>

text \<open>C36. When the C++ type and the field type compare without a negative number becoming
  unsigned, the range check of \<open>CustomReadField\<close> is exact: a value of the field that the C++
  type can hold is read unchanged, any other throws, so nothing is ever truncated.\<close>

theorem read_int_exact:
  assumes "sign_safe l c" "in_range c x"
  shows "CustomReadField_int l c x = (if in_range l x then Inr x else Inl Out_of_bound)"
proof -
  have s: "sign_safe c l" using assms(1) by (simp add: sign_safe_sym)
  have "cpp_less c x l (lim_min l) \<longleftrightarrow> x < lim_min l"
    using s assms(2) by (rule cpp_less_exact) simp
  moreover have "cpp_less l (lim_max l) c x \<longleftrightarrow> lim_max l < x"
    using assms(1) _ assms(2) by (rule cpp_less_exact) simp
  moreover have "convert l x = x" if "in_range l x" using that by (rule convert_id)
  ultimately show ?thesis by (auto simp: CustomReadField_int_def in_range_def)
qed

theorem read_int_exact_witness:
  "CustomReadField_int I8 I32 200 = Inl Out_of_bound \<and> CustomReadField_int I8 I32 (-5) = Inr (-5)"
  using read_int_exact [of I8 I32 200] read_int_exact [of I8 I32 "-5"]
  by (simp add: sign_safe_def common_def promote_def limits)

text \<open>An integer written to a field by \<open>BuildPrimitive\<close>, with its two assertions compiled
  in, is read back by \<open>CustomReadField\<close> as the same number, for types that compare safely.\<close>

theorem int_field_roundtrip:
  assumes "BuildPrimitive_asserts c v" "sign_safe v c" "in_range v x"
  shows "CustomReadField_int v c (BuildPrimitive c x) = Inr x"
proof -
  have c: "in_range c x" using assms by (rule asserts_range)
  then have "BuildPrimitive c x = x" by (simp add: BuildPrimitive_def convert_id)
  moreover have "CustomReadField_int v c x = Inr x"
    using read_int_exact [OF assms(2) c] assms(3) by simp
  ultimately show ?thesis by simp
qed

theorem int_field_roundtrip_witness: "CustomReadField_int U8 I32 (BuildPrimitive I32 255) = Inr 255"
  by (rule int_field_roundtrip)
    (simp_all add: BuildPrimitive_asserts_def cpp_le_def sign_safe_def common_def promote_def
      convert_def limits)

text \<open>The assertions of \<open>BuildPrimitive\<close> compare types of different signs too, and accept a
  signed C++ integer for an unsigned field of at least its width, at least 32 bits. For these
  types the value is written and every read throws, whatever the value is.\<close>

theorem signed_value_unsigned_field:
  assumes "v \<in> {I8, I16, I32, I64}" "c \<in> {U32, U64}" "bits v \<le> bits c" "in_range c x"
  shows "BuildPrimitive_asserts c v \<and> CustomReadField_int v c x = Inl Out_of_bound"
proof -
  have com: "common c v = c" "common v c = c"
    using assms(1-3) by (cases c; cases v; simp add: common_def promote_def)+
  have lo: "convert c (lim_min v) = 2 ^ bits c - 2 ^ (bits v - 1)"
    using assms(1-3) by (cases c; cases v; simp add: convert_def)
  have hi: "convert c (lim_max v) = lim_max v" "lim_min c = 0" "convert c 0 = 0"
    "convert c (lim_max c) = lim_max c" "convert c x = x"
    using assms(1-4) by (cases c; cases v; simp add: convert_def in_range_def)+
  have gap: "lim_max v < 2 ^ bits c - 2 ^ (bits v - 1)" "lim_max v \<le> lim_max c"
    "0 \<le> (2::int) ^ bits c - 2 ^ (bits v - 1)"
    using assms(1-3) by (cases c; cases v; simp)+
  have "BuildPrimitive_asserts c v"
    using com lo hi gap by (simp add: BuildPrimitive_asserts_def cpp_le_def)
  moreover have "x < 2 ^ bits c - 2 ^ (bits v - 1) \<or> lim_max v < x"
    using gap(1) by linarith
  then have "CustomReadField_int v c x = Inl Out_of_bound"
    using com lo hi by (simp add: CustomReadField_int_def cpp_less_def)
  ultimately show ?thesis by simp
qed

theorem signed_value_unsigned_field_witness:
  "BuildPrimitive_asserts U32 I32 \<and> CustomReadField_int I32 U32 (BuildPrimitive U32 7) = Inl Out_of_bound"
  using signed_value_unsigned_field [of I32 U32 7] by (simp add: limits BuildPrimitive_def convert_def)

text \<open>In the other direction the check is void: a signed field of at least 32 bits read into
  an unsigned type of the same width never throws, and a negative number arrives as a large
  positive one.\<close>

theorem unsigned_value_signed_field:
  assumes "(l, c) \<in> {(U32, I32), (U64, I64)}" "in_range c x" "x < 0"
  shows "CustomReadField_int l c x = Inr (x + 2 ^ bits l)"
proof -
  have com: "common c l = l" "common l c = l"
    using assms(1) by (auto simp: common_def promote_def)
  have x: "0 \<le> x + 2 ^ bits l" "x + 2 ^ bits l < 2 ^ bits l" "lim_max l = 2 ^ bits l - 1"
    "lim_min l = 0" "convert l 0 = 0" "convert l (lim_max l) = lim_max l"
    using assms by (auto simp: in_range_def convert_def)
  have "convert l x = (x + 2 ^ bits l) mod 2 ^ bits l"
    using assms(1) by (auto simp: convert_def)
  then have "convert l x = x + 2 ^ bits l"
    using x(1,2) by (simp only: mod_pos_pos_trivial)
  then show ?thesis
    using com x by (simp add: CustomReadField_int_def cpp_less_def)
qed

theorem unsigned_value_signed_field_witness: "CustomReadField_int U32 I32 (-1) = Inr 4294967295"
  using unsigned_value_signed_field [of U32 I32 "-1"] by (simp add: limits)

text \<open>An enumerator survives the trip for every pair of types the assertion accepts, the
  conversion on reading being unchecked.\<close>

theorem enum_field_roundtrip:
  assumes "BuildPrimitive_enum_asserts c u" "in_range u x"
  shows "CustomReadField_enum u (BuildPrimitive_enum c x) = x"
proof -
  have "bits u \<le> bits c"
    using assms(1) by (cases c; cases u; simp add: BuildPrimitive_enum_asserts_def cpp_le_def
        common_def promote_def convert_def lim_max_def)
  then show ?thesis
    using assms(2) by (simp add: CustomReadField_enum_def BuildPrimitive_enum_def convert_convert)
qed

theorem enum_field_roundtrip_witness: "CustomReadField_enum I32 (BuildPrimitive_enum U32 (-3)) = -3"
  by (rule enum_field_roundtrip)
    (simp_all add: BuildPrimitive_enum_asserts_def cpp_le_def common_def promote_def convert_def limits)

text \<open>A duration survives the trip for every representation the assertions accept. Reading is
  not checked: a count that does not fit is converted, that is, wraps around.\<close>

theorem chrono_field_roundtrip:
  assumes "CustomBuildField_chrono_asserts c r" "in_range r x"
  shows "CustomReadField_chrono r (CustomBuildField_chrono c x) = x"
  using assms asserts_bits [of c r]
  by (simp add: CustomReadField_chrono_def CustomBuildField_chrono_def CustomBuildField_chrono_asserts_def
      BuildPrimitive_asserts_def convert_convert)

theorem chrono_field_roundtrip_witness:
  "CustomReadField_chrono I64 (CustomBuildField_chrono I64 (-9)) = -9 \<and>
   CustomReadField_chrono I32 4294967296 = 0"
  using chrono_field_roundtrip [of I64 I64 "-9"]
  by (simp add: CustomBuildField_chrono_asserts_def cpp_le_def common_def promote_def convert_def
      limits CustomReadField_chrono_def)

end
