(* ===== verification/FieldTypes.thy ===== *)
theory FieldTypes
  imports Roundtrip Numbers "HOL-Library.Word" "HOL-Library.List_Lexorder"
begin

text \<open>
  The field types without parts: numbers, durations, strings, byte spans, byte arrays and
  exceptions (\<open>include/mp/type-number.h\<close>, \<open>type-chrono.h\<close>, \<open>type-string.h\<close>, \<open>type-data.h\<close>,
  \<open>type-char.h\<close>, \<open>type-exception.h\<close>), the interpretation of the interfaces on them and on types
  put together from them, and the properties of fields.
\<close>

section \<open>Numbers\<close>

definition int_read :: "itype \<Rightarrow> itype \<Rightarrow> int \<Rightarrow> int dest \<Rightarrow> read_error + int" where
  "int_read v c value d =
     (case CustomReadField_int v c value of
        Inl Out_of_bound \<Rightarrow> Inl Range_error
      | Inr x \<Rightarrow> dest_construct x d)"

definition int_field :: "itype \<Rightarrow> itype \<Rightarrow> (int, int) field_type" where
  "int_field v c = stored_field (BuildPrimitive c) (int_read v c) 0 0 False"

definition enum_field :: "itype \<Rightarrow> itype \<Rightarrow> (int, int) field_type" where
  "enum_field u c =
     stored_field (BuildPrimitive_enum c) (\<lambda>m d. dest_construct (CustomReadField_enum u m) d) 0 0 False"

definition chrono_field :: "itype \<Rightarrow> itype \<Rightarrow> (int, int) field_type" where
  "chrono_field r c =
     stored_field (CustomBuildField_chrono c) (\<lambda>m d. dest_construct (CustomReadField_chrono r m) d)
       0 0 False"

section \<open>Bytes\<close>

type_synonym bytes = "8 word list"

text \<open>\<open>memcpy\<close>, defined only when both sides have the bytes.\<close>

definition memcpy :: "bytes \<Rightarrow> bytes \<Rightarrow> nat \<Rightarrow> bytes option" where
  "memcpy dst src n =
     (if n \<le> length dst \<and> n \<le> length src then Some (take n src @ drop n dst) else None)"

definition init_bytes :: "nat \<Rightarrow> bytes" where
  "init_bytes n = replicate n 0"

definition bytes_enc :: "bytes \<Rightarrow> bytes" where
  "bytes_enc value = the (memcpy (init_bytes (length value)) value (length value))"

definition string_field :: "(bytes, bytes) field_type" where
  "string_field = stored_field bytes_enc dest_construct [] [] False"

definition data_field :: "(bytes, bytes) field_type" where
  "data_field = stored_field bytes_enc dest_construct [] [] False"

text \<open>An array of \<open>n\<close> bytes: \<open>n\<close> bytes are copied out of the message.\<close>

definition chars_read :: "nat \<Rightarrow> bytes \<Rightarrow> bytes dest \<Rightarrow> read_error + bytes" where
  "chars_read n data d =
     dest_update (init_bytes n)
       (\<lambda>value. case memcpy value data n of None \<Rightarrow> Inl Read_past_end | Some v \<Rightarrow> Inr v) d"

definition chars_field :: "nat \<Rightarrow> (bytes, bytes) field_type" where
  "chars_field n = stored_field bytes_enc (chars_read n) (init_bytes n) [] True"

text \<open>An exception is built as the string of its message.\<close>

definition exception_build :: "place \<Rightarrow> bytes \<Rightarrow> bytes slot \<Rightarrow> bytes slot" where
  "exception_build p what s = BuildField string_field p what s"

lemma bytes_enc_id [simp]: "bytes_enc v = v"
  by (simp add: bytes_enc_def memcpy_def init_bytes_def)

section \<open>The interfaces on these types\<close>

lemma int_present:
  assumes "BuildPrimitive_asserts c v" "sign_safe v c"
  shows "present_field (int_field v c) (in_range v) (\<lambda>_. True)"
proof -
  have inc: "in_range c x" if "in_range v x" for x
    using assms that by (rule asserts_range)
  have "int_read v c (BuildPrimitive c x) d = Inr x" if x: "in_range v x" for x d
  proof -
    have b: "BuildPrimitive c x = x" using inc [OF x] by (simp add: BuildPrimitive_def convert_id)
    have s: "sign_safe c v" using assms(2) by (simp add: sign_safe_sym)
    have "\<not> cpp_less c x v (lim_min v)" "\<not> cpp_less v (lim_max v) c x"
      using cpp_less_exact [OF s inc [OF x], of "lim_min v"]
        cpp_less_exact [OF assms(2) lim_in_range(2) inc [OF x]] x
      by (simp_all add: in_range_def)
    then show ?thesis using x by (simp add: int_read_def b CustomReadField_int_def convert_id)
  qed
  then show ?thesis unfolding int_field_def by (rule stored_present)
qed

lemma int32_present: "present_field (int_field I32 I32) (in_range I32) (\<lambda>_. True)"
  by (rule int_present)
    (simp_all add: BuildPrimitive_asserts_def cpp_le_def sign_safe_def common_def promote_def convert_def)

interpretation int32: present_field "int_field I32 I32" "in_range I32" "\<lambda>_. True"
  by (rule int32_present)

lemma string_present: "present_field string_field (\<lambda>_. True) (\<lambda>_. True)"
  unfolding string_field_def by (rule stored_present) simp

interpretation string_codec: nullable_field string_field "\<lambda>_. True" "\<lambda>_. True" nullable
  by (rule nullable_default [OF string_present]) (simp add: string_field_def stored_field_def)

interpretation data_codec: nullable_field data_field "\<lambda>_. True" "\<lambda>_. True" nullable
  by (rule nullable_default, unfold data_field_def, rule stored_present)
    (simp_all add: stored_field_def)

interpretation int32_nullable: nullable_field "int_field I32 I32" "in_range I32" "\<lambda>_. True" nullable
  by (rule nullable_default [OF int32_present]) (simp add: int_field_def stored_field_def)

text \<open>
  A composed type: a map from strings to vectors of numbers, as the value of a map in a message
  would be.
\<close>

definition plain_member :: accessor where
  "plain_member = Accessor 0"

definition boxed_member :: accessor where
  "boxed_member = Accessor FIELD_BOXED"

abbreviation int32_vector :: "(int list, int slot list) field_type" where
  "int32_vector \<equiv> vector_field (int_field I32 I32)"

lemma int32_vector_present:
  "present_field int32_vector (\<lambda>vs. \<forall>v\<in>set vs. in_range I32 v) (\<lambda>_. True)"
  by (rule vector_present [OF int32.field_codec_axioms]) simp

definition table_field :: "(bytes \<rightharpoonup> int list, (bytes, int slot list) pair_content slot list) field_type" where
  "table_field = map_field boxed_member string_field boxed_member int32_vector"

interpretation table_codec: present_field table_field
  "\<lambda>m. finite (dom m) \<and> (\<forall>k v. m k = Some v \<longrightarrow> True \<and> (\<forall>x\<in>set v. in_range I32 x))" "\<lambda>_. True"
  unfolding table_field_def
  by (rule map_present [OF string_codec.field_codec_axioms _
        present_field.axioms(1) [OF int32_vector_present]]) simp_all

section \<open>Properties\<close>

text \<open>C33. A \<open>std::vector\<close> or \<open>std::set\<close> whose element type can be read back is read back itself,
  in the same order, whatever the destination held before.\<close>

theorem list_field_roundtrip:
  fixes c :: "('v::linorder, 'm) field_type"
  assumes "field_codec c ok fits" "fits Elem" "\<forall>v\<in>set vs. ok v"
    and "unset (vector_field c) s" "unset (set_field c) s"
  shows "ReadField (vector_field c) p (BuildField (vector_field c) p vs s) d = Inr vs \<and>
    ReadField (set_field c) p (BuildField (set_field c) p (set vs) s) e = Inr (set vs)"
proof
  show "ReadField (vector_field c) p (BuildField (vector_field c) p vs s) d = Inr vs"
    using assms(3,4)
    by (intro field_codec.build_read [OF present_field.axioms(1) [OF vector_present [OF assms(1,2)]]]) simp_all
  show "ReadField (set_field c) p (BuildField (set_field c) p (set vs) s) e = Inr (set vs)"
    using assms(3,5)
    by (intro field_codec.build_read [OF present_field.axioms(1) [OF set_present [OF assms(1,2)]]]) simp_all
qed

theorem list_field_roundtrip_witness:
  "ReadField int32_vector Elem (BuildField int32_vector Elem [3, -1, 3] (new_slot int32_vector))
     (Update [9]) = Inr [3, -1, 3]"
proof -
  have "unset (set_field (int_field I32 I32)) (new_slot int32_vector)"
    using unset_new [of int32_vector] by (simp add: unset_def blank_def vector_field_def set_field_def)
  then show ?thesis
    using list_field_roundtrip [OF int32.field_codec_axioms, of "[3, -1, 3]" "new_slot int32_vector" Elem
        "Update [9]"] by (simp add: in_range_def)
qed

text \<open>A \<open>std::map\<close> is read back from the list of pairs it is built as, for key and value types
  that can be read back at the two members of the pair.\<close>

theorem map_field_roundtrip:
  fixes ck :: "('k::linorder, 'a) field_type"
  assumes "field_codec ck okk fk" "fk (Member ak)" "field_codec cv okv fv" "fv (Member av)"
    and "finite (dom m)" "\<forall>k v. m k = Some v \<longrightarrow> okk k \<and> okv v" "unset (map_field ak ck av cv) s"
  shows "ReadField (map_field ak ck av cv) p (BuildField (map_field ak ck av cv) p m s) d = Inr m"
  using assms(5-7)
  by (intro field_codec.build_read [OF present_field.axioms(1) [OF map_present [OF assms(1-4)]]]) simp_all

theorem map_field_roundtrip_witness:
  "ReadField table_field Elem (BuildField table_field Elem [[65] \<mapsto> [1, 2], [] \<mapsto> []] (new_slot table_field))
     Emplace = Inr [[65] \<mapsto> [1, 2], [] \<mapsto> []]"
  unfolding table_field_def
  by (rule map_field_roundtrip [OF string_codec.field_codec_axioms _
        present_field.axioms(1) [OF int32_vector_present]])
    (simp_all add: in_range_def)

text \<open>When a message has two entries with the same key, what a map ends with depends on the
  value type: a value read by \<open>construct\<close> is dropped, so the first one stays, while a value read
  by \<open>update\<close> is read into the element that is there, so the last one stays.\<close>

theorem map_duplicate_key:
  assumes "field_codec ck okk fk" "fk (Member ak)" "field_codec cv okv fv" "fv (Member av)"
    and "okk k" "okv v" "okv w"
    and "\<And>kv. content (enc kv) = pair_enc ak ck av cv kv"
  shows "read_map_items ak ck av cv [enc (k, v), enc (k, w)] Map.empty =
    Inr [k \<mapsto> (if by_update cv then w else v)]"
  using field_codec.member_read [OF assms(1) assms(5) assms(2)]
    field_codec.member_read [OF assms(3) assms(6) assms(4)]
    field_codec.member_read [OF assms(3) assms(7) assms(4)]
  by (simp add: assms(8) pair_enc_def map_emplace_def)

theorem map_duplicate_key_witness:
  "\<exists>items. read_map_items boxed_member string_field plain_member (int_field I32 I32) items Map.empty =
     Inr [[] \<mapsto> 1] \<and> length items = 2"
proof -
  let ?enc = "\<lambda>kv. field_set (pair_enc boxed_member string_field plain_member (int_field I32 I32) kv)
    (new_slot (pair_field boxed_member string_field plain_member (int_field I32 I32)))"
  have "\<not> by_update (int_field I32 I32)"
    by (simp add: int_field_def stored_field_def)
  then have "read_map_items boxed_member string_field plain_member (int_field I32 I32)
      [?enc ([], 1), ?enc ([], 2)] Map.empty = Inr [[] \<mapsto> 1]"
    using map_duplicate_key [OF string_codec.field_codec_axioms _ int32.field_codec_axioms,
        where k = "[]" and v = 1 and w = 2 and enc = ?enc]
    by (simp add: field_set_def in_range_def)
  then show ?thesis by fastforce
qed

text \<open>C32. A struct is built member by member and read back member by member, also when it is read
  into an object whose members hold other values.\<close>

theorem struct_field_roundtrip:
  assumes "list_all2 member_ok fs oks" "list_all2 (\<lambda>ok v. ok v) oks vs" "length old = length fs"
  shows "ReadField (struct_field fs) p (BuildField (struct_field fs) p vs s) (Update old) = Inr vs"
  using struct_read_built [OF assms(1,2), of "struct_build fs p vs s" "Update old" p] assms(3)
  by (simp add: struct_field_def struct_build_def field_set_def)

theorem struct_field_roundtrip_witness:
  "ReadField (struct_field [(plain_member, int_field I32 I32), (plain_member, int_field I32 I32)]) Elem
     (BuildField (struct_field [(plain_member, int_field I32 I32), (plain_member, int_field I32 I32)]) Elem
       [4, -2] (new_slot (struct_field []))) (Update [0, 7]) = Inr [4, -2]"
proof (rule struct_field_roundtrip)
  show "list_all2 member_ok [(plain_member, int_field I32 I32), (plain_member, int_field I32 I32)]
      [in_range I32, in_range I32]"
    using int32.field_codec_axioms by (auto simp: member_ok_def)
qed (simp_all add: in_range_def)

text \<open>A \<open>std::optional\<close> is read back, null included, at every member with a \<open>has\<close> flag and at
  every member with a pointer of its own, for value types that report what was built.\<close>

theorem optional_field_roundtrip:
  assumes "nullable_field c ok fits null_at" "\<forall>v. x = Some v \<longrightarrow> ok v"
    and "fits p" "null_at p" "p \<noteq> Elem" "unset (optional_field c) s"
  shows "ReadField (optional_field c) p (BuildField (optional_field c) p x s) d = Inr x"
  using assms(2-6) by (intro field_codec.build_read [OF optional_codec [OF assms(1)]]) simp_all

theorem optional_field_roundtrip_witness:
  "ReadField (optional_field (int_field I32 I32)) (Member (Accessor FIELD_OPTIONAL))
     (BuildField (optional_field (int_field I32 I32)) (Member (Accessor FIELD_OPTIONAL)) None
       (new_slot (optional_field (int_field I32 I32)))) (Update (Some 5)) = Inr None"
  by (rule optional_field_roundtrip [OF int32_nullable.nullable_field_axioms])
    (simp_all add: Accessor_def FIELD_OPTIONAL_def)

text \<open>At a member that is neither boxed nor accompanied by a \<open>has\<close> flag an empty
  \<open>std::optional\<close> is not read back: nothing is written for it, and reading gives the default
  content of the field, as a value.\<close>

theorem optional_null_lost:
  assumes "\<not> acc_optional a" "\<not> acc_boxed a" "CustomHasField c = field_has"
    and "ReadField c (Member a) s Emplace = Inr z"
  shows "ReadField (optional_field c) (Member a) (BuildField (optional_field c) (Member a) None s) Emplace =
    Inr (Some z)"
  using assms by (simp add: optional_field_def optional_build_def optional_read_def)

theorem optional_null_lost_witness:
  "ReadField (optional_field (int_field I32 I32)) (Member plain_member)
     (BuildField (optional_field (int_field I32 I32)) (Member plain_member) None
       (new_slot (int_field I32 I32))) Emplace = Inr (Some 0)"
  by (rule optional_null_lost)
    (simp_all add: plain_member_def Accessor_def int_field_def stored_field_def int_read_def
      CustomReadField_int_def cpp_less_def common_def promote_def convert_def new_slot_def)

text \<open>A \<open>std::shared_ptr\<close> at a member with a \<open>has\<close> flag is never read back: unlike the
  handler of \<open>std::optional\<close>, the one that builds it does not set the flag, so a non-null
  pointer arrives as null.\<close>

theorem shared_ptr_flag_lost:
  assumes "acc_optional a" "\<And>v s. has_flag (BuildField c (Member a) v s) = has_flag s"
    and "CustomHasField c = field_has" "unset (shared_ptr_field c) s"
  shows "ReadField (shared_ptr_field c) (Member a) (BuildField (shared_ptr_field c) (Member a) x s) d = Inr None"
proof -
  have "\<not> has_flag (pointer_build c (Member a) x s)"
    using assms(2,4) by (cases x) (simp_all add: pointer_build_def unset_def)
  then show ?thesis
    using assms(1,3) by (cases d) (simp_all add: shared_ptr_field_def shared_ptr_read_def)
qed

theorem shared_ptr_flag_lost_witness:
  "ReadField (shared_ptr_field string_field) (Member (Accessor FIELD_OPTIONAL))
     (BuildField (shared_ptr_field string_field) (Member (Accessor FIELD_OPTIONAL)) (Some [1])
       (new_slot (shared_ptr_field string_field))) Emplace = Inr None"
  by (rule shared_ptr_flag_lost)
    (simp_all add: Accessor_def FIELD_OPTIONAL_def string_field_def stored_field_def field_set_def)

text \<open>An array of \<open>n\<close> bytes is read back when the message has \<open>n\<close> bytes; the number of bytes in
  the message is not looked at, and with fewer the copy runs past their end.\<close>

theorem chars_field_read:
  assumes "\<And>old. d = Update old \<Longrightarrow> length old = n"
  shows "ReadField (chars_field n) p s d =
    (if n \<le> length (content s) then Inr (take n (content s)) else Inl Read_past_end)"
  using assms
  by (cases d) (simp_all add: chars_field_def stored_field_def chars_read_def memcpy_def init_bytes_def)

theorem chars_field_read_witness:
  "ReadField (chars_field 4) Elem (BuildField string_field Elem [1, 2] (new_slot string_field)) Emplace =
     Inl Read_past_end"
  by (subst chars_field_read) (simp_all add: string_field_def stored_field_def field_set_def)

end
