(* ===== verification/Generate.thy ===== *)
theory Generate
  imports Codec "HOL-Library.Char_ord" "HOL-Library.List_Lexorder"
begin

text \<open>
  The code generator \<open>src/mp/gen.cpp\<close>: the fields of structs and calls that it collects from a
  schema (\<open>FieldList\<close>), the paths and the text it writes. A stream is the text written to it.
  The schema is what Cap'n Proto's parser returns.
\<close>

section \<open>Text\<close>

abbreviation nl :: string where "nl \<equiv> [CHR 0x0A]"
abbreviation dq :: string where "dq \<equiv> [CHR 0x22]"

text \<open>What a stream writes for a number that is not negative.\<close>

fun show_nat :: "nat \<Rightarrow> string" where
  "show_nat n = (if n < 10 then [char_of (48 + n)] else show_nat (n div 10) @ [char_of (48 + n mod 10)])"

declare show_nat.simps [simp del]

definition show_int :: "int \<Rightarrow> string" where
  "show_int i = (if i < 0 then ''-'' @ show_nat (nat (- i)) else show_nat (nat i))"

definition lower :: "char \<Rightarrow> bool" where
  "lower c \<longleftrightarrow> (97 :: nat) \<le> of_char c \<and> of_char c \<le> (122 :: nat)"

definition upper_of :: "char \<Rightarrow> char" where
  "upper_of c = char_of (of_char c - (32 :: nat))"

definition Cap :: "string \<Rightarrow> string" where
  "Cap str =
     (case str of
        [] \<Rightarrow> []
      | c # cs \<Rightarrow> (if lower c then upper_of c else c) # cs)"

text \<open>\<open>std::string::rfind\<close>, and \<open>kj::StringPtr::startsWith\<close>.\<close>

definition rfind :: "char \<Rightarrow> string \<Rightarrow> nat option" where
  "rfind c s = (let found = filter (\<lambda>i. s ! i = c) [0..<length s] in if found = [] then None else Some (last found))"

definition startsWith :: "string \<Rightarrow> string \<Rightarrow> bool" where
  "startsWith s p \<longleftrightarrow> take (length p) s = p"

section \<open>Schemas\<close>

text \<open>An annotation is its id and its content, which the declaration of the annotation types.\<close>

datatype content = Text string | Int32 int | No_content

type_synonym annotation = "nat \<times> content"

definition NAMESPACE_ANNOTATION_ID :: nat where "NAMESPACE_ANNOTATION_ID = 0xb9c6f99ebf805f2c"
definition INCLUDE_ANNOTATION_ID :: nat where "INCLUDE_ANNOTATION_ID = 0xb899f3c154fdb458"
definition INCLUDE_TYPES_ANNOTATION_ID :: nat where "INCLUDE_TYPES_ANNOTATION_ID = 0xbcec15648e8a0cf1"
definition WRAP_ANNOTATION_ID :: nat where "WRAP_ANNOTATION_ID = 0xe6f46079b7b1405e"
definition COUNT_ANNOTATION_ID :: nat where "COUNT_ANNOTATION_ID = 0xd02682b319f69b38"
definition EXCEPTION_ANNOTATION_ID :: nat where "EXCEPTION_ANNOTATION_ID = 0x996a183200992f88"
definition NAME_ANNOTATION_ID :: nat where "NAME_ANNOTATION_ID = 0xb594888f63f4dbb9"
definition SKIP_ANNOTATION_ID :: nat where "SKIP_ANNOTATION_ID = 0x824c08b82695d8dd"

fun AnnotationExists :: "annotation list \<Rightarrow> nat \<Rightarrow> bool" where
  "AnnotationExists [] i = False"
| "AnnotationExists (a # as) i = (if fst a = i then True else AnnotationExists as i)"

text \<open>The first annotation with the id decides; the result is left as it was if there is none.\<close>

fun GetAnnotationText :: "annotation list \<Rightarrow> nat \<Rightarrow> string option" where
  "GetAnnotationText [] i = None"
| "GetAnnotationText (a # as) i =
     (if fst a = i then Some (case snd a of Text s \<Rightarrow> s | _ \<Rightarrow> []) else GetAnnotationText as i)"

fun GetAnnotationInt32 :: "annotation list \<Rightarrow> nat \<Rightarrow> int option" where
  "GetAnnotationInt32 [] i = None"
| "GetAnnotationInt32 (a # as) i =
     (if fst a = i then Some (case snd a of Int32 n \<Rightarrow> n | _ \<Rightarrow> 0) else GetAnnotationInt32 as i)"

definition get_text :: "annotation list \<Rightarrow> nat \<Rightarrow> string \<Rightarrow> string" where
  "get_text as i result = (case GetAnnotationText as i of None \<Rightarrow> result | Some s \<Rightarrow> s)"

text \<open>The type of a field; structs and interfaces with the annotations of their declaration.\<close>

datatype capnp_type =
    T_void | T_bool | T_int8 | T_int16 | T_int32 | T_int64
  | T_uint8 | T_uint16 | T_uint32 | T_uint64 | T_float32 | T_float64 | T_enum
  | T_text | T_data | T_list | T_struct "annotation list" | T_interface "annotation list" | T_any

definition BoxedType :: "capnp_type \<Rightarrow> bool" where
  "BoxedType t \<longleftrightarrow>
     \<not> (t = T_void \<or> t = T_bool \<or> t = T_int8 \<or> t = T_int16 \<or> t = T_int32 \<or> t = T_int64 \<or>
        t = T_uint8 \<or> t = T_uint16 \<or> t = T_uint32 \<or> t = T_uint64 \<or> t = T_float32 \<or> t = T_float64 \<or>
        t = T_enum)"

record schema_field =
  sf_name :: string
  sf_annotations :: "annotation list"
  sf_type :: capnp_type

record schema_method =
  sm_name :: string
  sm_annotations :: "annotation list"
  sm_params :: "schema_field list"
  sm_results :: "schema_field list"

datatype interface_schema = Interface_schema (short_name: string)
  (superclasses: "interface_schema list") (schema_methods: "schema_method list")

text \<open>
  \<open>ForEachMethod\<close>, with the state of the callback. The flag says whether the interface handed to the
  callback is the object that the outermost call was made for, which the callback compares by
  address.
\<close>

fun ForEachMethod ::
  "(bool \<Rightarrow> interface_schema \<Rightarrow> schema_method \<Rightarrow> 's \<Rightarrow> 's) \<Rightarrow> bool \<Rightarrow> interface_schema \<Rightarrow> 's \<Rightarrow> 's" where
  "ForEachMethod callback same (Interface_schema n supers methods) s =
     fold (callback same (Interface_schema n supers methods)) methods
       (fold (ForEachMethod callback False) supers s)"

section \<open>Field lists\<close>

text \<open>\<open>Field\<close>: \<open>param\<close> and \<open>result\<close> with their \<open>is_set\<close> flags are options.\<close>

record gen_field =
  f_param :: "schema_field option"
  f_result :: "schema_field option"
  f_args :: int
  f_retval :: bool
  f_optional :: bool
  f_requested :: bool
  f_skip :: bool
  f_exception :: string

definition new_field :: gen_field where
  "new_field = \<lparr>f_param = None, f_result = None, f_args = 0, f_retval = False, f_optional = False,
     f_requested = False, f_skip = False, f_exception = []\<rparr>"

text \<open>\<open>field_idx\<close> is a \<open>std::map\<close>: pairs in the order of their keys.\<close>

record field_list =
  all_fields :: "gen_field list"
  field_idx :: "(string \<times> nat) list"
  has_result :: bool

definition empty_fields :: field_list where
  "empty_fields = \<lparr>all_fields = [], field_idx = [], has_result = False\<rparr>"

fun idx_emplace :: "string \<Rightarrow> nat \<Rightarrow> (string \<times> nat) list \<Rightarrow> (string \<times> nat) list" where
  "idx_emplace k v [] = [(k, v)]"
| "idx_emplace k v ((k', v') # m) =
     (if k = k' then (k', v') # m else if k < k' then (k, v) # (k', v') # m
      else (k', v') # idx_emplace k v m)"

definition field_count :: "schema_field \<Rightarrow> int" where
  "field_count sf =
     (case GetAnnotationInt32 (sf_annotations sf) COUNT_ANNOTATION_ID of
        Some n \<Rightarrow> n
      | None \<Rightarrow>
          (case sf_type sf of
             T_struct as \<Rightarrow> (case GetAnnotationInt32 as COUNT_ANNOTATION_ID of None \<Rightarrow> 1 | Some n \<Rightarrow> n)
           | T_interface as \<Rightarrow> (case GetAnnotationInt32 as COUNT_ANNOTATION_ID of None \<Rightarrow> 1 | Some n \<Rightarrow> n)
           | _ \<Rightarrow> 1))"

text \<open>What \<open>addField\<close> does to the entry of the name; \<open>inserted\<close> says whether it is new.\<close>

definition update_field :: "schema_field \<Rightarrow> bool \<Rightarrow> bool \<Rightarrow> bool \<Rightarrow> gen_field \<Rightarrow> gen_field" where
  "update_field sf param result inserted f =
     (let f = (if param then f\<lparr>f_param := Some sf\<rparr> else f);
          f = (if result then f\<lparr>f_result := Some sf\<rparr> else f);
          f = (if \<not> param \<and> sf_name sf = ''result'' then f\<lparr>f_retval := True\<rparr> else f);
          f = (if AnnotationExists (sf_annotations sf) SKIP_ANNOTATION_ID then f\<lparr>f_skip := True\<rparr> else f);
          f = f\<lparr>f_exception := get_text (sf_annotations sf) EXCEPTION_ANNOTATION_ID (f_exception f)\<rparr>
      in if inserted \<and> \<not> f_retval f \<and> f_exception f = [] then f\<lparr>f_args := field_count sf\<rparr> else f)"

definition addField :: "schema_field \<Rightarrow> bool \<Rightarrow> bool \<Rightarrow> field_list \<Rightarrow> field_list" where
  "addField sf param result l =
     (let inserted = (map_of (field_idx l) (sf_name sf) = None);
          idx = idx_emplace (sf_name sf) (length (all_fields l)) (field_idx l);
          fs = (if inserted then all_fields l @ [new_field] else all_fields l);
          i = the (map_of idx (sf_name sf))
      in \<lparr>all_fields = fs[i := update_field sf param result inserted (fs ! i)], field_idx = idx,
          has_result = has_result l \<or> (\<not> param \<and> sf_name sf = ''result'')\<rparr>)"

text \<open>The body of the loop of \<open>mergeFields\<close>, and the loop.\<close>

definition merge_field :: "(string \<times> nat) list \<Rightarrow> string \<times> nat \<Rightarrow> gen_field list \<Rightarrow> gen_field list" where
  "merge_field idx e fs =
     (let fs = (case map_of idx (''has'' @ Cap (fst e)) of
                  None \<Rightarrow> fs
                | Some h \<Rightarrow> let fs = fs[h := (fs ! h)\<lparr>f_skip := True\<rparr>]
                            in fs[snd e := (fs ! snd e)\<lparr>f_optional := True\<rparr>])
      in case map_of idx (''want'' @ Cap (fst e)) of
           None \<Rightarrow> fs
         | Some w \<Rightarrow>
             if f_param (fs ! w) \<noteq> None
             then let fs = fs[w := (fs ! w)\<lparr>f_skip := True\<rparr>]
                  in fs[snd e := (fs ! snd e)\<lparr>f_requested := True\<rparr>]
             else fs)"

definition mergeFields :: "field_list \<Rightarrow> field_list" where
  "mergeFields l = l\<lparr>all_fields := fold (merge_field (field_idx l)) (field_idx l) (all_fields l)\<rparr>"

section \<open>Accessors\<close>

text \<open>The declaration behind a field: that of the parameter, else that of the result.\<close>

definition decl_of :: "gen_field \<Rightarrow> schema_field" where
  "decl_of f = (case f_param f of Some sf \<Rightarrow> sf | None \<Rightarrow> the (f_result f))"

definition AccessorType :: "string \<Rightarrow> gen_field \<Rightarrow> string" where
  "AccessorType base_name f =
     ''Accessor<'' @ base_name @ ''_fields::'' @ Cap (sf_name (decl_of f)) @ '', '' @
     (if f_param f = None then ''FIELD_OUT''
      else if f_result f \<noteq> None then ''FIELD_IN | FIELD_OUT'' else ''FIELD_IN'') @
     (if f_optional f then '' | FIELD_OPTIONAL'' else []) @
     (if f_requested f then '' | FIELD_REQUESTED'' else []) @
     (if BoxedType (sf_type (decl_of f)) then '' | FIELD_BOXED'' else []) @ ''>''"

text \<open>\<open>add_accessor\<close>, on the set of the names that are done and the text.\<close>

definition accessor_text :: "string \<Rightarrow> string" where
  "accessor_text cap = concat
    [''struct '', cap, nl, ''{'', nl,
     ''    template<typename S> static auto get(S&& s) -> decltype(s.get'', cap, ''()) { return s.get'', cap, ''(); }'', nl,
     ''    template<typename S> static bool has(S&& s) { return s.has'', cap, ''(); }'', nl,
     ''    template<typename S, typename A> static void set(S&& s, A&& a) { s.set'', cap,
     ''(std::forward<A>(a)); }'', nl,
     ''    template<typename S, typename... A> static decltype(auto) init(S&& s, A&&... a) { return s.init'',
     cap, ''(std::forward<A>(a)...); }'', nl,
     ''    template<typename S> static bool getWant(S&& s) { return s.getWant'', cap, ''(); }'', nl,
     ''    template<typename S> static void setWant(S&& s) { s.setWant'', cap, ''(true); }'', nl,
     ''    template<typename S> static bool getHas(S&& s) { return s.getHas'', cap, ''(); }'', nl,
     ''    template<typename S> static void setHas(S&& s) { s.setHas'', cap, ''(true); }'', nl,
     ''};'', nl]"

definition add_accessor :: "string \<Rightarrow> string list \<times> string \<Rightarrow> string list \<times> string" where
  "add_accessor name a =
     (if name \<in> set (fst a) then a else (name # fst a, snd a @ accessor_text (Cap name)))"

end
