(* ===== verification/GenOutput.thy ===== *)
theory GenOutput
  imports Generate
begin

text \<open>
  The text that \<open>Generate\<close> of \<open>src/mp/gen.cpp\<close> writes for the nodes of a schema: structs, and
  interfaces with their calls.
\<close>

section \<open>State\<close>

text \<open>
  The streams of \<open>Generate\<close> that the loop over the nodes writes to; \<open>accessors\<close> with the set
  \<open>accessors_done\<close>. \<open>inl\<close> is the file \<open>.proxy-types.h\<close>.
\<close>

record gen_output =
  methods :: string
  accessors :: "string list \<times> string"
  dec :: string
  def_server :: string
  def_client :: string
  int_client :: string
  def_types :: string
  inl :: string

definition empty_output :: gen_output where
  "empty_output = \<lparr>methods = [], accessors = ([], []), dec = [], def_server = [], def_client = [],
     int_client = [], def_types = [], inl = []\<rparr>"

definition accessor_for :: "string \<Rightarrow> gen_output \<Rightarrow> gen_output" where
  "accessor_for name g = g\<lparr>accessors := add_accessor name (accessors g)\<rparr>"

section \<open>Structs\<close>

definition struct_fields :: "schema_field list \<Rightarrow> field_list" where
  "struct_fields sfs = mergeFields (fold (\<lambda>sf. addField sf True True) sfs empty_fields)"

text \<open>The loop over template parameters; the state is \<open>first_param\<close>, \<open>generic_name\<close> and the text for \<open>dec\<close>.\<close>

definition template_param :: "string \<Rightarrow> bool \<times> string \<times> string \<Rightarrow> bool \<times> string \<times> string" where
  "template_param p s =
     (case s of (first_param, generic_name, d) \<Rightarrow>
        (False,
         (if first_param then generic_name @ ''<'' else generic_name @ '', '') @ p,
         (if first_param then d else d @ '', '') @ ''typename '' @ p))"

definition template_params :: "string \<Rightarrow> string list \<Rightarrow> string \<times> string" where
  "template_params node_name ps =
     (case fold template_param ps (True, node_name, []) of (first_param, generic_name, d) \<Rightarrow>
        (if first_param then generic_name else generic_name @ ''>'', d))"

text \<open>The declaration of a field is its \<open>param\<close>, which every field of a struct has.\<close>

definition struct_accessor :: "string \<Rightarrow> gen_field \<Rightarrow> gen_output \<Rightarrow> gen_output" where
  "struct_accessor base_name f g =
     (let name = sf_name (the (f_param f)); g = accessor_for name g
      in g\<lparr>dec := dec g @ ''    using '' @ Cap name @ ''Accessor = '' @ AccessorType base_name f @ '';'' @ nl\<rparr>)"

definition tuple_member :: "gen_field \<Rightarrow> nat \<times> string \<Rightarrow> nat \<times> string" where
  "tuple_member f s =
     (if f_skip f then s
      else (Suc (fst s), snd s @ (if fst s \<noteq> 0 then '', '' else []) @ Cap (sf_name (the (f_param f))) @ ''Accessor''))"

definition struct_dec :: "string \<Rightarrow> string \<Rightarrow> string \<Rightarrow> string list \<Rightarrow> gen_field list \<Rightarrow> gen_output \<Rightarrow> gen_output" where
  "struct_dec base_name ns node_name ps fs g =
     (case template_params node_name ps of (generic_name, typenames) \<Rightarrow>
        let g = g\<lparr>dec := dec g @ ''template<'' @ typenames @ ''>'' @ nl @
                  ''struct ProxyStruct<'' @ ns @ ''::'' @ generic_name @ ''>'' @ nl @ ''{'' @ nl @
                  ''    using Struct = '' @ ns @ ''::'' @ generic_name @ '';'' @ nl\<rparr>;
            g = fold (struct_accessor base_name) fs g
        in (case fold tuple_member fs (0, []) of (i, members) \<Rightarrow>
              g\<lparr>dec := dec g @ ''    using Accessors = std::tuple<'' @ members @ ''>;'' @ nl @
                 ''    static constexpr size_t fields = '' @ show_nat i @ '';'' @ nl @ ''};'' @ nl\<rparr>))"

text \<open>The \<open>ProxyType\<close> of a struct that wraps a C++ class.\<close>

definition struct_getter :: "string \<Rightarrow> gen_field \<Rightarrow> nat \<times> string \<Rightarrow> nat \<times> string" where
  "struct_getter proxied f s =
     (if f_skip f then s
      else
        (let sf = the (f_param f); member_name = get_text (sf_annotations sf) NAME_ANNOTATION_ID (sf_name sf)
         in (Suc (fst s),
             snd s @ ''    static decltype(auto) get(std::integral_constant<size_t, '' @ show_nat (fst s) @
             ''>) { return '' @ ''&'' @ proxied @ ''::'' @ member_name @ ''; }'' @ nl)))"

definition struct_inl :: "string \<Rightarrow> string \<Rightarrow> string \<Rightarrow> gen_field list \<Rightarrow> gen_output \<Rightarrow> gen_output" where
  "struct_inl ns node_name proxied fs g =
     (if proxied = [] then g
      else
        (case fold (struct_getter proxied) fs (0, []) of (i, getters) \<Rightarrow>
           g\<lparr>inl := inl g @ ''template<>'' @ nl @ ''struct ProxyType<'' @ proxied @ ''>'' @ nl @ ''{'' @ nl @
              ''public:'' @ nl @ ''    using Struct = '' @ ns @ ''::'' @ node_name @ '';'' @ nl @ getters @
              ''    static constexpr size_t fields = '' @ show_nat i @ '';'' @ nl @ ''};'' @ nl\<rparr>))"

section \<open>Calls\<close>

definition call_fields :: "schema_method \<Rightarrow> field_list" where
  "call_fields m =
     mergeFields (fold (\<lambda>sf. addField sf False True) (sm_results m)
       (fold (\<lambda>sf. addField sf True False) (sm_params m) empty_fields))"

text \<open>One round of the loop over \<open>field.args\<close>; the state is \<open>client_args\<close>, \<open>fwd_args\<close> and \<open>argc\<close>.\<close>

definition add_arg :: "nat \<Rightarrow> string \<Rightarrow> int \<Rightarrow> nat \<Rightarrow> string \<times> string \<times> nat \<Rightarrow> string \<times> string \<times> nat" where
  "add_arg ordinal name args i s =
     (case s of (client_args, fwd_args, argc) \<Rightarrow>
        (client_args @ (if argc > 0 then '','' else []) @
           ''M'' @ show_nat ordinal @ ''::Param<'' @ show_nat argc @ ''> '' @ name @
           (if args > 1 then show_nat i else []),
         fwd_args @ (if i > 0 then '', '' else []) @
           ''M'' @ show_nat ordinal @ ''::Fwd<'' @ show_nat argc @ ''>('' @ name @
           (if args > 1 then show_nat i else []) @ '')'',
         Suc argc))"

text \<open>The streams of one call.\<close>

record call_text =
  client_args :: string
  client_invoke :: string
  server_start :: string
  server_end :: string
  argc :: nat

definition empty_call :: call_text where
  "empty_call = \<lparr>client_args = [], client_invoke = [], server_start = [], server_end = [], argc = 0\<rparr>"

definition call_field :: "string \<Rightarrow> nat \<Rightarrow> gen_field \<Rightarrow> call_text \<Rightarrow> call_text" where
  "call_field base_name ordinal f c =
     (if f_skip f then c
      else
        (let name = sf_name (decl_of f);
             accessor = AccessorType base_name f
         in (case fold (add_arg ordinal name (f_args f)) [0..<nat (f_args f)] (client_args c, [], argc c) of
               (args, fwd_args, n) \<Rightarrow>
                 \<lparr>client_args = args,
                  client_invoke = client_invoke c @ '', '' @
                    (if f_exception f \<noteq> [] then ''ClientException<'' @ f_exception f @ '', '' else ''MakeClientParam<'') @
                    accessor @ ''>('' @ (if f_retval f then name else fwd_args) @ '')'',
                  server_start = server_start c @
                    (if f_exception f \<noteq> [] then ''Make<ServerExcept, '' @ f_exception f
                     else if f_retval f then ''Make<ServerRet''
                     else ''MakeServerField<'' @ show_int (f_args f)) @
                    '', '' @ accessor @ ''>('',
                  server_end = server_end c @ '')'',
                  argc = n\<rparr>)))"

definition call_texts :: "string \<Rightarrow> nat \<Rightarrow> gen_field list \<Rightarrow> call_text" where
  "call_texts base_name ordinal fs = fold (call_field base_name ordinal) fs empty_call"

definition field_accessor_for :: "gen_field \<Rightarrow> gen_output \<Rightarrow> gen_output" where
  "field_accessor_for f g = (if f_skip f then g else accessor_for (sf_name (decl_of f)) g)"

text \<open>
  The body of the callback of \<open>ForEachMethod\<close>. The state is \<open>method_ordinal\<close>, the text of the client
  and the server class, and the streams.
\<close>

definition gen_call ::
  "string \<Rightarrow> string \<Rightarrow> string \<Rightarrow> string \<Rightarrow> bool \<Rightarrow> interface_schema \<Rightarrow> schema_method \<Rightarrow>
   nat \<times> string \<times> string \<times> gen_output \<Rightarrow> nat \<times> string \<times> string \<times> gen_output" where
  "gen_call base_name ns node_name proxied same iface m s =
     (case s of (ordinal, client, server, g) \<Rightarrow>
        let name = sm_name m;
            proxied_name = get_text (sm_annotations m) NAME_ANNOTATION_ID name;
            prefix = ns @ ''::'' @ short_name iface @ ''::'' @ Cap name;
            is_construct = (name = ''construct'');
            is_destroy = (name = ''destroy'');
            fields = call_fields m;
            g = (if \<not> is_construct \<and> \<not> is_destroy \<and> same
                 then g\<lparr>methods := methods g @ ''template<>'' @ nl @ ''struct ProxyMethod<'' @ prefix @ ''Params>'' @ nl @
                        ''{'' @ nl @ ''    static constexpr auto impl = &'' @ proxied @ ''::'' @ proxied_name @ '';'' @ nl @
                        ''};'' @ nl @ nl\<rparr>
                 else g);
            c = call_texts base_name ordinal (all_fields fields);
            g = fold field_accessor_for (all_fields fields) g;
            static_str = (if is_construct \<or> is_destroy then ''static '' else []);
            super_str = (if is_construct \<or> is_destroy then ''Super& super'' else []);
            self_str = (if is_construct \<or> is_destroy then ''super'' else ''*this'');
            M = ''M'' @ show_nat ordinal
        in (Suc ordinal,
            client @ ''    using '' @ M @ '' = ProxyClientMethodTraits<'' @ prefix @ ''Params>;'' @ nl @
              ''    '' @ static_str @ ''typename '' @ M @ ''::Result '' @ name @ ''('' @ super_str @ client_args c @
              '')'' @ '';'' @ nl,
            server @ ''    kj::Promise<void> '' @ name @ ''('' @ Cap name @ ''Context call_context) override;'' @ nl,
            g\<lparr>def_client := def_client g @ ''ProxyClient<'' @ ns @ ''::'' @ node_name @ ''>::'' @ M @
                ''::Result ProxyClient<'' @ ns @ ''::'' @ node_name @ ''>::'' @ name @ ''('' @ super_str @ client_args c @
                '') {'' @ nl @
                (if has_result fields then ''    typename '' @ M @ ''::Result result;'' @ nl else []) @
                ''    clientInvoke('' @ self_str @ '', &'' @ ns @ ''::'' @ node_name @ ''::Client::'' @ name @ ''Request'' @
                client_invoke c @ '');'' @ nl @
                (if has_result fields then ''    return result;'' @ nl else []) @ ''}'' @ nl,
              def_server := def_server g @ ''kj::Promise<void> ProxyServer<'' @ ns @ ''::'' @ node_name @ ''>::'' @ name @
                ''('' @ Cap name @ ''Context call_context) {'' @ nl @
                ''    return serverInvoke(*this, call_context, '' @ server_start c @
                (if is_destroy then ''ServerDestroy()'' else ''ServerCall()'') @ server_end c @ '');'' @ nl @ ''}'' @ nl\<rparr>))"

end
