(* ===== verification/GenFiles.thy ===== *)
theory GenFiles
  imports GenOutput
begin

text \<open>
  \<open>Generate\<close> and \<open>main\<close> of \<open>src/mp/gen.cpp\<close>: paths, the run of the Cap'n Proto compiler, the loop
  over the nodes of the schema and the files written. The compiler, the parser and the
  directories that exist are parameters.
\<close>

section \<open>Interfaces\<close>

text \<open>
  An interface without a C++ class writes nothing. For a class with template arguments no \<open>ProxyType\<close>
  is written.
\<close>

definition interface_type :: "string \<Rightarrow> string \<Rightarrow> nat \<Rightarrow> gen_output \<Rightarrow> gen_output" where
  "interface_type qualified proxied node_id g =
     (if CHR ''<'' \<in> set proxied then g
      else g\<lparr>dec := dec g @ ''template<>'' @ nl @ ''struct ProxyType<'' @ proxied @ ''>'' @ nl @ ''{'' @ nl @
               ''    using Type = '' @ proxied @ '';'' @ nl @
               ''    using Message = '' @ qualified @ '';'' @ nl @
               ''    using Client = ProxyClient<Message>;'' @ nl @
               ''    using Server = ProxyServer<Message>;'' @ nl @ ''};'' @ nl,
             int_client := int_client g @ ''ProxyTypeRegister t'' @ show_nat node_id @
               ''{TypeList<'' @ proxied @ ''>{}};'' @ nl\<rparr>)"

definition interface_dtors :: "string \<Rightarrow> gen_output \<Rightarrow> gen_output" where
  "interface_dtors qualified g =
     g\<lparr>def_types := def_types g @
         ''ProxyClient<'' @ qualified @ ''>::~ProxyClient() { clientDestroy(*this);  }'' @ nl @
         ''ProxyServer<'' @ qualified @ ''>::~ProxyServer() { serverDestroy(*this); }'' @ nl\<rparr>"

definition gen_interface ::
  "string \<Rightarrow> string \<Rightarrow> string \<Rightarrow> nat \<Rightarrow> string \<Rightarrow> interface_schema \<Rightarrow> gen_output \<Rightarrow> gen_output" where
  "gen_interface base_name ns node_name node_id proxied iface g =
     (let qualified = ns @ ''::'' @ node_name;
          client = ''template<>'' @ nl @ ''struct ProxyClient<'' @ qualified @ ''> final : '' @
            ''public ProxyClientCustom<'' @ qualified @ '', '' @ proxied @ ''>'' @ nl @ ''{'' @ nl @
            ''public:'' @ nl @ ''    using ProxyClientCustom::ProxyClientCustom;'' @ nl @ ''    ~ProxyClient();'' @ nl;
          server = ''template<>'' @ nl @ ''struct ProxyServer<'' @ qualified @ ''> : public '' @
            ''ProxyServerCustom<'' @ qualified @ '', '' @ proxied @ ''>'' @ nl @ ''{'' @ nl @
            ''public:'' @ nl @ ''    using ProxyServerCustom::ProxyServerCustom;'' @ nl @ ''    ~ProxyServer();'' @ nl
      in (case ForEachMethod (gen_call base_name ns node_name proxied) True iface (0, client, server, g) of
            (ordinal, client, server, g) \<Rightarrow>
              interface_dtors qualified
                (interface_type qualified proxied node_id
                  (g\<lparr>dec := dec g @ nl @ client @ ''};'' @ nl @ nl @ server @ ''};'' @ nl @ nl\<rparr>))))"

section \<open>Nodes\<close>

datatype node_kind =
    Node_struct "string list" "schema_field list"
  | Node_interface interface_schema
  | Node_other

record schema_node =
  n_name :: string
  n_id :: nat
  n_annotations :: "annotation list"
  n_kind :: node_kind

record file_schema =
  file_annotations :: "annotation list"
  nested_nodes :: "schema_node list"

definition gen_node :: "string \<Rightarrow> string \<Rightarrow> schema_node \<Rightarrow> gen_output \<Rightarrow> gen_output" where
  "gen_node base_name ns node g =
     (let proxied = get_text (n_annotations node) WRAP_ANNOTATION_ID []
      in case n_kind node of
           Node_struct ps sfs \<Rightarrow>
             let fs = all_fields (struct_fields sfs)
             in struct_inl ns (n_name node) proxied fs (struct_dec base_name ns (n_name node) ps fs g)
         | Node_interface iface \<Rightarrow>
             if proxied \<noteq> [] then gen_interface base_name ns (n_name node) (n_id node) proxied iface g else g
         | Node_other \<Rightarrow> g)"

definition gen_nodes :: "string \<Rightarrow> file_schema \<Rightarrow> gen_output" where
  "gen_nodes base_name schema =
     fold (gen_node base_name (get_text (file_annotations schema) NAMESPACE_ANNOTATION_ID []))
       (nested_nodes schema) empty_output"

section \<open>Paths\<close>

definition output_path :: "string \<Rightarrow> string \<Rightarrow> string + string" where
  "output_path src_prefix src_file =
     (if src_prefix = ''.'' then Inr src_file
      else if \<not> startsWith src_file src_prefix \<or> length src_file \<le> length src_prefix \<or>
              src_file ! length src_prefix \<noteq> CHR ''/''
      then Inl ''src_prefix is not src_file prefix''
      else Inr (drop (length src_prefix + 1) src_file))"

definition include_path :: "string \<Rightarrow> string \<Rightarrow> string + string" where
  "include_path include_prefix src_file =
     (if include_prefix = ''.'' then Inr src_file
      else if \<not> startsWith src_file include_prefix \<or> length src_file \<le> length include_prefix \<or>
              src_file ! length include_prefix \<noteq> CHR ''/''
      then Inl ''include_prefix is not src_file prefix''
      else Inr (drop (length include_prefix + 1) src_file))"

definition include_base :: "string \<Rightarrow> string" where
  "include_base path = (case rfind CHR ''.'' path of None \<Rightarrow> path | Some p \<Rightarrow> take p path)"

definition base_name_of :: "string \<Rightarrow> string" where
  "base_name_of base = (case rfind CHR ''/'' base of None \<Rightarrow> base | Some p \<Rightarrow> drop (p + 1) base)"

definition guard_char :: "char \<Rightarrow> char" where
  "guard_char c =
     (if (48 :: nat) \<le> of_char c \<and> of_char c \<le> (57 :: nat) then c
      else if (65 :: nat) \<le> of_char c \<and> of_char c \<le> (90 :: nat) then c
      else if lower c then upper_of c
      else CHR ''_'')"

definition compiler_args :: "string \<Rightarrow> string \<Rightarrow> string list \<Rightarrow> string \<Rightarrow> string list" where
  "compiler_args capnp_PREFIX src_prefix import_paths src_file =
     [capnp_PREFIX @ ''/bin/capnp'', ''compile'', ''--src-prefix='' @ src_prefix] @
     map (\<lambda>p. ''--import-path='' @ p) import_paths @
     [''--output='' @ capnp_PREFIX @ ''/bin/capnpc-c++'', src_file]"

section \<open>Files\<close>

definition file_top :: "string \<Rightarrow> string" where
  "file_top src_file = ''// Generated by mpgen from '' @ src_file @ nl @ nl"

text \<open>What is written to each file after the nodes of the schema.\<close>

definition server_nodes :: "gen_output \<Rightarrow> string" where
  "server_nodes g = def_server g @ ''} // namespace mp'' @ nl"

definition client_nodes :: "gen_output \<Rightarrow> string" where
  "client_nodes g =
     def_client g @ ''namespace {'' @ nl @ int_client g @ ''} // namespace'' @ nl @ ''} // namespace mp'' @ nl"

definition types_nodes :: "gen_output \<Rightarrow> string" where
  "types_nodes g = def_types g @ ''} // namespace mp'' @ nl"

definition inl_nodes :: "gen_output \<Rightarrow> string" where
  "inl_nodes g = inl g @ ''} // namespace mp'' @ nl @ ''#endif'' @ nl"

definition h_nodes :: "string \<Rightarrow> gen_output \<Rightarrow> string" where
  "h_nodes base_name g =
     methods g @ ''namespace '' @ base_name @ ''_fields {'' @ nl @ snd (accessors g) @
     ''} // namespace '' @ base_name @ ''_fields'' @ nl @ dec g"

definition h_end :: string where
  "h_end = ''} // namespace mp'' @ nl @ ''#if defined(__GNUC__)'' @ nl @ ''#pragma GCC diagnostic pop'' @ nl @
     ''#endif'' @ nl @ ''#endif'' @ nl"

definition cpp_server_text :: "string \<Rightarrow> string \<Rightarrow> gen_output \<Rightarrow> string" where
  "cpp_server_text src_file inc g =
     file_top src_file @
     ''// IWYU pragma: no_include <kj/memory.h>'' @ nl @ ''// IWYU pragma: no_include <memory>'' @ nl @
     ''// IWYU pragma: begin_keep'' @ nl @
     ''#include <'' @ inc @ ''.proxy.h>'' @ nl @ ''#include <'' @ inc @ ''.proxy-types.h>'' @ nl @
     ''#include <capnp/generated-header-support.h>'' @ nl @ ''#include <cstring>'' @ nl @
     ''#include <kj/async.h>'' @ nl @ ''#include <kj/common.h>'' @ nl @ ''#include <kj/exception.h>'' @ nl @
     ''#include <kj/tuple.h>'' @ nl @ ''#include <mp/proxy.h>'' @ nl @ ''#include <mp/util.h>'' @ nl @
     ''#include <mp/proxy-types.h>'' @ nl @ ''// IWYU pragma: end_keep'' @ nl @ nl @ ''namespace mp {'' @ nl @
     server_nodes g"

definition cpp_client_text :: "string \<Rightarrow> string \<Rightarrow> gen_output \<Rightarrow> string" where
  "cpp_client_text src_file inc g =
     file_top src_file @
     ''// IWYU pragma: no_include <kj/memory.h>'' @ nl @ ''// IWYU pragma: no_include <memory>'' @ nl @
     ''// IWYU pragma: begin_keep'' @ nl @ ''#include <'' @ inc @ ''.h>'' @ nl @
     ''#include <'' @ inc @ ''.proxy.h>'' @ nl @ ''#include <'' @ inc @ ''.proxy-types.h>'' @ nl @
     ''#include <capnp/generated-header-support.h>'' @ nl @ ''#include <cstring>'' @ nl @ ''#include <vector>'' @ nl @
     ''#include <kj/common.h>'' @ nl @ ''#include <mp/proxy.h>'' @ nl @ ''#include <mp/util.h>'' @ nl @
     ''#include <mp/proxy-types.h>'' @ nl @ ''// IWYU pragma: end_keep'' @ nl @ nl @ ''namespace mp {'' @ nl @
     client_nodes g"

definition cpp_types_text :: "string \<Rightarrow> string \<Rightarrow> gen_output \<Rightarrow> string" where
  "cpp_types_text src_file inc g =
     file_top src_file @
     ''// IWYU pragma: no_include '' @ dq @ ''mp/proxy.h'' @ dq @ nl @
     ''// IWYU pragma: no_include '' @ dq @ ''mp/proxy-io.h'' @ dq @ nl @
     ''#include <'' @ inc @ ''.h> // IWYU pragma: keep'' @ nl @ ''#include <'' @ inc @ ''.proxy.h>'' @ nl @
     ''#include <'' @ inc @ ''.proxy-types.h> // IWYU pragma: keep'' @ nl @ ''#include <kj/common.h>'' @ nl @
     ''#include <mp/util.h>'' @ nl @ ''#include <mp/proxy-types.h>'' @ nl @ nl @ ''namespace mp {'' @ nl @
     types_nodes g"

text \<open>The includes that annotations of the file ask for.\<close>

definition annotated_includes :: "annotation list \<Rightarrow> nat \<Rightarrow> string" where
  "annotated_includes as i =
     concat (map (\<lambda>a. ''#include '' @ dq @ (case snd a of Text s \<Rightarrow> s | _ \<Rightarrow> []) @ dq @
       '' // IWYU pragma: export'' @ nl) (filter (\<lambda>a. fst a = i) as))"

definition inl_text :: "string \<Rightarrow> string \<Rightarrow> string \<Rightarrow> annotation list \<Rightarrow> gen_output \<Rightarrow> string" where
  "inl_text src_file inc guard as g =
     file_top src_file @
     ''#ifndef '' @ guard @ ''_PROXY_TYPES_H'' @ nl @ ''#define '' @ guard @ ''_PROXY_TYPES_H'' @ nl @ nl @
     ''// IWYU pragma: no_include '' @ dq @ ''mp/proxy.h'' @ dq @ nl @
     ''#include <mp/proxy.h> // IWYU pragma: keep'' @ nl @
     ''#include <'' @ inc @ ''.proxy.h> // IWYU pragma: keep'' @ nl @
     annotated_includes as INCLUDE_TYPES_ANNOTATION_ID @ ''namespace mp {'' @ nl @
     inl_nodes g"

definition h_text :: "string \<Rightarrow> string \<Rightarrow> string \<Rightarrow> string \<Rightarrow> annotation list \<Rightarrow> gen_output \<Rightarrow> string" where
  "h_text src_file inc guard base_name as g =
     file_top src_file @
     ''#ifndef '' @ guard @ ''_PROXY_H'' @ nl @ ''#define '' @ guard @ ''_PROXY_H'' @ nl @ nl @
     ''#include <'' @ inc @ ''.h> // IWYU pragma: keep'' @ nl @
     annotated_includes as INCLUDE_ANNOTATION_ID @ ''#include <mp/proxy.h>'' @ nl @ nl @
     ''#if defined(__GNUC__)'' @ nl @ ''#pragma GCC diagnostic push'' @ nl @ ''#if !defined(__has_warning)'' @ nl @
     ''#pragma GCC diagnostic ignored '' @ dq @ ''-Wsuggest-override'' @ dq @ nl @
     ''#elif __has_warning('' @ dq @ ''-Wsuggest-override'' @ dq @ '')'' @ nl @
     ''#pragma GCC diagnostic ignored '' @ dq @ ''-Wsuggest-override'' @ dq @ nl @
     ''#endif'' @ nl @ ''#endif'' @ nl @ ''namespace mp {'' @ nl @
     h_nodes base_name g @ h_end"

section \<open>Generate\<close>

text \<open>
  \<open>run\<close> forks and executes the compiler and gives the status \<open>WaitProcess\<close> returns, \<open>None\<close> when
  the fork fails; \<open>parse\<close> reads the schema of the path. Errors are the texts of the exceptions; the
  result is the list of the files with their contents.
\<close>

definition GenerateFiles ::
  "string \<Rightarrow> (string list \<Rightarrow> int option) \<Rightarrow> (string \<Rightarrow> string list \<Rightarrow> string + file_schema) \<Rightarrow>
   string \<Rightarrow> string \<Rightarrow> string \<Rightarrow> string list \<Rightarrow> string + (string \<times> string) list" where
  "GenerateFiles capnp_PREFIX run parse src_prefix include_prefix src_file import_paths =
     bind_res (output_path src_prefix src_file) (\<lambda>out.
     bind_res (include_path include_prefix src_file) (\<lambda>inc.
       case run (compiler_args capnp_PREFIX src_prefix import_paths src_file) of
         None \<Rightarrow> Inl ''fork''
       | Some status \<Rightarrow>
           if status \<noteq> 0 then Inl (''Invoking '' @ capnp_PREFIX @ ''/bin/capnp failed'')
           else bind_res (parse out import_paths) (\<lambda>schema.
             let base_name = base_name_of (include_base inc);
                 guard = map guard_char out;
                 as = file_annotations schema;
                 g = gen_nodes base_name schema
             in Inr [(out @ ''.proxy-server.c++'', cpp_server_text src_file inc g),
                     (out @ ''.proxy-client.c++'', cpp_client_text src_file inc g),
                     (out @ ''.proxy-types.c++'', cpp_types_text src_file inc g),
                     (out @ ''.proxy-types.h'', inl_text src_file inc guard as g),
                     (out @ ''.proxy.h'', h_text src_file inc guard base_name as g)])))"

section \<open>main\<close>

text \<open>
  \<open>argv\<close> without its final null pointer. \<open>is_dir\<close> says which directories can be opened; reading the
  null pointer is \<open>Null_argument\<close>.
\<close>

datatype gen_result =
    Usage
  | Fails string
  | Null_argument
  | Written "(string \<times> string) list"

definition open_imports :: "(string \<Rightarrow> bool) \<Rightarrow> string list \<Rightarrow> string + string list" where
  "open_imports is_dir =
     map_res (\<lambda>p. if is_dir p then Inr p else Inl (''Failed to open import directory: '' @ p))"

definition gen_main ::
  "string \<Rightarrow> string \<Rightarrow> (string list \<Rightarrow> int option) \<Rightarrow> (string \<Rightarrow> string list \<Rightarrow> string + file_schema) \<Rightarrow>
   (string \<Rightarrow> bool) \<Rightarrow> string list \<Rightarrow> gen_result" where
  "gen_main CMAKE_INSTALL_PREFIX capnp_PREFIX run parse is_dir argv =
     (if length argv < 3 then Usage
      else if \<not> is_dir (argv ! 1) then Fails (''Failed to open src_prefix prefix directory: '' @ argv ! 1)
      else
        (case open_imports is_dir (drop 4 argv) of
           Inl e \<Rightarrow> Fails e
         | Inr import_paths \<Rightarrow>
             let import_paths = import_paths @
                   filter is_dir [CMAKE_INSTALL_PREFIX @ ''/include'', capnp_PREFIX @ ''/include'']
             in if length argv \<le> 3 then Null_argument
                else
                  (case GenerateFiles capnp_PREFIX run parse (argv ! 1) (argv ! 2) (argv ! 3) import_paths of
                     Inl e \<Rightarrow> Fails e
                   | Inr written \<Rightarrow> Written written)))"

end
