(* ===== verification/Calls.thy ===== *)
theory Calls
  imports Util Containers Logging
begin

text \<open>
  A remote call: the field chains of \<open>include/mp/proxy-types.h\<close> that \<open>clientInvoke\<close> runs before
  and after a request (\<open>IterateFields\<close>, \<open>ClientParam\<close>, \<open>ClientException\<close>), and the nested field
  handlers that \<open>serverInvoke\<close> runs around the method (\<open>ServerField\<close> with \<open>PassField\<close>,
  \<open>ServerRet\<close>, \<open>ServerExcept\<close>, \<open>ServerCall\<close>, \<open>ServerDestroy\<close>).
\<close>

section \<open>Types, values, messages\<close>

text \<open>
  The C++ type of a parameter: a value, a reference of either kind, a pointer. The
  handler of the value behind it comes with it.
\<close>

datatype ('v, 'm) cpp_type =
    By_value "('v, 'm) field_type"
  | By_ref "('v, 'm) field_type"
  | By_pointer "('v, 'm) field_type"

text \<open>A variable of such a type. A pointer is null or points to a value.\<close>

datatype 'v var = Val 'v | Ptr "'v option"

text \<open>
  A message is a struct with named fields. An accessor is the name of a field with the flags that
  say how it is used.
\<close>

type_synonym 'm message = "string \<Rightarrow> 'm slot"
type_synonym field_accessor = "string \<times> accessor"

definition set_field_of :: "field_accessor \<Rightarrow> ('m slot \<Rightarrow> 'm slot) \<Rightarrow> 'm message \<Rightarrow> 'm message" where
  "set_field_of a f msg = msg(fst a := f (msg (fst a)))"

text \<open>Exceptions: the type of the object thrown, and its value.\<close>

datatype 'x exn = Exn string 'x

text \<open>
  The overloads for exception types: how an exception of a declared type is built and read, what
  text a \<open>std::exception\<close> is rethrown with, which exception a failed read throws, which types derive
  from which (\<open>is_a\<close>), and the value of the \<open>InterruptException\<close> of \<open>ServerCall\<close>.
  \<open>nil_build\<close> and \<open>nil_read\<close> are the overloads of fields without a C++ argument; \<open>context_field\<close>
  says which fields have the type \<open>mp.Context\<close>.
\<close>

record ('x, 'm, 'c) overloads =
  exn_field :: "string \<Rightarrow> ('x, 'm) field_type"
  what_exn :: "'m \<Rightarrow> 'x"
  read_exn :: "read_error \<Rightarrow> 'x exn"
  is_a :: "string \<Rightarrow> string \<Rightarrow> bool"
  interrupt :: 'x
  nil_build :: "'m slot \<Rightarrow> 'm slot"
  nil_read :: "'m slot \<Rightarrow> 'c \<Rightarrow> 'c"
  context_field :: "string \<Rightarrow> bool"

definition map_error :: "('e \<Rightarrow> 'f) \<Rightarrow> 'e + 'a \<Rightarrow> 'f + 'a" where
  "map_error f r = (case r of Inl e \<Rightarrow> Inl (f e) | Inr x \<Rightarrow> Inr x)"

lemma map_error_simps [simp]: "map_error f (Inl e) = Inl (f e)" "map_error f (Inr x) = Inr x"
  by (simp_all add: map_error_def)

section \<open>Field chains\<close>

text \<open>
  \<open>IterateFieldsHelper::handleChain\<close>: each field object takes the types it has values for off the
  front of the list, the last one gets the rest. A list that is too short, or types a handler has
  no overload for, do not compile: \<open>None\<close>. \<open>IterateFields\<close> starts the chain and takes no types.
\<close>

fun handleChain ::
  "('f \<Rightarrow> nat) \<Rightarrow> ('f \<Rightarrow> 't list \<Rightarrow> 's \<Rightarrow> (('e + unit) \<times> 's) option) \<Rightarrow> 'f list \<Rightarrow> 't list \<Rightarrow> 's \<Rightarrow>
   (('e + unit) \<times> 's) option" where
  "handleChain count handle [] types s = Some (Inr (), s)"
| "handleChain count handle [f] types s = handle f types s"
| "handleChain count handle (f # g # fs) types s =
     (case Split (count f) types of
        None \<Rightarrow> None
      | Some (First, Second) \<Rightarrow>
          (case handle f First s of
             None \<Rightarrow> None
           | Some (Inl e, s') \<Rightarrow> Some (Inl e, s')
           | Some (Inr _, s') \<Rightarrow> handleChain count handle (g # fs) Second s'))"

definition IterateFields ::
  "('f \<Rightarrow> nat) \<Rightarrow> ('f \<Rightarrow> 't list \<Rightarrow> 's \<Rightarrow> (('e + unit) \<times> 's) option) \<Rightarrow> 'f list \<Rightarrow> 't list \<Rightarrow> 's \<Rightarrow>
   (('e + unit) \<times> 's) option" where
  "IterateFields count handle fs types s =
     (case Split 0 types of None \<Rightarrow> None | Some (First, Second) \<Rightarrow> handleChain count handle fs Second s)"

section \<open>Client fields\<close>

text \<open>
  \<open>ClientParam\<close> holds references to variables of the generated method: their numbers.
\<close>

datatype client_field = Client_param field_accessor "nat list" | Client_exception string field_accessor

fun client_count :: "client_field \<Rightarrow> nat" where
  "client_count (Client_param a xs) = length xs"
| "client_count (Client_exception t a) = 0"

definition MaybeSetWant :: "('v, 'm) cpp_type list \<Rightarrow> 'v var list \<Rightarrow> accessor \<Rightarrow> 'm slot \<Rightarrow> 'm slot" where
  "MaybeSetWant types values a s =
     (case (types, values) of
        ([By_pointer c], [Ptr (Some v)]) \<Rightarrow> setWant (Member a) s
      | _ \<Rightarrow> s)"

text \<open>\<open>BuildField\<close> and \<open>ReadField\<close> of the values of one field, for the types of its list.\<close>

definition build_values ::
  "('x, 'm, 'c) overloads \<Rightarrow> ('v, 'm) cpp_type list \<Rightarrow> 'v var list \<Rightarrow> accessor \<Rightarrow> 'm slot \<Rightarrow> 'm slot option" where
  "build_values ov types values a s =
     (case (types, values) of
        ([], []) \<Rightarrow> Some (nil_build ov s)
      | ([By_value c], [Val v]) \<Rightarrow> Some (BuildField c (Member a) v s)
      | ([By_ref c], [Val v]) \<Rightarrow> Some (BuildField c (Member a) v s)
      | ([By_pointer c], [Ptr x]) \<Rightarrow> Some (BuildField (pointer_field c) (Member a) x s)
      | _ \<Rightarrow> None)"

definition read_values ::
  "('x, 'm, 'c) overloads \<Rightarrow> ('v, 'm) cpp_type list \<Rightarrow> 'v var list \<Rightarrow> accessor \<Rightarrow> 'm slot \<Rightarrow> 'c \<Rightarrow>
   (('x exn + 'v var list) \<times> 'c) option" where
  "read_values ov types values a s st =
     (case (types, values) of
        ([], []) \<Rightarrow> Some (Inr [], nil_read ov s st)
      | ([By_value c], [Val v]) \<Rightarrow>
          Some (map_error (read_exn ov) (bind_res (ReadField c (Member a) s (Update v)) (\<lambda>v. Inr [Val v])), st)
      | ([By_ref c], [Val v]) \<Rightarrow>
          Some (map_error (read_exn ov) (bind_res (ReadField c (Member a) s (Update v)) (\<lambda>v. Inr [Val v])), st)
      | ([By_pointer c], [Ptr x]) \<Rightarrow>
          Some (map_error (read_exn ov)
            (bind_res (ReadField (pointer_field c) (Member a) s (Update x)) (\<lambda>x. Inr [Ptr x])), st)
      | _ \<Rightarrow> None)"

text \<open>\<open>BuildParams::handleField\<close> of both; \<open>env\<close> are the variables, the state is the request.\<close>

fun build_params ::
  "('x, 'm, 'c) overloads \<Rightarrow> (nat \<Rightarrow> 'v var) \<Rightarrow> client_field \<Rightarrow> ('v, 'm) cpp_type list \<Rightarrow> 'm message \<Rightarrow>
   (('x exn + unit) \<times> 'm message) option" where
  "build_params ov env (Client_param a xs) types params =
     (let values = map env xs;
          params = set_field_of a (MaybeSetWant types values (snd a)) params
      in if acc_in (snd a)
         then map_option (\<lambda>s. (Inr (), params(fst a := s)))
                (build_values ov types values (snd a) (params (fst a)))
         else Some (Inr (), params))"
| "build_params ov env (Client_exception t a) types params = Some (Inr (), params)"

text \<open>
  \<open>ThrowField\<close>: an exception of the declared type is made from the field, whatever type was
  thrown; a \<open>std::exception\<close> becomes a \<open>std::runtime_error\<close>.
\<close>

definition ThrowField :: "('x, 'm, 'c) overloads \<Rightarrow> string \<Rightarrow> accessor \<Rightarrow> 'm slot \<Rightarrow> 'x exn" where
  "ThrowField ov t a s =
     (if t = ''std::exception'' then Exn ''std::runtime_error'' (what_exn ov (content s))
      else (case ReadField (exn_field ov t) (Member a) s Emplace of
              Inl e \<Rightarrow> read_exn ov e
            | Inr x \<Rightarrow> Exn t x))"

text \<open>\<open>ReadResults::handleField\<close> of both; the state is the variables.\<close>

fun read_results ::
  "('x, 'm, 'c) overloads \<Rightarrow> 'm message \<Rightarrow> client_field \<Rightarrow> ('v, 'm) cpp_type list \<Rightarrow> (nat \<Rightarrow> 'v var) \<times> 'c \<Rightarrow>
   (('x exn + unit) \<times> (nat \<Rightarrow> 'v var) \<times> 'c) option" where
  "read_results ov results (Client_param a xs) types (env, st) =
     (if acc_out (snd a)
      then map_option (\<lambda>(r, st). case r of
               Inl e \<Rightarrow> (Inl e, (env, st))
             | Inr values \<Rightarrow> (Inr (), (fold (\<lambda>(x, v) env. env(x := v)) (zip xs values) env, st)))
             (read_values ov types (map env xs) (snd a) (results (fst a)) st)
      else Some (Inr (), (env, st)))"
| "read_results ov results (Client_exception t a) types (env, st) =
     (if CustomHasField (exn_field ov t) (Member (snd a)) (results (fst a))
      then Some (Inl (ThrowField ov t (snd a) (results (fst a))), (env, st))
      else Some (Inr (), (env, st)))"

section \<open>clientInvoke\<close>

text \<open>
  The thread-local part: the first call of a thread makes its waiter. \<open>None\<close> is a failed
  assertion: the thread is the event loop.
\<close>

record thread_context =
  thread_name :: string
  has_waiter :: bool
  loop_thread :: bool

definition client_thread ::
  "string \<Rightarrow> 'z thread_context_scheme \<Rightarrow> 'z thread_context_scheme option" where
  "client_thread name t =
     (if has_waiter t then Some t
      else if thread_name t \<noteq> [] then None
      else if loop_thread t then None
      else Some (t\<lparr>thread_name := name, has_waiter := True\<rparr>))"

text \<open>
  What \<open>request.send()\<close> ends with: a response, or a \<open>kj::Exception\<close>, which is of type
  \<open>DISCONNECTED\<close> or has a text.
\<close>

datatype 'm response = Response "'m message" | Kj_disconnected | Kj_failed string

text \<open>
  The variables of \<open>clientInvoke\<close> that the two continuations and the disconnected case fill in.
\<close>

record 'x call_result =
  exception :: "'x exn option"
  kj_exception :: string
  disconnected :: "string option"

definition no_result :: "'x call_result" where
  "no_result = \<lparr>exception = None, kj_exception = [], disconnected = None\<rparr>"

definition receive ::
  "('x, 'm, 'c) overloads \<Rightarrow> client_field list \<Rightarrow> ('v, 'm) cpp_type list \<Rightarrow> 'm response \<Rightarrow>
   (nat \<Rightarrow> 'v var) \<times> 'c \<Rightarrow> ('x call_result \<times> (nat \<Rightarrow> 'v var) \<times> 'c) option" where
  "receive ov fs types response s =
     (case response of
        Response results \<Rightarrow>
          map_option (\<lambda>(r, s). (case r of Inl e \<Rightarrow> no_result\<lparr>exception := Some e\<rparr> | Inr _ \<Rightarrow> no_result, s))
            (IterateFields client_count (read_results ov results) fs types s)
      | Kj_disconnected \<Rightarrow>
          Some (no_result\<lparr>disconnected := Some ''IPC client method call interrupted by disconnect.''\<rparr>, s)
      | Kj_failed text \<Rightarrow> Some (no_result\<lparr>kj_exception := ''kj::Exception: '' @ text\<rparr>, s))"

text \<open>
  The end: an exception read from the results is rethrown; otherwise an error is given to the log
  callback at level \<open>Raise\<close>, which is expected to throw.
\<close>

definition client_return :: "('c, 'x exn) LogOptions \<Rightarrow> 'x call_result \<Rightarrow> ('c, 'x exn, unit) action" where
  "client_return opts res st =
     (case exception res of
        Some e \<Rightarrow> (Inl e, st)
      | None \<Rightarrow>
          (case (if kj_exception res \<noteq> [] then MP_LOGPLAIN opts Raise [kj_exception res] st else (Inr (), st)) of
             (Inl e, st) \<Rightarrow> (Inl e, st)
           | (Inr _, st) \<Rightarrow>
               (case disconnected res of
                  None \<Rightarrow> (Inr (), st)
                | Some text \<Rightarrow> MP_LOGPLAIN opts Raise [text] st)))"

text \<open>
  \<open>send\<close> is the other process: it gets the request and has a state of its own. \<open>request0\<close> is the
  request without any field set. A client without connection sends nothing. An exception thrown while the
  request is built ends in a log message of the loop, and the call does not return (\<open>None\<close>).
\<close>

definition clientInvoke ::
  "('x, 'm, 'c) overloads \<Rightarrow> ('c, 'x exn) LogOptions \<Rightarrow> bool \<Rightarrow> client_field list \<Rightarrow>
   ('v, 'm) cpp_type list \<Rightarrow> 'm message \<Rightarrow> ('m message \<Rightarrow> 'w \<Rightarrow> ('m response \<times> 'w) option) \<Rightarrow>
   (nat \<Rightarrow> 'v var) \<Rightarrow> 'c \<Rightarrow> 'w \<Rightarrow> (('x exn + unit) \<times> (nat \<Rightarrow> 'v var) \<times> 'c \<times> 'w) option" where
  "clientInvoke ov opts connected fs types request0 send env st w =
     (if \<not> connected
      then (case client_return opts (no_result\<lparr>disconnected := Some ''IPC client method called after disconnect.''\<rparr>) st of
              (r, st) \<Rightarrow> Some (r, env, st, w))
      else
        (case IterateFields client_count (build_params ov env) fs types request0 of
           None \<Rightarrow> None
         | Some (Inl e, request) \<Rightarrow> None
         | Some (Inr _, request) \<Rightarrow>
             (case send request w of
                None \<Rightarrow> None
              | Some (response, w) \<Rightarrow>
                  (case receive ov fs types response (env, st) of
                     None \<Rightarrow> None
                   | Some (res, env, st) \<Rightarrow>
                       (case client_return opts res st of (r, st) \<Rightarrow> Some (r, env, st, w))))))"

section \<open>Server fields\<close>

text \<open>
  The nested function object that \<open>serverInvoke\<close> is given, from the outside in, around
  \<open>ServerCall\<close> or \<open>ServerDestroy\<close>.
\<close>

datatype server_layer = Server_field nat field_accessor | Server_ret field_accessor
  | Server_except string field_accessor

text \<open>
  \<open>locals\<close> are the variables of the \<open>PassField\<close> functions, which the method gets in this order;
  \<open>lock_held\<close> is \<open>None\<close> for a request that runs on the event loop. \<open>results_misused\<close> records an access to the
  results of a request that has been canceled, whose messages may be freed.
\<close>

record ('v, 'm, 'w) server_state =
  results :: "'m message"
  locals :: "'v var list"
  world :: 'w
  lock_held :: "bool option"
  request_canceled :: bool
  results_misused :: bool

definition build_result ::
  "field_accessor \<Rightarrow> ('m slot \<Rightarrow> 'm slot) \<Rightarrow> ('v, 'm, 'w) server_state \<Rightarrow> ('v, 'm, 'w) server_state" where
  "build_result a f s =
     s\<lparr>results := set_field_of a f (results s), results_misused := results_misused s \<or> request_canceled s\<rparr>"

text \<open>
  The method acts on the state of the program and on the variables it gets references or pointers
  to; a function that returns \<open>void\<close> returns \<open>None\<close>. \<open>cancel\<close> says whether the event loop cancels
  the request while the lock is released, which it can do for requests that have a lock.
\<close>

type_synonym ('v, 'x, 'w) cpp_method = "'v var list \<Rightarrow> 'w \<Rightarrow> ('x exn + 'v option) \<times> 'v var list \<times> 'w"

definition run_method ::
  "('v, 'x, 'w) cpp_method \<Rightarrow> (('v, 'm, 'w) server_state, 'x exn, 'v option) action" where
  "run_method impl s =
     (case impl (locals s) (world s) of (r, ls, w) \<Rightarrow> (r, s\<lparr>locals := ls, world := w\<rparr>))"

definition ServerCall ::
  "('x, 'm, 'w) overloads \<Rightarrow> ('v, 'x, 'w) cpp_method \<Rightarrow> bool \<Rightarrow>
   (('v, 'm, 'w) server_state, 'x exn, 'v option) action" where
  "ServerCall ov impl cancel s =
     TryFinally
       (\<lambda>s. case run_method impl s of (r, s) \<Rightarrow>
          (r, s\<lparr>request_canceled := request_canceled s \<or> (cancel \<and> lock_held s \<noteq> None)\<rparr>))
       (\<lambda>s. let s = s\<lparr>lock_held := map_option (\<lambda>_. True) (lock_held s)\<rparr>
            in if request_canceled s then (Inl (Exn ''mp::InterruptException'' (interrupt ov)), s)
               else (Inr (), s))
       (s\<lparr>lock_held := map_option (\<lambda>_. False) (lock_held s)\<rparr>)"

definition ServerDestroy ::
  "('w \<Rightarrow> ('x exn + unit) \<times> 'w) \<Rightarrow> (('v, 'm, 'w) server_state, 'x exn, 'v option) action" where
  "ServerDestroy destroy s =
     (case destroy (world s) of
        (Inl e, w) \<Rightarrow> (Inl e, s\<lparr>world := w\<rparr>)
      | (Inr _, w) \<Rightarrow> (Inr None, s\<lparr>world := w\<rparr>))"

text \<open>
  \<open>PassField\<close> for one C++ argument: by value or reference, and by pointer; and for none. \<open>next\<close>
  is \<open>fn.invoke\<close>. What it returns is not passed on.
\<close>

type_synonym ('v, 'x, 'm, 'w) server_action =
  "('v, 'm, 'w) server_state \<Rightarrow> (('x exn + 'v option) \<times> ('v, 'm, 'w) server_state) option"

definition PassField_value ::
  "('x, 'm, 'w) overloads \<Rightarrow> field_accessor \<Rightarrow> ('v, 'm) field_type \<Rightarrow> bool \<Rightarrow> 'm message \<Rightarrow>
   ('v, 'x, 'm, 'w) server_action \<Rightarrow> ('v, 'x, 'm, 'w) server_action" where
  "PassField_value ov a c is_ref params fn_invoke s =
     (case (if acc_in (snd a) then ReadField c (Member (snd a)) (params (fst a)) Emplace else Inr (default_value c)) of
        Inl e \<Rightarrow> Some (Inl (read_exn ov e), s)
      | Inr param \<Rightarrow>
          (let i = length (locals s)
           in case fn_invoke (s\<lparr>locals := locals s @ [Val param]\<rparr>) of
                None \<Rightarrow> None
              | Some (Inl e, s) \<Rightarrow> Some (Inl e, s)
              | Some (Inr _, s) \<Rightarrow>
                  (case locals s ! i of
                     Val v \<Rightarrow>
                       Some (Inr None,
                         if acc_out (snd a)
                         then build_result a (BuildField c (Member (snd a)) (if is_ref then v else param)) s
                         else s)
                   | Ptr _ \<Rightarrow> None)))"

definition PassField_pointer ::
  "('x, 'm, 'w) overloads \<Rightarrow> field_accessor \<Rightarrow> ('v, 'm) field_type \<Rightarrow> 'm message \<Rightarrow>
   ('v, 'x, 'm, 'w) server_action \<Rightarrow> ('v, 'x, 'm, 'w) server_action" where
  "PassField_pointer ov a c params fn_invoke s =
     (if \<not> field_want (Member (snd a)) (params (fst a))
      then
        (case fn_invoke (s\<lparr>locals := locals s @ [Ptr None]\<rparr>) of
           None \<Rightarrow> None
         | Some (Inl e, s) \<Rightarrow> Some (Inl e, s)
         | Some (Inr _, s) \<Rightarrow> Some (Inr None, s))
      else
        (case (if acc_in (snd a)
               then ReadField c (Member (snd a)) (params (fst a)) (Update (default_value c))
               else Inr (default_value c)) of
           Inl e \<Rightarrow> Some (Inl (read_exn ov e), s)
         | Inr param \<Rightarrow>
             (let i = length (locals s)
              in case fn_invoke (s\<lparr>locals := locals s @ [Ptr (Some param)]\<rparr>) of
                   None \<Rightarrow> None
                 | Some (Inl e, s) \<Rightarrow> Some (Inl e, s)
                 | Some (Inr _, s) \<Rightarrow>
                     (case locals s ! i of
                        Ptr (Some v) \<Rightarrow>
                          Some (Inr None,
                            if acc_out (snd a) then build_result a (BuildField c (Member (snd a)) v) s else s)
                      | _ \<Rightarrow> None))))"

definition PassField_none ::
  "('x, 'm, 'w) overloads \<Rightarrow> field_accessor \<Rightarrow> 'm message \<Rightarrow>
   ('v, 'x, 'm, 'w) server_action \<Rightarrow> ('v, 'x, 'm, 'w) server_action" where
  "PassField_none ov a params fn_invoke s =
     (case fn_invoke (s\<lparr>world := nil_read ov (params (fst a)) (world s)\<rparr>) of
        None \<Rightarrow> None
      | Some (Inl e, s) \<Rightarrow> Some (Inl e, s)
      | Some (Inr _, s) \<Rightarrow> Some (Inr None, build_result a (nil_build ov) s))"

text \<open>
  The overload of \<open>include/mp/type-context.h\<close>: the rest of the chain runs on a worker thread, holding
  \<open>cancel_lock\<close>. An \<open>InterruptException\<close> ends there.
\<close>

definition PassField_context ::
  "('v, 'x, 'm, 'w) server_action \<Rightarrow> ('v, 'x, 'm, 'w) server_action" where
  "PassField_context fn_invoke s =
     (case fn_invoke (s\<lparr>lock_held := Some True\<rparr>) of
        None \<Rightarrow> None
      | Some (Inr _, s) \<Rightarrow> Some (Inr None, s)
      | Some (Inl (Exn t x), s) \<Rightarrow>
          if t = ''mp::InterruptException'' then Some (Inr None, s) else Some (Inl (Exn t x), s))"

definition PassField ::
  "('x, 'm, 'w) overloads \<Rightarrow> field_accessor \<Rightarrow> ('v, 'm) cpp_type list \<Rightarrow> 'm message \<Rightarrow>
   ('v, 'x, 'm, 'w) server_action \<Rightarrow> ('v, 'x, 'm, 'w) server_action" where
  "PassField ov a types params fn_invoke s =
     (case types of
        [] \<Rightarrow>
          if context_field ov (fst a) then PassField_context fn_invoke s
          else PassField_none ov a params fn_invoke s
      | [By_value c] \<Rightarrow> PassField_value ov a c False params fn_invoke s
      | [By_ref c] \<Rightarrow> PassField_value ov a c True params fn_invoke s
      | [By_pointer c] \<Rightarrow> PassField_pointer ov a c params fn_invoke s
      | _ \<Rightarrow> None)"

text \<open>
  The invoke functions. \<open>base\<close> is \<open>ServerCall\<close> or \<open>ServerDestroy\<close>, \<open>cr\<close> the handler of the
  return type. All but \<open>ServerField\<close> take an empty list of types.
\<close>

fun server_invoke ::
  "('x, 'm, 'w) overloads \<Rightarrow> ('v, 'm) field_type \<Rightarrow> (('v, 'm, 'w) server_state, 'x exn, 'v option) action \<Rightarrow>
   'm message \<Rightarrow> server_layer list \<Rightarrow> ('v, 'm) cpp_type list \<Rightarrow> ('v, 'x, 'm, 'w) server_action" where
  "server_invoke ov cr base params [] types s =
     (if types = [] then Some (base s) else None)"
| "server_invoke ov cr base params (Server_field argc a # parent) types s =
     (case Split argc types of
        None \<Rightarrow> None
      | Some (First, Second) \<Rightarrow>
          PassField ov a First params (server_invoke ov cr base params parent Second) s)"
| "server_invoke ov cr base params (Server_ret a # parent) types s =
     (if types \<noteq> [] then None
      else
        (case server_invoke ov cr base params parent [] s of
           None \<Rightarrow> None
         | Some (Inl e, s) \<Rightarrow> Some (Inl e, s)
         | Some (Inr None, s) \<Rightarrow> None
         | Some (Inr (Some v), s) \<Rightarrow>
             Some (Inr None, build_result a (BuildField cr (Member (snd a)) v) s)))"
| "server_invoke ov cr base params (Server_except t a # parent) types s =
     (if types \<noteq> [] then None
      else
        (case server_invoke ov cr base params parent [] s of
           None \<Rightarrow> None
         | Some (Inr _, s) \<Rightarrow> Some (Inr None, s)
         | Some (Inl (Exn t' x), s) \<Rightarrow>
             if is_a ov t' t
             then Some (Inr None, build_result a (BuildField (exn_field ov t) (Member (snd a)) x) s)
             else Some (Inl (Exn t' x), s)))"

text \<open>
  \<open>serverInvoke\<close>: the list of types is the parameters of the method. An exception that comes out
  rejects the request; \<open>kj_text\<close> is the description Cap'n Proto makes of it.
\<close>

definition serverInvoke ::
  "('x, 'm, 'w) overloads \<Rightarrow> ('v, 'm) field_type \<Rightarrow> (('v, 'm, 'w) server_state, 'x exn, 'v option) action \<Rightarrow>
   ('x exn \<Rightarrow> string) \<Rightarrow> server_layer list \<Rightarrow> ('v, 'm) cpp_type list \<Rightarrow> 'm message \<Rightarrow>
   'm message \<Rightarrow> 'w \<Rightarrow> ('m response \<times> 'w) option" where
  "serverInvoke ov cr base kj_text layers arg_types results0 params w =
     map_option (\<lambda>(r, s). (case r of Inl e \<Rightarrow> Kj_failed (kj_text e) | Inr _ \<Rightarrow> Response (results s), world s))
       (server_invoke ov cr base params layers arg_types
          \<lparr>results = results0, locals = [], world = w,
           lock_held = None,
           request_canceled = False, results_misused = False\<rparr>)"

end
