(* ===== verification/CallChains.thy ===== *)
theory CallChains
  imports Calls FieldTypes
begin

text \<open>
  The chains of fields that the generator writes for a method on both sides (\<open>Generate\<close> in
  \<open>src/mp/gen.cpp\<close>), and what each part of them does: building the request, the handlers of the server, reading
  the response.
\<close>

section \<open>The two sides of a method\<close>

text \<open>
  The fields of a method that are not skipped, in the order of the schema: a \<open>Context\<close>, a C++ parameter, an
  exception, the return value.
\<close>

datatype ('v, 'm) method_field =
    Ctx field_accessor
  | Arg field_accessor "('v, 'm) cpp_type"
  | Exc string field_accessor
  | Ret field_accessor

fun client_fields :: "nat \<Rightarrow> ('v, 'm) method_field list \<Rightarrow> client_field list" where
  "client_fields k [] = []"
| "client_fields k (Ctx a # fs) = Client_param a [] # client_fields k fs"
| "client_fields k (Arg a t # fs) = Client_param a [k] # client_fields (Suc k) fs"
| "client_fields k (Exc t a # fs) = Client_exception t a # client_fields k fs"
| "client_fields k (Ret a # fs) = Client_param a [k] # client_fields (Suc k) fs"

fun server_layers :: "('v, 'm) method_field list \<Rightarrow> server_layer list" where
  "server_layers [] = []"
| "server_layers (Ctx a # fs) = Server_field 0 a # server_layers fs"
| "server_layers (Arg a t # fs) = Server_field 1 a # server_layers fs"
| "server_layers (Exc t a # fs) = Server_except t a # server_layers fs"
| "server_layers (Ret a # fs) = Server_ret a # server_layers fs"

text \<open>\<open>FunctionTraits\<close>: the parameter types of the method, and those with the return type appended.\<close>

fun Params :: "('v, 'm) method_field list \<Rightarrow> ('v, 'm) cpp_type list" where
  "Params [] = []"
| "Params (Arg a t # fs) = t # Params fs"
| "Params (_ # fs) = Params fs"

fun has_ret :: "('v, 'm) method_field list \<Rightarrow> bool" where
  "has_ret [] = False"
| "has_ret (Ret a # fs) = True"
| "has_ret (_ # fs) = has_ret fs"

definition Fields_of :: "('v, 'm) field_type \<Rightarrow> ('v, 'm) method_field list \<Rightarrow> ('v, 'm) cpp_type list" where
  "Fields_of cr fs = (if has_ret fs then Params fs @ [By_value cr] else Params fs)"

fun field_acc :: "('v, 'm) method_field \<Rightarrow> field_accessor" where
  "field_acc (Ctx a) = a" | "field_acc (Arg a t) = a" | "field_acc (Exc t a) = a" | "field_acc (Ret a) = a"

abbreviation field_names :: "('v, 'm) method_field list \<Rightarrow> string set" where
  "field_names fs \<equiv> (\<lambda>f. fst (field_acc f)) ` set fs"

lemma client_fields_Nil [simp]: "client_fields k fs = [] \<longleftrightarrow> fs = []"
  by (cases fs; cases "hd fs") auto

section \<open>Chains\<close>

lemma handleChain_Cons:
  assumes "count f \<le> length types" "fs = [] \<Longrightarrow> length types = count f"
  shows "handleChain count h (f # fs) types s =
    (case h f (take (count f) types) s of
       None \<Rightarrow> None
     | Some (Inl e, s') \<Rightarrow> Some (Inl e, s')
     | Some (Inr _, s') \<Rightarrow> handleChain count h fs (drop (count f) types) s')"
proof (cases fs)
  case Nil
  then show ?thesis using assms(2) by (auto split: option.splits sum.splits)
next
  case (Cons g gs)
  show ?thesis using assms(1) unfolding Cons by (simp add: Split_eq)
qed

lemma IterateFields_eq: "IterateFields count h fs types s = handleChain count h fs types s"
  by (simp add: IterateFields_def Split_eq)

section \<open>What a parameter is on either side\<close>

fun matches :: "('v, 'm) cpp_type \<Rightarrow> 'v var \<Rightarrow> bool" where
  "matches (By_value c) (Val v) = True"
| "matches (By_ref c) (Val v) = True"
| "matches (By_pointer c) (Ptr x) = True"
| "matches _ _ = False"

text \<open>The server's variable for a client's: the value if the field is sent, else a default one.\<close>

fun passed :: "accessor \<Rightarrow> ('v, 'm) cpp_type \<Rightarrow> 'v var \<Rightarrow> 'v var" where
  "passed a (By_pointer c) (Ptr None) = Ptr None"
| "passed a (By_pointer c) (Ptr (Some v)) = Ptr (Some (if acc_in a then v else default_value c))"
| "passed a (By_value c) (Val v) = Val (if acc_in a then v else default_value c)"
| "passed a (By_ref c) (Val v) = Val (if acc_in a then v else default_value c)"
| "passed a _ x = x"

text \<open>The client's variable afterwards, from its own value and the server's variable.\<close>

fun returned :: "accessor \<Rightarrow> ('v, 'm) cpp_type \<Rightarrow> 'v var \<Rightarrow> 'v var \<Rightarrow> 'v var" where
  "returned a (By_ref c) (Val old) (Val new) = Val (if acc_out a then new else old)"
| "returned a (By_pointer c) (Ptr (Some old)) (Ptr (Some new)) = Ptr (Some (if acc_out a then new else old))"
| "returned a _ x y = x"

text \<open>A value that is read back from a field of a type, which \<open>field_codec\<close> promises.\<close>

definition travels :: "('v, 'm) field_type \<Rightarrow> accessor \<Rightarrow> 'v \<Rightarrow> bool" where
  "travels c a v \<longleftrightarrow>
     (\<forall>s d. unset c s \<longrightarrow> ReadField c (Member a) (BuildField c (Member a) v s) d = Inr v)"

lemma travelsD:
  "travels c a v \<Longrightarrow> unset c s \<Longrightarrow> ReadField c (Member a) (BuildField c (Member a) v s) d = Inr v"
  by (simp add: travels_def)

lemma codec_travels: "field_codec c ok fits \<Longrightarrow> ok v \<Longrightarrow> fits (Member a) \<Longrightarrow> travels c a v"
  by (simp add: travels_def field_codec.build_read)

text \<open>
  What a parameter needs to be sent: a by-value parameter is not a result; a null pointer needs a
  \<open>want\<close> flag, which building the value leaves alone.
\<close>

definition keeps_want :: "('v, 'm) field_type \<Rightarrow> accessor \<Rightarrow> 'v \<Rightarrow> bool" where
  "keeps_want c a v \<longleftrightarrow> (\<forall>s. want_flag (BuildField c (Member a) v s) = want_flag s)"

fun sendable :: "accessor \<Rightarrow> ('v, 'm) cpp_type \<Rightarrow> 'v var \<Rightarrow> bool" where
  "sendable a (By_value c) (Val v) = (\<not> acc_out a \<and> (acc_in a \<longrightarrow> travels c a v))"
| "sendable a (By_ref c) (Val v) = (acc_in a \<longrightarrow> travels c a v)"
| "sendable a (By_pointer c) (Ptr x) =
     (case x of None \<Rightarrow> acc_requested a | Some v \<Rightarrow> acc_in a \<longrightarrow> travels c a v \<and> keeps_want c a v)"
| "sendable a _ _ = False"

fun answerable :: "accessor \<Rightarrow> ('v, 'm) cpp_type \<Rightarrow> 'v var \<Rightarrow> bool" where
  "answerable a (By_ref c) (Val v) = (acc_out a \<longrightarrow> travels c a v)"
| "answerable a (By_pointer c) (Ptr (Some v)) = (acc_out a \<longrightarrow> travels c a v)"
| "answerable a _ _ = True"

fun type_unset :: "('v, 'm) cpp_type \<Rightarrow> 'm slot \<Rightarrow> bool" where
  "type_unset (By_value c) s = (unset c s \<and> \<not> want_flag s)"
| "type_unset (By_ref c) s = (unset c s \<and> \<not> want_flag s)"
| "type_unset (By_pointer c) s = (unset c s \<and> \<not> want_flag s)"

lemma unset_setWant [simp]:
  "unset c (setWant p s) = unset c s" "unset c (s\<lparr>want_flag := w\<rparr>) = unset c s"
  by (cases p) (simp_all add: unset_def blank_def)

section \<open>Building the request\<close>

text \<open>The slot of an argument in the request.\<close>

definition arg_slot :: "accessor \<Rightarrow> ('v, 'm) cpp_type \<Rightarrow> 'v var \<Rightarrow> 'm slot \<Rightarrow> 'm slot" where
  "arg_slot a t x s =
     (let s = MaybeSetWant [t] [x] a s
      in if acc_in a
         then (case (t, x) of
                 (By_value c, Val v) \<Rightarrow> BuildField c (Member a) v s
               | (By_ref c, Val v) \<Rightarrow> BuildField c (Member a) v s
               | (By_pointer c, Ptr y) \<Rightarrow> pointer_build c (Member a) y s
               | _ \<Rightarrow> s)
         else s)"

fun request_of ::
  "('x, 'm, 'c) overloads \<Rightarrow> (nat \<Rightarrow> 'v var) \<Rightarrow> nat \<Rightarrow> ('v, 'm) method_field list \<Rightarrow> 'm message \<Rightarrow> 'm message" where
  "request_of ov env k [] pm = pm"
| "request_of ov env k (Ctx a # fs) pm =
     request_of ov env k fs (if acc_in (snd a) then set_field_of a (nil_build ov) pm else pm)"
| "request_of ov env k (Arg a t # fs) pm =
     request_of ov env (Suc k) fs (set_field_of a (arg_slot (snd a) t (env k)) pm)"
| "request_of ov env k (_ # fs) pm = request_of ov env k fs pm"

text \<open>
  Declarations that compile: no parameter comes after an exception, the return value comes last
  and its field is a result only.
\<close>

fun well_ordered :: "('v, 'm) method_field list \<Rightarrow> bool" where
  "well_ordered [] = True"
| "well_ordered (Ret a # fs) = (fs = [] \<and> acc_out (snd a) \<and> \<not> acc_in (snd a))"
| "well_ordered (Ctx a # fs) = (\<not> acc_out (snd a) \<and> well_ordered fs)"
| "well_ordered (Exc t a # fs) = (Params fs = [] \<and> well_ordered fs)"
| "well_ordered (_ # fs) = well_ordered fs"

fun args_match :: "(nat \<Rightarrow> 'v var) \<Rightarrow> nat \<Rightarrow> ('v, 'm) method_field list \<Rightarrow> bool" where
  "args_match env k [] = True"
| "args_match env k (Arg a t # fs) = (matches t (env k) \<and> args_match env (Suc k) fs)"
| "args_match env k (_ # fs) = args_match env k fs"

lemma build_values_arg:
  assumes "matches t x"
  shows "build_values ov [t] [x] a s =
    Some (case (t, x) of
            (By_value c, Val v) \<Rightarrow> BuildField c (Member a) v s
          | (By_ref c, Val v) \<Rightarrow> BuildField c (Member a) v s
          | (By_pointer c, Ptr y) \<Rightarrow> pointer_build c (Member a) y s
          | _ \<Rightarrow> s)"
  using assms by (cases t; cases x) (simp_all add: build_values_def pointer_field_def)

lemma Fields_of_simps [simp]:
  "Fields_of cr [] = []"
  "Fields_of cr (Ctx a # fs) = Fields_of cr fs" "Fields_of cr (Exc t a # fs) = Fields_of cr fs"
  "Fields_of cr (Arg a u # fs) = u # Fields_of cr fs"
  "Fields_of cr [Ret a] = [By_value cr]"
  by (simp_all add: Fields_of_def)

lemma Fields_of_Nil: "client_fields k fs = [] \<Longrightarrow> Fields_of cr fs = []"
  by (cases fs rule: Params.cases) simp_all

lemma build_request:
  assumes "args_match env k fs" "well_ordered fs"
  shows "handleChain client_count (build_params ov env) (client_fields k fs) (Fields_of cr fs) pm =
    Some (Inr (), request_of ov env k fs pm)"
  using assms
proof (induction fs arbitrary: k pm)
  case (Cons f fs)
  show ?case
  proof (cases f)
    case (Ctx a)
    then show ?thesis
      using Cons.IH Cons.prems
      by (simp only: Ctx client_fields.simps Fields_of_simps, subst handleChain_Cons)
        (auto simp: build_values_def set_field_of_def MaybeSetWant_def Let_def)
  next
    case (Arg a t)
    have "build_params ov env (Client_param a [k]) [t] pm =
        Some (Inr (), set_field_of a (arg_slot (snd a) t (env k)) pm)"
      using Cons.prems Arg build_values_arg [of t "env k" ov]
      by (simp add: arg_slot_def set_field_of_def Let_def)
    then show ?thesis using Cons.IH Cons.prems Arg
      by (simp only: Arg client_fields.simps Fields_of_simps, subst handleChain_Cons)
        (auto simp del: build_params.simps)
  next
    case (Exc t a)
    then show ?thesis using Cons.IH Cons.prems
      by (simp only: Exc client_fields.simps Fields_of_simps, subst handleChain_Cons) auto
  next
    case (Ret a)
    then show ?thesis
      using Cons.prems by (simp add: set_field_of_def MaybeSetWant_def Let_def)
  qed
qed simp

lemma request_of_other: "n \<notin> field_names fs \<Longrightarrow> request_of ov env k fs pm n = pm n"
  by (induction ov env k fs pm rule: request_of.induct) (auto simp: set_field_of_def)

text \<open>What the server finds in the request.\<close>

fun request_ok :: "(nat \<Rightarrow> 'v var) \<Rightarrow> nat \<Rightarrow> ('v, 'm) method_field list \<Rightarrow> 'm message \<Rightarrow> bool" where
  "request_ok env k [] pm = True"
| "request_ok env k (Arg a t # fs) pm =
     ((\<exists>s. type_unset t s \<and> pm (fst a) = arg_slot (snd a) t (env k) s) \<and> request_ok env (Suc k) fs pm)"
| "request_ok env k (_ # fs) pm = request_ok env k fs pm"

fun fields_unset :: "('v, 'm) field_type \<Rightarrow> ('v, 'm) method_field list \<Rightarrow> 'm message \<Rightarrow> bool" where
  "fields_unset cr [] pm = True"
| "fields_unset cr (Arg a t # fs) pm = (type_unset t (pm (fst a)) \<and> fields_unset cr fs pm)"
| "fields_unset cr (Ret a # fs) pm = (unset cr (pm (fst a)) \<and> fields_unset cr fs pm)"
| "fields_unset cr (_ # fs) pm = fields_unset cr fs pm"

lemma fields_unset_upd: "n \<notin> field_names fs \<Longrightarrow> fields_unset cr fs (pm(n := s)) = fields_unset cr fs pm"
  by (induction cr fs pm rule: fields_unset.induct) auto

definition distinct_fields :: "('v, 'm) method_field list \<Rightarrow> bool" where
  "distinct_fields fs = distinct (map (\<lambda>f. fst (field_acc f)) fs)"

lemma distinct_fields_Cons [simp]:
  "distinct_fields (f # fs) \<longleftrightarrow> fst (field_acc f) \<notin> field_names fs \<and> distinct_fields fs"
  "distinct_fields []"
  by (auto simp: distinct_fields_def)

lemma request_of_ok:
  assumes "distinct_fields fs" "fields_unset cr fs pm"
  shows "request_ok env k fs (request_of ov env k fs pm)"
  using assms
proof (induction fs arbitrary: k pm)
  case (Cons f fs)
  then show ?case
    by (cases f) (auto simp: set_field_of_def request_of_other fields_unset_upd)
qed simp

section \<open>The handlers of the server\<close>

fun entry ::
  "(nat \<Rightarrow> 'v var) \<Rightarrow> nat \<Rightarrow> ('v, 'm) method_field list \<Rightarrow> ('v, 'm, 'w) server_state \<Rightarrow>
   ('v, 'm, 'w) server_state" where
  "entry env k [] s = s"
| "entry env k (Ctx a # fs) s = entry env k fs (s\<lparr>lock_held := Some True\<rparr>)"
| "entry env k (Arg a t # fs) s =
     entry env (Suc k) fs (s\<lparr>locals := locals s @ [passed (snd a) t (env k)]\<rparr>)"
| "entry env k (_ # fs) s = entry env k fs s"

text \<open>What comes out of the handlers when the method ends with \<open>r\<close>.\<close>

fun outcome ::
  "(string \<Rightarrow> string \<Rightarrow> bool) \<Rightarrow> ('v, 'm) method_field list \<Rightarrow> 'x exn + 'v option \<Rightarrow> 'x exn + 'v option" where
  "outcome isa [] r = r"
| "outcome isa (Ctx a # fs) r =
     (case outcome isa fs r of
        Inl (Exn t x) \<Rightarrow> if t = ''mp::InterruptException'' then Inr None else Inl (Exn t x)
      | Inr _ \<Rightarrow> Inr None)"
| "outcome isa (Exc t a # fs) r =
     (case outcome isa fs r of
        Inl (Exn t' x) \<Rightarrow> if isa t' t then Inr None else Inl (Exn t' x)
      | Inr _ \<Rightarrow> Inr None)"
| "outcome isa (_ # fs) r = (case outcome isa fs r of Inl e \<Rightarrow> Inl e | Inr _ \<Rightarrow> Inr None)"

text \<open>What is written to the results.\<close>

fun answer_slot :: "accessor \<Rightarrow> ('v, 'm) cpp_type \<Rightarrow> 'v var \<Rightarrow> 'm slot \<Rightarrow> 'm slot" where
  "answer_slot a (By_ref c) (Val v) s = (if acc_out a then BuildField c (Member a) v s else s)"
| "answer_slot a (By_pointer c) (Ptr (Some v)) s = (if acc_out a then BuildField c (Member a) v s else s)"
| "answer_slot a _ _ s = s"

fun answers ::
  "('x, 'm, 'w) overloads \<Rightarrow> ('v, 'm) field_type \<Rightarrow> ('v, 'm) method_field list \<Rightarrow> 'v var list \<Rightarrow>
   'x exn + 'v option \<Rightarrow> 'm message \<Rightarrow> 'm message" where
  "answers ov cr [] args r res = res"
| "answers ov cr (Ctx a # fs) args r res = answers ov cr fs args r res"
| "answers ov cr (Arg a t # fs) args r res =
     (let res' = answers ov cr fs (tl args) r res
      in if isl (outcome (is_a ov) fs r) then res' else set_field_of a (answer_slot (snd a) t (hd args)) res')"
| "answers ov cr (Exc t a # fs) args r res =
     (let res' = answers ov cr fs args r res
      in case outcome (is_a ov) fs r of
           Inl (Exn t' x) \<Rightarrow>
             if is_a ov t' t then set_field_of a (BuildField (exn_field ov t) (Member (snd a)) x) res' else res'
         | Inr _ \<Rightarrow> res')"
| "answers ov cr (Ret a # fs) args r res =
     (let res' = answers ov cr fs args r res
      in case outcome (is_a ov) fs r of
           Inr (Some v) \<Rightarrow> set_field_of a (BuildField cr (Member (snd a)) v) res'
         | _ \<Rightarrow> res')"

lemma answers_other: "n \<notin> field_names fs \<Longrightarrow> answers ov cr fs args r res n = res n"
  by (induction ov cr fs args r res rule: answers.induct)
    (auto simp: set_field_of_def Let_def split: sum.splits exn.splits option.splits)

text \<open>The variables the method leaves are of the shape of the ones it got.\<close>

fun same_shape :: "'v var \<Rightarrow> 'v var \<Rightarrow> bool" where
  "same_shape (Val v) (Val w) = True"
| "same_shape (Ptr x) (Ptr y) = ((x = None) = (y = None))"
| "same_shape _ _ = False"

fun passed_args :: "(nat \<Rightarrow> 'v var) \<Rightarrow> nat \<Rightarrow> ('v, 'm) method_field list \<Rightarrow> 'v var list" where
  "passed_args env k [] = []"
| "passed_args env k (Arg a t # fs) = passed (snd a) t (env k) # passed_args env (Suc k) fs"
| "passed_args env k (_ # fs) = passed_args env k fs"

fun sendable_args :: "(nat \<Rightarrow> 'v var) \<Rightarrow> nat \<Rightarrow> ('v, 'm) method_field list \<Rightarrow> bool" where
  "sendable_args env k [] = True"
| "sendable_args env k (Arg a t # fs) = (sendable (snd a) t (env k) \<and> sendable_args env (Suc k) fs)"
| "sendable_args env k (_ # fs) = sendable_args env k fs"

text \<open>One argument: the handler reads what the client passed.\<close>

lemma read_arg:
  assumes "sendable a t (Val v)" "type_unset t s" "t = By_value c \<or> t = By_ref c" "acc_in a"
  shows "ReadField c (Member a) (arg_slot a t (Val v) s) Emplace = Inr v"
  using assms by (auto simp: arg_slot_def MaybeSetWant_def intro!: travelsD)

lemma want_null:
  assumes "sendable a (By_pointer c) (Ptr None)" "type_unset (By_pointer c) s"
  shows "\<not> field_want (Member a) (arg_slot a (By_pointer c) (Ptr None) s)"
  using assms by (simp add: arg_slot_def MaybeSetWant_def pointer_build_def Let_def)

lemma want_value:
  assumes "sendable a (By_pointer c) (Ptr (Some v))"
  shows "field_want (Member a) (arg_slot a (By_pointer c) (Ptr (Some v)) s)"
  using assms by (simp add: arg_slot_def MaybeSetWant_def pointer_build_def keeps_want_def Let_def)

lemma read_pointer:
  assumes "sendable a (By_pointer c) (Ptr (Some v))" "type_unset (By_pointer c) s" "acc_in a"
  shows "ReadField c (Member a) (arg_slot a (By_pointer c) (Ptr (Some v)) s) d = Inr v"
  using assms by (auto simp: arg_slot_def MaybeSetWant_def pointer_build_def Let_def intro!: travelsD)

lemma build_result_eq:
  "\<not> request_canceled s \<Longrightarrow> build_result a f s = s\<lparr>results := set_field_of a f (results s)\<rparr>"
  by (cases s) (simp add: build_result_def)

lemma set_field_of_id [simp]: "set_field_of a (\<lambda>s. s) msg = msg"
  by (simp add: set_field_of_def)

lemma answer_slot_fn:
  "answer_slot a (By_value c) x = (\<lambda>s. s)" "answer_slot a (By_pointer c) (Ptr None) = (\<lambda>s. s)"
  "answer_slot a (By_ref c) (Val v) = (if acc_out a then BuildField c (Member a) v else (\<lambda>s. s))"
  "answer_slot a (By_pointer c) (Ptr (Some v)) = (if acc_out a then BuildField c (Member a) v else (\<lambda>s. s))"
  by (auto simp: fun_eq_iff)

definition arg_done ::
  "field_accessor \<Rightarrow> ('v, 'm) cpp_type \<Rightarrow> 'v var \<Rightarrow> ('v, 'm, 'w) server_state \<Rightarrow> ('v, 'm, 'w) server_state" where
  "arg_done a t q s =
     (case (t, q) of
        (By_ref c, Val v) \<Rightarrow> if acc_out (snd a) then build_result a (BuildField c (Member (snd a)) v) s else s
      | (By_pointer c, Ptr (Some v)) \<Rightarrow>
          if acc_out (snd a) then build_result a (BuildField c (Member (snd a)) v) s else s
      | _ \<Rightarrow> s)"

lemma arg_done_eq:
  assumes "\<not> request_canceled s"
  shows "arg_done a t q s = s\<lparr>results := set_field_of a (answer_slot (snd a) t q) (results s)\<rparr>"
proof -
  have same: "s\<lparr>results := results s\<rparr> = s" by (cases s) simp
  show ?thesis
  proof (cases t)
    case (By_value c)
    then show ?thesis using same by (simp add: arg_done_def answer_slot_fn)
  next
    case (By_ref c)
    then show ?thesis
      using same build_result_eq [OF assms]
      by (cases q) (simp_all add: arg_done_def answer_slot_fn set_field_of_def)
  next
    case (By_pointer c)
    then show ?thesis
      using same build_result_eq [OF assms]
      by (cases q; cases "case q of Ptr x \<Rightarrow> x | _ \<Rightarrow> None")
        (simp_all add: arg_done_def answer_slot_fn set_field_of_def)
  qed
qed

lemma arg_done_canceled:
  "request_canceled s \<Longrightarrow> results_misused s \<Longrightarrow>
    request_canceled (arg_done a t q s) \<and> results_misused (arg_done a t q s)"
  "locals (arg_done a t q s) = locals s" "world (arg_done a t q s) = world s"
  by (auto simp: arg_done_def build_result_def split: cpp_type.splits var.splits option.splits)

text \<open>One handler around the rest: what it does when the rest ends in \<open>s2\<close> with \<open>r\<close>.\<close>

lemma PassField_arg:
  assumes "sendable (snd a) t x" "type_unset t s0" "params (fst a) = arg_slot (snd a) t x s0"
    and "fn_invoke (s\<lparr>locals := locals s @ [passed (snd a) t x]\<rparr>) = Some (r, s2)"
    and "locals s2 = pre @ q # qs" "length pre = length (locals s)"
    and "same_shape (passed (snd a) t x) q"
  shows "PassField ov a [t] params fn_invoke s =
    Some (case r of Inl e \<Rightarrow> (Inl e, s2)
      | Inr _ \<Rightarrow> (Inr None, arg_done a t q s2))"
proof -
  have at: "locals s2 ! length (locals s) = q"
    using assms(5,6) by (metis nth_append_length)
  have direct: "PassField_value ov a c is_ref params fn_invoke s =
      Some (case r of Inl e \<Rightarrow> (Inl e, s2)
        | Inr _ \<Rightarrow> (Inr None, arg_done a t q s2))"
    if t: "t = (if is_ref then By_ref c else By_value c)" for c is_ref
  proof -
    obtain v where v: "x = Val v" using assms(1) t by (cases x; cases is_ref) auto
    have read: "(if acc_in (snd a) then ReadField c (Member (snd a)) (params (fst a)) Emplace
        else Inr (default_value c)) = Inr (if acc_in (snd a) then v else default_value c)"
      using read_arg [OF assms(1) [unfolded v] assms(2)] t assms(3) v by (cases is_ref) auto
    have p: "passed (snd a) t x = Val (if acc_in (snd a) then v else default_value c)"
      using t v by (cases is_ref) simp_all
    obtain w where w: "q = Val w" using assms(7) p by (cases q) auto
    have "\<not> is_ref \<Longrightarrow> \<not> acc_out (snd a)" using assms(1) t v by simp
    then show ?thesis
      unfolding PassField_value_def read
      using assms(4) p at w t by (cases r; cases is_ref) (simp_all add: Let_def arg_done_def)
  qed
  show ?thesis
  proof (cases t)
    case (By_value c)
    then show ?thesis using direct [of False c] by (simp add: PassField_def)
  next
    case (By_ref c)
    then show ?thesis using direct [of True c] by (simp add: PassField_def)
  next
    case (By_pointer c)
    then obtain y where y: "x = Ptr y" using assms(1) by (cases x) auto
    show ?thesis
    proof (cases y)
      case None
      have "\<not> field_want (Member (snd a)) (params (fst a))"
        using want_null [of "snd a" c s0] assms(1-3) By_pointer y None by simp
      moreover have "q = Ptr None" using assms(7) By_pointer y None by (cases q) auto
      ultimately show ?thesis
        using assms(4) By_pointer y None
        by (cases r) (simp_all add: PassField_def PassField_pointer_def arg_done_def)
    next
      case (Some v)
      have want: "field_want (Member (snd a)) (params (fst a))"
        using want_value [of "snd a" c v s0] assms(1,3) By_pointer y Some by simp
      have read: "(if acc_in (snd a) then ReadField c (Member (snd a)) (params (fst a)) (Update (default_value c))
          else Inr (default_value c)) = Inr (if acc_in (snd a) then v else default_value c)"
        using read_pointer [of "snd a" c v s0] assms(1-3) By_pointer y Some by simp
      obtain w where w: "q = Ptr (Some w)" using assms(7) By_pointer y Some by (cases q) auto
      have "PassField_pointer ov a c params fn_invoke s =
        Some (case r of Inl e \<Rightarrow> (Inl e, s2)
          | Inr _ \<Rightarrow> (Inr None, arg_done a t q s2))"
        unfolding PassField_pointer_def read
        using want assms(4) By_pointer y Some at w by (cases r) (simp_all add: Let_def arg_done_def)
      then show ?thesis using By_pointer by (simp add: PassField_def)
    qed
  qed
qed

lemma PassField_arg_ends:
  assumes "sendable (snd a) t x" "type_unset t s0" "params (fst a) = arg_slot (snd a) t x s0"
    and "locals s2 = pre @ q # qs" "length pre = length (locals s)"
    and "same_shape (passed (snd a) t x) q"
  shows "fn_invoke (s\<lparr>locals := locals s @ [passed (snd a) t x]\<rparr>) = Some (Inl e, s2) \<Longrightarrow>
      PassField ov a [t] params fn_invoke s = Some (Inl e, s2)"
    and "fn_invoke (s\<lparr>locals := locals s @ [passed (snd a) t x]\<rparr>) = Some (Inr y, s2) \<Longrightarrow>
      PassField ov a [t] params fn_invoke s = Some (Inr None, arg_done a t q s2)"
proof -
  have ends: "PassField ov a [t] params fn_invoke s =
      Some (case r of Inl e \<Rightarrow> (Inl e, s2) | Inr _ \<Rightarrow> (Inr None, arg_done a t q s2))"
    if "fn_invoke (s\<lparr>locals := locals s @ [passed (snd a) t x]\<rparr>) = Some (r, s2)" for r
    by (rule PassField_arg [where x = x and ?s0.0 = s0 and pre = pre and q = q and qs = qs])
      (use assms that in simp_all)
  show "fn_invoke (s\<lparr>locals := locals s @ [passed (snd a) t x]\<rparr>) = Some (Inl e, s2) \<Longrightarrow>
      PassField ov a [t] params fn_invoke s = Some (Inl e, s2)"
    using ends [of "Inl e"] by simp
  show "fn_invoke (s\<lparr>locals := locals s @ [passed (snd a) t x]\<rparr>) = Some (Inr y, s2) \<Longrightarrow>
      PassField ov a [t] params fn_invoke s = Some (Inr None, arg_done a t q s2)"
    using ends [of "Inr y"] by simp
qed

text \<open>All handlers, around a method that ends with \<open>r\<close>.\<close>

definition contexts_ok :: "('x, 'm, 'w) overloads \<Rightarrow> ('v, 'm) method_field list \<Rightarrow> bool" where
  "contexts_ok ov fs \<longleftrightarrow> (\<forall>a. Ctx a \<in> set fs \<longrightarrow> context_field ov (fst a))"

lemma contexts_ok_Nil [simp]: "contexts_ok ov []"
  by (simp add: contexts_ok_def)

lemma contexts_ok_Cons [simp]:
  "contexts_ok ov (f # fs) \<longleftrightarrow>
     (case f of Ctx a \<Rightarrow> context_field ov (fst a) | _ \<Rightarrow> True) \<and> contexts_ok ov fs"
  by (auto simp: contexts_ok_def split: method_field.splits)

lemma has_ret_simps [simp]:
  "has_ret (Ctx a # fs) = has_ret fs" "has_ret (Exc t a # fs) = has_ret fs"
  "has_ret (Arg a u # fs) = has_ret fs"
  by simp_all

lemma server_chain:
  assumes "request_ok env k fs pm" "args_match env k fs" "sendable_args env k fs" "well_ordered fs"
    and "contexts_ok ov fs"
    and "base (entry env k fs s) = (r, s2)" "locals s2 = pre @ args" "length pre = length (locals s)"
    and "list_all2 same_shape (passed_args env k fs) args" "\<not> request_canceled s2"
    and "has_ret fs \<longrightarrow> r \<noteq> Inr None"
  shows "server_invoke ov cr base pm (server_layers fs) (Params fs) s =
    Some (outcome (is_a ov) fs r, s2\<lparr>results := answers ov cr fs args r (results s2)\<rparr>)"
  using assms
proof (induction fs arbitrary: k s pre args)
  case (Cons f fs)
  note canceled = Cons.prems(10)
  have same: "s2\<lparr>results := results s2\<rparr> = s2" by (cases s2) simp
  show ?case
  proof (cases f)
    case (Ctx a)
    have "server_invoke ov cr base pm (server_layers fs) (Params fs) (s\<lparr>lock_held := Some True\<rparr>) =
        Some (outcome (is_a ov) fs r, s2\<lparr>results := answers ov cr fs args r (results s2)\<rparr>)"
      by (rule Cons.IH [of k _ pre]) (use Cons.prems Ctx in simp_all)
    then show ?thesis
      using Ctx Cons.prems(5)
      by (auto simp: Split_eq PassField_def PassField_context_def split: sum.splits exn.splits)
  next
    case (Arg a t)
    obtain q qs where q: "args = q # qs" "same_shape (passed (snd a) t (env k)) q"
      using Cons.prems(9) Arg by (auto simp: list_all2_Cons1)
    obtain s0 where s0: "type_unset t s0" "pm (fst a) = arg_slot (snd a) t (env k) s0"
      using Cons.prems(1) Arg by auto
    let ?s = "s\<lparr>locals := locals s @ [passed (snd a) t (env k)]\<rparr>"
    let ?t = "s2\<lparr>results := answers ov cr fs qs r (results s2)\<rparr>"
    have "server_invoke ov cr base pm (server_layers fs) (Params fs) ?s = Some (outcome (is_a ov) fs r, ?t)"
      by (rule Cons.IH [of "Suc k" _ "pre @ [q]"]) (use Cons.prems Arg q in simp_all)
    then have "PassField ov a [t] pm (server_invoke ov cr base pm (server_layers fs) (Params fs)) s =
        Some (case outcome (is_a ov) fs r of Inl e \<Rightarrow> (Inl e, ?t) | Inr _ \<Rightarrow> (Inr None, arg_done a t q ?t))"
      by (intro PassField_arg [where x = "env k" and ?s0.0 = s0 and pre = pre and qs = qs] s0)
        (use Cons.prems Arg q in simp_all)
    moreover have "arg_done a t q ?t = ?t\<lparr>results := set_field_of a (answer_slot (snd a) t q) (results ?t)\<rparr>"
      using canceled by (intro arg_done_eq) simp
    ultimately show ?thesis
      using Arg q by (auto simp: Split_eq Let_def split: sum.splits)
  next
    case (Exc t a)
    have "server_invoke ov cr base pm (server_layers fs) [] s =
        Some (outcome (is_a ov) fs r, s2\<lparr>results := answers ov cr fs args r (results s2)\<rparr>)"
      using Cons.IH [of k s pre args] Cons.prems Exc by simp
    then show ?thesis
      using Exc Cons.prems(4) canceled
      by (auto simp: build_result_eq Let_def split: sum.splits exn.splits)
  next
    case (Ret a)
    have "server_invoke ov cr base pm (server_layers fs) [] s = Some (r, s2)"
      using Cons.prems Ret by simp
    then show ?thesis
      using Ret Cons.prems(4,11) canceled same
      by (auto simp: build_result_eq split: sum.splits option.splits)
  qed
qed auto

lemma sendable_matches: "sendable a t x \<Longrightarrow> matches t x"
  by (cases t; cases x) auto

lemma sendable_args_match: "sendable_args env k fs \<Longrightarrow> args_match env k fs"
  by (induction env k fs rule: sendable_args.induct) (auto dest: sendable_matches)

lemma entry_state:
  "locals (entry env k fs s) = locals s @ passed_args env k fs"
  "results (entry env k fs s) = results s" "world (entry env k fs s) = world s"
  "request_canceled (entry env k fs s) = request_canceled s"
  "results_misused (entry env k fs s) = results_misused s"
  by (induction env k fs s rule: entry.induct) simp_all

text \<open>A method that is not canceled while it runs.\<close>

lemma ServerCall_run:
  assumes "impl (locals s) (world s) = (r, args, w)" "\<not> request_canceled s"
  shows "\<exists>l. ServerCall ov impl False s = (r, s\<lparr>locals := args, world := w, lock_held := l\<rparr>)"
  using assms
  by (cases r) (auto simp: ServerCall_def TryFinally_def run_method_def Let_def)

section \<open>Reading the response\<close>

fun final_env ::
  "(nat \<Rightarrow> 'v var) \<Rightarrow> nat \<Rightarrow> ('v, 'm) method_field list \<Rightarrow> 'v var list \<Rightarrow> 'v option \<Rightarrow> (nat \<Rightarrow> 'v var)" where
  "final_env env k [] args ret = env"
| "final_env env k (Arg a t # fs) args ret =
     final_env (env(k := returned (snd a) t (env k) (hd args))) (Suc k) fs (tl args) ret"
| "final_env env k (Ret a # fs) args ret = env(k := Val (the ret))"
| "final_env env k (_ # fs) args ret = final_env env k fs args ret"

fun answers_there ::
  "('x, 'm, 'c) overloads \<Rightarrow> ('v, 'm) method_field list \<Rightarrow> 'v var list \<Rightarrow> 'm message \<Rightarrow> bool" where
  "answers_there ov [] args rm = True"
| "answers_there ov (Arg a t # fs) args rm =
     ((\<exists>s. type_unset t s \<and> rm (fst a) = answer_slot (snd a) t (hd args) s) \<and>
      answers_there ov fs (tl args) rm)"
| "answers_there ov (Exc t a # fs) args rm =
     (\<not> CustomHasField (exn_field ov t) (Member (snd a)) (rm (fst a)) \<and> answers_there ov fs args rm)"
| "answers_there ov (_ # fs) args rm = answers_there ov fs args rm"

fun answerable_args :: "('v, 'm) method_field list \<Rightarrow> 'v var list \<Rightarrow> bool" where
  "answerable_args [] args = True"
| "answerable_args (Arg a t # fs) args = (answerable (snd a) t (hd args) \<and> answerable_args fs (tl args))"
| "answerable_args (_ # fs) args = answerable_args fs args"

text \<open>One argument: the client reads what the server left, whatever the variable holds.\<close>

lemma read_answer:
  assumes "sendable a t x" "same_shape (passed a t x) q" "answerable a t q"
    and "type_unset t s0" "acc_out a"
  shows "read_values ov [t] [x] a (answer_slot a t q s0) st = Some (Inr [returned a t x q], st)"
proof (cases t)
  case (By_value c)
  then show ?thesis using assms by (cases x) simp_all
next
  case (By_ref c)
  then obtain v w where "x = Val v" "q = Val w" using assms(1,2) by (cases x; cases q) auto
  then show ?thesis using assms By_ref by (simp add: read_values_def travelsD)
next
  case (By_pointer c)
  then obtain y z where "x = Ptr y" "q = Ptr z" "(y = None) = (z = None)"
    using assms(1,2) by (cases x; cases q; cases "case x of Ptr y \<Rightarrow> y | _ \<Rightarrow> None") (auto split: var.splits)
  then show ?thesis
    using assms By_pointer by (cases y; cases z) (simp_all add: read_values_def pointer_field_def pointer_read_def travelsD)
qed

lemma returned_in:
  assumes "sendable a t x" "same_shape (passed a t x) q" "\<not> acc_out a"
  shows "returned a t x q = x"
  using assms by (cases t; cases x; cases q) (auto split: option.splits)

lemma env_upd:
  "j < k \<Longrightarrow> sendable_args (env(j := x)) k fs = sendable_args env k fs"
  "j < k \<Longrightarrow> passed_args (env(j := x)) k fs = passed_args env k fs"
  by (induction env k fs rule: sendable_args.induct) auto

lemma read_prefix:
  assumes "answers_there ov fs args rm" "sendable_args env k fs" "answerable_args fs args"
    and "list_all2 same_shape (passed_args env k fs) args" "\<not> has_ret fs" "well_ordered fs"
    and "gs = [] \<longrightarrow> types = []"
  shows "handleChain client_count (read_results ov rm) (client_fields k (fs @ gs)) (Params fs @ types) (env, st) =
    handleChain client_count (read_results ov rm) (client_fields (k + length args) gs) types
      (final_env env k fs args ret, st)"
  using assms
proof (induction fs arbitrary: k env args)
  case (Cons f fs)
  have empty: "fs @ gs = [] \<longrightarrow> Params fs @ types = []"
    using Cons.prems(7) by auto
  show ?case
  proof (cases f)
    case (Ctx a)
    have "handleChain client_count (read_results ov rm) (client_fields k (fs @ gs)) (Params fs @ types) (env, st) =
        handleChain client_count (read_results ov rm) (client_fields (k + length args) gs) types
          (final_env env k fs args ret, st)"
      by (rule Cons.IH) (use Cons.prems Ctx in simp_all)
    then show ?thesis using Ctx Cons.prems(6) empty
      by (simp, subst handleChain_Cons) auto
  next
    case (Arg a t)
    obtain q qs where q: "args = q # qs" "same_shape (passed (snd a) t (env k)) q"
      using Cons.prems(4) Arg by (auto simp: list_all2_Cons1)
    obtain s0 where s0: "type_unset t s0" "rm (fst a) = answer_slot (snd a) t q s0"
      using Cons.prems(1) Arg q by auto
    let ?env = "env(k := returned (snd a) t (env k) q)"
    have "read_results ov rm (Client_param a [k]) [t] (env, st) = Some (Inr (), (?env, st))"
    proof (cases "acc_out (snd a)")
      case True
      then show ?thesis
        using read_answer [of "snd a" t "env k" q s0 ov st] Cons.prems(2,3) Arg q s0 by simp
    next
      case False
      then show ?thesis
        using returned_in [of "snd a" t "env k" q] Cons.prems(2) Arg q by simp
    qed
    moreover have "handleChain client_count (read_results ov rm) (client_fields (Suc k) (fs @ gs)) (Params fs @ types) (?env, st) =
        handleChain client_count (read_results ov rm) (client_fields (Suc k + length qs) gs) types
          (final_env ?env (Suc k) fs qs ret, st)"
    proof (rule Cons.IH)
      show "sendable_args ?env (Suc k) fs"
        unfolding env_upd(1) [OF lessI] using Cons.prems(2) Arg by simp
      show "list_all2 same_shape (passed_args ?env (Suc k) fs) qs"
        unfolding env_upd(2) [OF lessI] using Cons.prems(4) Arg q by simp
    qed (use Cons.prems Arg q in simp_all)
    ultimately show ?thesis using Arg q empty
      by (simp only: append_Cons client_fields.simps Params.simps, subst handleChain_Cons)
        (auto simp del: read_results.simps)
  next
    case (Exc t a)
    have "handleChain client_count (read_results ov rm) (client_fields k (fs @ gs)) (Params fs @ types) (env, st) =
        handleChain client_count (read_results ov rm) (client_fields (k + length args) gs) types
          (final_env env k fs args ret, st)"
      by (rule Cons.IH) (use Cons.prems Exc in simp_all)
    then show ?thesis using Exc Cons.prems(1) empty
      by (simp, subst handleChain_Cons) auto
  next
    case (Ret a)
    then show ?thesis using Cons.prems(5) by simp
  qed
qed simp

section \<open>What the server leaves is what the client looks for\<close>

lemma outcome_Inr:
  assumes "outcome isa gs r = Inr x"
  shows "\<exists>y. outcome isa (fs @ gs) r = Inr y"
proof (induction fs)
  case (Cons f fs)
  then show ?case by (cases f) auto
qed (simp add: assms)

lemma answers_there_upd:
  "n \<notin> field_names fs \<Longrightarrow> answers_there ov fs args (rm(n := s)) = answers_there ov fs args rm"
  by (induction ov fs args rm rule: answers_there.induct) auto

definition no_exception ::
  "('x, 'm, 'c) overloads \<Rightarrow> ('v, 'm) method_field list \<Rightarrow> 'm message \<Rightarrow> bool" where
  "no_exception ov fs rm \<longleftrightarrow>
     (\<forall>t a. Exc t a \<in> set fs \<longrightarrow> \<not> CustomHasField (exn_field ov t) (Member (snd a)) (rm (fst a)))"

lemma answers_prefix:
  assumes "distinct_fields (fs @ gs)" "outcome (is_a ov) gs r = Inr x"
    and "fields_unset cr fs res" "no_exception ovc fs res"
  shows "answers_there ovc fs args (answers ov cr (fs @ gs) args r res)"
  using assms
proof (induction fs arbitrary: args)
  case (Cons f fs)
  obtain y where y: "outcome (is_a ov) (fs @ gs) r = Inr y"
    using outcome_Inr [OF Cons.prems(2)] by blast
  have other: "fst (field_acc f) \<notin> field_names (fs @ gs)" "fst (field_acc f) \<notin> field_names fs"
    using Cons.prems(1) by auto
  have no: "no_exception ovc fs res"
    using Cons.prems(4) by (simp add: no_exception_def)
  have IH: "answers_there ovc fs args (answers ov cr (fs @ gs) args r res)" for args
    by (rule Cons.IH) (use Cons.prems no in \<open>cases f; simp\<close>)+
  show ?case
  proof (cases f)
    case (Arg a t)
    let ?rm = "answers ov cr (fs @ gs) (tl args) r res"
    have "answers_there ovc fs (tl args) (?rm(fst a := answer_slot (snd a) t (hd args) (res (fst a))))"
      using IH [of "tl args"] other Arg by (simp add: answers_there_upd)
    moreover have "?rm (fst a) = res (fst a)" by (rule answers_other) (use other Arg in simp)
    ultimately have "answers_there ovc fs (tl args) (set_field_of a (answer_slot (snd a) t (hd args)) ?rm)"
      by (simp only: set_field_of_def)
    moreover have "set_field_of a (answer_slot (snd a) t (hd args)) ?rm (fst a) =
        answer_slot (snd a) t (hd args) (res (fst a))"
      using \<open>?rm (fst a) = res (fst a)\<close> by (simp add: set_field_of_def)
    ultimately show ?thesis
      using Cons.prems(3) y by (auto simp: Arg Let_def)
  next
    case (Exc t a)
    have "\<not> CustomHasField (exn_field ovc t) (Member (snd a)) (res (fst a))"
      using Cons.prems(4) list.set_intros(1) [of f fs] unfolding no_exception_def Exc by blast
    then show ?thesis
      using y IH [of args] other Exc answers_other [of "fst a" "fs @ gs" ov cr args r res] by simp
  next
    case (Ret a)
    then show ?thesis
      using y IH [of args] other
      by (auto simp: Let_def set_field_of_def answers_there_upd split: option.splits)
  qed (use IH in simp)
qed simp

end
