(* ===== verification/CallProps.thy ===== *)
theory CallProps
  imports CallChains
begin

text \<open>
  What a remote call amounts to: the properties of a call through the chains of both sides, exceptions and
  cancellation included.
\<close>

section \<open>Calls\<close>

text \<open>
  A declaration and a call that the theorems are about. The messages start without any field set;
  both sides use the same overloads for exceptions; the variable for the result comes after the
  parameters.
\<close>

definition call_ok ::
  "('x, 'm, 'c) overloads \<Rightarrow> ('x, 'm, 'w) overloads \<Rightarrow> ('v, 'm) field_type \<Rightarrow> ('v, 'm) method_field list \<Rightarrow>
   (nat \<Rightarrow> 'v var) \<Rightarrow> 'm message \<Rightarrow> 'm message \<Rightarrow> bool" where
  "call_ok ovc ovs cr fs env request0 results0 \<longleftrightarrow>
     distinct_fields fs \<and> well_ordered fs \<and> contexts_ok ovs fs \<and> exn_field ovs = exn_field ovc \<and>
     fields_unset cr fs request0 \<and> fields_unset cr fs results0 \<and> no_exception ovc fs results0 \<and>
     sendable_args env 0 fs \<and> (has_ret fs \<longrightarrow> (\<exists>z. env (length (Params fs)) = Val z))"

text \<open>The whole way: the client's code for the method, with the server's code at the other end.\<close>

definition remote_call ::
  "('x, 'm, 'c) overloads \<Rightarrow> ('x, 'm, 'w) overloads \<Rightarrow> ('c, 'x exn) LogOptions \<Rightarrow> ('x exn \<Rightarrow> string) \<Rightarrow>
   ('v, 'm) field_type \<Rightarrow> ('v, 'm) method_field list \<Rightarrow> ('v, 'x, 'w) cpp_method \<Rightarrow>
   'm message \<Rightarrow> 'm message \<Rightarrow> (nat \<Rightarrow> 'v var) \<Rightarrow> 'c \<Rightarrow> 'w \<Rightarrow>
   (('x exn + unit) \<times> (nat \<Rightarrow> 'v var) \<times> 'c \<times> 'w) option" where
  "remote_call ovc ovs opts kj_text cr fs impl request0 results0 env st w =
     clientInvoke ovc opts True (client_fields 0 fs) (Fields_of cr fs) request0
       (serverInvoke ovs cr (ServerCall ovs impl False) kj_text (server_layers fs) (Params fs) results0)
       env st w"

lemma serverInvoke_run:
  assumes "call_ok ovc ovs cr fs env request0 results0"
    and "impl (passed_args env 0 fs) w = (r, args, w')"
    and "list_all2 same_shape (passed_args env 0 fs) args" "has_ret fs \<longrightarrow> r \<noteq> Inr None"
  shows "serverInvoke ovs cr (ServerCall ovs impl False) kj_text (server_layers fs) (Params fs) results0
      (request_of ovc env 0 fs request0) w =
    Some (case outcome (is_a ovs) fs r of
            Inl e \<Rightarrow> Kj_failed (kj_text e)
          | Inr _ \<Rightarrow> Response (answers ovs cr fs args r results0), w')"
proof -
  note ok = assms(1) [unfolded call_ok_def]
  let ?s = "\<lparr>results = results0, locals = [], world = w, lock_held = None, request_canceled = False,
    results_misused = False\<rparr>"
  obtain l where base: "ServerCall ovs impl False (entry env 0 fs ?s) =
      (r, (entry env 0 fs ?s)\<lparr>locals := args, world := w', lock_held := l\<rparr>)"
    using ServerCall_run [of impl "entry env 0 fs ?s"] assms(2) by (auto simp: entry_state)
  define s2 where "s2 = (entry env 0 fs ?s)\<lparr>locals := args, world := w', lock_held := l\<rparr>"
  have "request_ok env 0 fs (request_of ovc env 0 fs request0)"
    using ok by (intro request_of_ok) auto
  moreover have "locals s2 = [] @ args" "\<not> request_canceled s2" "results s2 = results0" "world s2 = w'"
    by (simp_all add: s2_def entry_state)
  ultimately have "server_invoke ovs cr (ServerCall ovs impl False) (request_of ovc env 0 fs request0)
      (server_layers fs) (Params fs) ?s =
    Some (outcome (is_a ovs) fs r, s2\<lparr>results := answers ovs cr fs args r results0\<rparr>)"
    using server_chain [of env 0 fs "request_of ovc env 0 fs request0" ovs "ServerCall ovs impl False" ?s r s2
        "[]" args cr] ok assms(3,4) base sendable_args_match [of env 0 fs]
    by (simp add: s2_def)
  then show ?thesis
    using \<open>world s2 = w'\<close> by (simp add: serverInvoke_def split: sum.splits)
qed

lemma clientInvoke_sent:
  assumes "call_ok ovc ovs cr fs env request0 results0"
    and "send (request_of ovc env 0 fs request0) w = Some (response, w')"
    and "receive ovc (client_fields 0 fs) (Fields_of cr fs) response (env, st) = Some (res, env', st')"
  shows "clientInvoke ovc opts True (client_fields 0 fs) (Fields_of cr fs) request0 send env st w =
    (case client_return opts res st' of (r, st'') \<Rightarrow> Some (r, env', st'', w'))"
  using assms build_request [of env 0 fs ovc cr request0]
  by (simp add: clientInvoke_def IterateFields_eq call_ok_def sendable_args_match)

lemma remote_call_sent:
  assumes "call_ok ovc ovs cr fs env request0 results0"
    and "serverInvoke ovs cr (ServerCall ovs impl False) kj_text (server_layers fs) (Params fs) results0
      (request_of ovc env 0 fs request0) w = Some (response, w')"
    and "receive ovc (client_fields 0 fs) (Fields_of cr fs) response (env, st) = Some (res, env', st')"
  shows "remote_call ovc ovs opts kj_text cr fs impl request0 results0 env st w =
    (case client_return opts res st' of (r, st'') \<Rightarrow> Some (r, env', st'', w'))"
  unfolding remote_call_def by (rule clientInvoke_sent [OF assms(1) _ assms(3)]) (rule assms(2))

lemma Params_Fields:
  "\<not> has_ret fs \<Longrightarrow> Fields_of cr (fs @ gs) = Params fs @ Fields_of cr gs"
  by (induction fs rule: has_ret.induct) auto

lemma ret_split:
  assumes "well_ordered fs" "has_ret fs"
  obtains gs a where "fs = gs @ [Ret a]" "\<not> has_ret gs" "acc_out (snd a)"
  using assms
proof (induction fs arbitrary: thesis rule: well_ordered.induct)
  case (2 a fs)
  then show ?case by auto
qed (auto, (metis append_Cons has_ret_simps)+)

lemma answers_skip:
  "n \<notin> field_names gs \<Longrightarrow> \<exists>args'. answers ov cr (gs @ hs) args r res n = answers ov cr hs args' r res n"
proof (induction gs arbitrary: args)
  case (Cons g gs)
  have IH: "\<exists>args'. answers ov cr (gs @ hs) args r res n = answers ov cr hs args' r res n" for args
    using Cons by auto
  show ?case
    using IH [of args] IH [of "tl args"] Cons.prems
    by (cases g) (auto simp: Let_def set_field_of_def split: sum.splits exn.splits option.splits)
qed auto

lemma final_env_append:
  "\<not> has_ret gs \<Longrightarrow> length args = length (Params gs) \<Longrightarrow>
    final_env env k (gs @ [Ret a]) args ret =
      (final_env env k gs args ret)(k + length args := Val (the ret))"
proof (induction gs arbitrary: env k args)
  case (Cons g gs)
  then show ?case by (cases g; cases args) auto
qed simp

lemma final_env_later: "\<not> has_ret gs \<Longrightarrow> k + length (Params gs) \<le> j \<Longrightarrow> final_env env k gs args ret j = env j"
  by (induction env k gs args ret rule: final_env.induct) auto

lemma Params_append: "Params (gs @ hs) = Params gs @ Params hs"
  by (induction gs rule: Params.induct) auto

lemma passed_args_simps:
  "length (passed_args env k fs) = length (Params fs)"
  "passed_args env k (gs @ [Ret a]) = passed_args env k gs"
proof -
  show "length (passed_args env k fs) = length (Params fs)"
    by (induction env k fs rule: passed_args.induct) simp_all
  show "passed_args env k (gs @ [Ret a]) = passed_args env k gs"
    by (induction env k gs rule: passed_args.induct) simp_all
qed

lemma prefix_simps:
  "distinct_fields (gs @ hs) \<Longrightarrow> distinct_fields gs"
  "well_ordered (gs @ hs) \<Longrightarrow> well_ordered gs"
  "sendable_args env k (gs @ hs) \<Longrightarrow> sendable_args env k gs"
  "answerable_args (gs @ hs) args \<Longrightarrow> answerable_args gs args"
  "fields_unset cr (gs @ hs) m \<Longrightarrow> fields_unset cr gs m"
  "no_exception ovc (gs @ hs) m \<Longrightarrow> no_exception ovc gs m"
proof -
  show "well_ordered (gs @ hs) \<Longrightarrow> well_ordered gs"
  proof (induction gs)
    case (Cons g gs)
    then show ?case by (cases g) (auto simp: Params_append)
  qed simp
  show "sendable_args env k (gs @ hs) \<Longrightarrow> sendable_args env k gs"
    by (induction env k gs rule: sendable_args.induct) auto
  show "answerable_args (gs @ hs) args \<Longrightarrow> answerable_args gs args"
    by (induction gs args rule: answerable_args.induct) auto
  show "fields_unset cr (gs @ hs) m \<Longrightarrow> fields_unset cr gs m"
    by (induction cr gs m rule: fields_unset.induct) auto
qed (auto simp: distinct_fields_def no_exception_def)

text \<open>The client reads what the server left of a call that returned.\<close>

lemma receive_returned:
  assumes "call_ok ovc ovs cr fs env request0 results0"
    and "list_all2 same_shape (passed_args env 0 fs) args" "answerable_args fs args"
    and "\<And>a. Ret a \<in> set fs \<Longrightarrow> \<exists>v. ret = Some v \<and> travels cr (snd a) v"
  shows "receive ovc (client_fields 0 fs) (Fields_of cr fs) (Response (answers ovs cr fs args (Inr ret) results0)) (env, st) =
    Some (no_result, (final_env env 0 fs args ret, st))"
proof -
  note ok = assms(1) [unfolded call_ok_def]
  let ?rm = "answers ovs cr fs args (Inr ret) results0"
  have "handleChain client_count (read_results ovc ?rm) (client_fields 0 fs) (Fields_of cr fs) (env, st) =
      Some (Inr (), (final_env env 0 fs args ret, st))"
  proof (cases "has_ret fs")
    case False
    have "answers_there ovc (fs @ []) args ?rm"
      using answers_prefix [of fs "[]" ovs "Inr ret" ret cr results0 ovc args] ok by simp
    then show ?thesis
      using read_prefix [of ovc fs args ?rm env 0 "[]" "[]" st ret] False ok assms(2,3) Params_Fields [of fs cr "[]"]
      by simp
  next
    case True
    then obtain gs a where gs: "fs = gs @ [Ret a]" "\<not> has_ret gs" "acc_out (snd a)"
      using ret_split ok by metis
    obtain v where v: "ret = Some v" "travels cr (snd a) v" using assms(4) [of a] gs(1) by auto
    have len: "length args = length (Params gs)"
      using assms(2) gs(1) by (auto simp: passed_args_simps dest: list_all2_lengthD)
    have there: "answers_there ovc gs args ?rm"
      using answers_prefix [of gs "[Ret a]" ovs "Inr ret" None cr results0 ovc args] ok gs(1)
        prefix_simps(5) [of cr gs "[Ret a]" results0] prefix_simps(6) [of ovc gs "[Ret a]" results0]
      by simp
    have "fst a \<notin> field_names gs" using ok gs(1) by (auto simp: distinct_fields_def)
    then have "?rm (fst a) = BuildField cr (Member (snd a)) v (results0 (fst a))"
      using answers_skip [of "fst a" gs ovs cr "[Ret a]" args "Inr ret" results0] v gs(1)
      by (auto simp: set_field_of_def)
    moreover have "unset cr (results0 (fst a))"
    proof -
      have "fields_unset cr (gs @ [Ret a]) results0" using ok gs(1) by simp
      then show ?thesis by (induction cr gs results0 rule: fields_unset.induct) auto
    qed
    ultimately have last: "ReadField cr (Member (snd a)) (?rm (fst a)) d = Inr v" for d
      using v(2) by (simp add: travelsD)
    let ?env = "final_env env 0 gs args ret"
    have "handleChain client_count (read_results ovc ?rm) (client_fields 0 fs) (Fields_of cr fs) (env, st) =
        handleChain client_count (read_results ovc ?rm) (client_fields (length args) [Ret a]) [By_value cr] (?env, st)"
      using read_prefix [of ovc gs args ?rm env 0 "[Ret a]" "[By_value cr]" st ret] there gs ok assms(2,3)
        prefix_simps(2) [of gs "[Ret a]"] prefix_simps(3) [of env 0 gs "[Ret a]"]
        prefix_simps(4) [of gs "[Ret a]" args] Params_Fields [of gs cr "[Ret a]"]
      by (simp add: passed_args_simps)
    moreover obtain z where "env (length (Params fs)) = Val z" using ok True by blast
    then have "?env (length args) = Val z"
      using final_env_later [OF gs(2), of 0 "length args"] len by (simp add: gs(1) Params_append)
    ultimately show ?thesis
      using last gs len v by (simp add: read_values_def final_env_append)
  qed
  then show ?thesis by (simp add: receive_def IterateFields_eq)
qed

lemma has_ret_member: "has_ret fs \<Longrightarrow> \<exists>a. Ret a \<in> set fs"
  by (induction fs rule: has_ret.induct) auto

lemma no_result_returns: "client_return opts no_result st = (Inr (), st)"
  by (simp add: client_return_def no_result_def)

lemma outcome_returned:
  fixes ret :: "'v option" and fs :: "('v, 'm) method_field list" and A :: "'x exn \<Rightarrow> 'r"
  shows "(case outcome isa fs (Inr ret) of Inl e \<Rightarrow> A e | Inr _ \<Rightarrow> B) = B"
proof -
  have "outcome isa ([] :: ('v, 'm) method_field list) (Inr ret :: 'x exn + 'v option) = Inr ret" by simp
  from outcome_Inr [OF this, of fs] show ?thesis by auto
qed

lemma call_returns:
  assumes "call_ok ovc ovs cr fs env request0 results0"
    and "impl (passed_args env 0 fs) w = (Inr ret, args, w')"
    and "list_all2 same_shape (passed_args env 0 fs) args" "answerable_args fs args"
    and "\<And>a. Ret a \<in> set fs \<Longrightarrow> \<exists>v. ret = Some v \<and> travels cr (snd a) v"
  shows "remote_call ovc ovs opts kj_text cr fs impl request0 results0 env st w =
    Some (Inr (), final_env env 0 fs args ret, st, w')"
proof -
  have "ret \<noteq> None" if "has_ret fs"
    using has_ret_member [OF that] assms(5) by blast
  then have "has_ret fs \<longrightarrow> Inr ret \<noteq> Inr None" by simp
  then have "serverInvoke ovs cr (ServerCall ovs impl False) kj_text (server_layers fs) (Params fs) results0
      (request_of ovc env 0 fs request0) w = Some (Response (answers ovs cr fs args (Inr ret) results0), w')"
    using serverInvoke_run [where impl = impl and kj_text = kj_text, OF assms(1-3)]
    by (simp add: outcome_returned)
  from remote_call_sent [OF assms(1) this receive_returned [OF assms(1,3-5)]]
  show ?thesis by (simp add: no_result_returns)
qed

text \<open>
  C1. A remote call is the call: when the values of the parameters and results can be sent, calling
  a method through a client runs it once with what the caller passed, references and pointers
  included, and ends with the caller's variables and the result as the method left them; a
  parameter that is not sent has its default value on the other side, a null pointer stays null.
\<close>

theorem remote_call_returns:
  assumes "call_ok ovc ovs cr fs env request0 results0"
    and "impl (passed_args env 0 fs) w = (Inr ret, args, w')"
    and "list_all2 same_shape (passed_args env 0 fs) args" "answerable_args fs args"
    and "\<And>a. Ret a \<in> set fs \<Longrightarrow> \<exists>v. ret = Some v \<and> travels cr (snd a) v"
  shows "remote_call ovc ovs opts kj_text cr fs impl request0 results0 env st w =
    Some (Inr (), final_env env 0 fs args ret, st, w')"
  using assms by (rule call_returns)

text \<open>The client meets the exception that a handler of the server wrote.\<close>

fun catches :: "(string \<Rightarrow> string \<Rightarrow> bool) \<Rightarrow> string \<Rightarrow> ('v, 'm) method_field list \<Rightarrow> bool" where
  "catches isa t [] = False"
| "catches isa t (Exc u a # fs) = (isa t u \<or> catches isa t fs)"
| "catches isa t (Ctx a # fs) = (t = ''mp::InterruptException'' \<or> catches isa t fs)"
| "catches isa t (_ # fs) = catches isa t fs"

lemma outcome_uncaught: "\<not> catches isa t hs \<Longrightarrow> outcome isa hs (Inl (Exn t x)) = Inl (Exn t x)"
  by (induction isa t hs rule: catches.induct) auto

lemma receive_exception:
  assumes "call_ok ovc ovs cr fs env request0 results0" "fs = gs @ Exc t a # hs"
    and "outcome (is_a ovs) hs r = Inl (Exn t' x)" "is_a ovs t' t"
    and "list_all2 same_shape (passed_args env 0 fs) args" "answerable_args fs args"
    and "CustomHasField (exn_field ovc t) (Member (snd a))
      (BuildField (exn_field ovc t) (Member (snd a)) x (results0 (fst a)))"
  shows "receive ovc (client_fields 0 fs) (Fields_of cr fs) (Response (answers ovs cr fs args r results0)) (env, st) =
    Some (no_result\<lparr>exception := Some (ThrowField ovc t (snd a)
        (BuildField (exn_field ovc t) (Member (snd a)) x (results0 (fst a))))\<rparr>,
      (final_env env 0 gs args None, st))"
proof -
  note ok = assms(1) [unfolded call_ok_def assms(2)]
  let ?rm = "answers ovs cr fs args r results0"
  have ordered: "Params hs = []" "\<not> has_ret gs"
  proof -
    have "well_ordered (gs @ Exc t a # hs)" using ok by blast
    then have "\<not> has_ret gs \<and> Params hs = []"
    proof (induction gs)
      case (Cons g gs)
      then show ?case by (cases g) auto
    qed simp
    then show "Params hs = []" "\<not> has_ret gs" by blast+
  qed
  have "outcome (is_a ovs) (Exc t a # hs) r = Inr None" using assms(3,4) by simp
  then have there: "answers_there ovc gs args ?rm"
    using answers_prefix [of gs "Exc t a # hs" ovs r None cr results0 ovc args] ok assms(2)
      prefix_simps(5) [of cr gs "Exc t a # hs" results0] prefix_simps(6) [of ovc gs "Exc t a # hs" results0]
    by simp
  have out: "fst a \<notin> field_names gs" "fst a \<notin> field_names hs"
    using ok by (auto simp: distinct_fields_def)
  have exn: "?rm (fst a) = BuildField (exn_field ovc t) (Member (snd a)) x (results0 (fst a))"
    using answers_skip [OF out(1), of ovs cr "Exc t a # hs" args r results0] assms(2-4) ok
      answers_other [OF out(2), of ovs cr _ r results0]
    by (auto simp: set_field_of_def Let_def)
  have params: "passed_args env 0 fs = passed_args env 0 gs @ passed_args env (length (Params gs)) hs"
  proof -
    have "passed_args env k (gs @ Exc t a # hs) = passed_args env k gs @ passed_args env (k + length (Params gs)) hs" for k
      by (induction env k gs rule: passed_args.induct) auto
    then show ?thesis using assms(2) by simp
  qed
  have "passed_args env (length (Params gs)) hs = []"
    using ordered(1) passed_args_simps(1) [of env "length (Params gs)" hs] by simp
  then have shape: "list_all2 same_shape (passed_args env 0 gs) args" using assms(5) params by simp
  have "handleChain client_count (read_results ovc ?rm) (client_fields 0 fs) (Fields_of cr fs) (env, st) =
      handleChain client_count (read_results ovc ?rm) (client_fields (length args) (Exc t a # hs)) (Fields_of cr hs)
        (final_env env 0 gs args None, st)"
    using read_prefix [of ovc gs args ?rm env 0 "Exc t a # hs" "Fields_of cr hs" st None] there shape ordered ok assms(6)
      prefix_simps(2) [of gs "Exc t a # hs"] prefix_simps(3) [of env 0 gs "Exc t a # hs"]
      prefix_simps(4) [of gs "Exc t a # hs" args] Params_Fields [OF ordered(2), of cr "Exc t a # hs"]
    by (simp add: assms(2))
  also have "\<dots> = Some (Inl (ThrowField ovc t (snd a) (?rm (fst a))), (final_env env 0 gs args None, st))"
    using assms(7) exn by (simp only: client_fields.simps, subst handleChain_Cons) (auto simp: Fields_of_Nil)
  finally show ?thesis by (simp add: receive_def IterateFields_eq exn)
qed

text \<open>
  C10. An exception of the method reaches the caller: the innermost declared exception type that it
  is an object of catches it on the server, and the client throws an exception of that type with
  the value it had; for a declared \<open>std::exception\<close> the client throws a \<open>std::runtime_error\<close>. Parameters
  before the exception are updated as the method left them, there is no result.
\<close>

theorem remote_call_exception:
  assumes "call_ok ovc ovs cr fs env request0 results0" "fs = gs @ Exc t a # hs"
    and "impl (passed_args env 0 fs) w = (Inl (Exn t' x), args, w')" "is_a ovs t' t"
    and "\<not> catches (is_a ovs) t' hs"
    and "list_all2 same_shape (passed_args env 0 fs) args" "answerable_args fs args"
    and "unset (exn_field ovc t) (results0 (fst a))" "travels (exn_field ovc t) (snd a) x"
    and "CustomHasField (exn_field ovc t) (Member (snd a))
      (BuildField (exn_field ovc t) (Member (snd a)) x (results0 (fst a)))"
  shows "remote_call ovc ovs opts kj_text cr fs impl request0 results0 env st w =
    Some (Inl (if t = ''std::exception''
               then Exn ''std::runtime_error''
                 (what_exn ovc (content (BuildField (exn_field ovc t) (Member (snd a)) x (results0 (fst a)))))
               else Exn t x),
      final_env env 0 gs args None, st, w')"
proof -
  let ?r = "Inl (Exn t' x)"
  have hs: "outcome (is_a ovs) hs ?r = Inl (Exn t' x)" by (rule outcome_uncaught [OF assms(5)])
  then have "outcome (is_a ovs) (Exc t a # hs) ?r = Inr None" using assms(4) by simp
  then obtain y where y: "outcome (is_a ovs) fs ?r = Inr y"
    using outcome_Inr [of "is_a ovs" "Exc t a # hs" ?r None gs] assms(2) by blast
  have "serverInvoke ovs cr (ServerCall ovs impl False) kj_text (server_layers fs) (Params fs) results0
      (request_of ovc env 0 fs request0) w = Some (Response (answers ovs cr fs args ?r results0), w')"
    using serverInvoke_run [where impl = impl and kj_text = kj_text, OF assms(1,3,6)] y by simp
  from remote_call_sent [OF assms(1) this receive_exception [OF assms(1,2) hs assms(4,6,7,10)]]
  show ?thesis
    using travelsD [OF assms(9,8)]
    by (simp add: client_return_def no_result_def ThrowField_def)
qed

text \<open>
  C31. An exception that no declared type catches rejects the request, and what the caller gets is
  what the log callback makes of the error text at level \<open>Raise\<close>; none of its variables is changed.
  The same is true of a call after the connection is gone, which sends nothing.
\<close>

theorem remote_call_fails:
  assumes "call_ok ovc ovs cr fs env request0 results0" "log_fn opts = Some f"
    and "impl (passed_args env 0 fs) w = (Inl (Exn t' x), args, w')"
    and "\<not> catches (is_a ovs) t' fs"
    and "list_all2 same_shape (passed_args env 0 fs) args"
  shows "remote_call ovc ovs opts kj_text cr fs impl request0 results0 env st w =
      (case f \<lparr>message = ''kj::Exception: '' @ kj_text (Exn t' x), level = Raise\<rparr> st of
         (r, st') \<Rightarrow> Some (r, env, st', w')) \<and>
    clientInvoke ovc opts False (client_fields 0 fs) (Fields_of cr fs) request0 send env st w =
      (case f \<lparr>message = ''IPC client method called after disconnect.'', level = Raise\<rparr> st of
         (r, st') \<Rightarrow> Some (r, env, st', w))"
proof -
  note out = outcome_uncaught [OF assms(4), of x]
  have "serverInvoke ovs cr (ServerCall ovs impl False) kj_text (server_layers fs) (Params fs) results0
      (request_of ovc env 0 fs request0) w = Some (Kj_failed (kj_text (Exn t' x)), w')"
    using serverInvoke_run [where impl = impl and kj_text = kj_text, OF assms(1,3,5)] out by simp
  moreover have "receive ovc (client_fields 0 fs) (Fields_of cr fs) (Kj_failed (kj_text (Exn t' x))) (env, st) =
      Some (no_result\<lparr>kj_exception := ''kj::Exception: '' @ kj_text (Exn t' x)\<rparr>, (env, st))"
    by (simp add: receive_def)
  ultimately have "remote_call ovc ovs opts kj_text cr fs impl request0 results0 env st w =
      (case client_return opts (no_result\<lparr>kj_exception := ''kj::Exception: '' @ kj_text (Exn t' x)\<rparr>) st of
         (r, st'') \<Rightarrow> Some (r, env, st'', w'))"
    by (rule remote_call_sent [OF assms(1)])
  moreover have "MP_LOGPLAIN opts Raise [m] st = f \<lparr>message = m, level = Raise\<rparr> st" for m
    using assms(2) by (cases "log_level opts")
      (simp_all add: MP_LOGPLAIN_def enabled_def new_logger_def put_def Logger_dtor_def less_eq_Log_def)
  ultimately show ?thesis
    by (auto simp: client_return_def no_result_def clientInvoke_def split: prod.splits sum.splits)
qed

section \<open>Canceled calls\<close>

definition start_state :: "'m message \<Rightarrow> 'w \<Rightarrow> ('v, 'm, 'w) server_state" where
  "start_state results0 w =
     \<lparr>results = results0, locals = [], world = w, lock_held = None, request_canceled = False,
      results_misused = False\<rparr>"

lemma ServerCall_canceled:
  assumes "impl (locals s) (world s) = (r, args, w)" "lock_held s \<noteq> None"
  shows "\<exists>s'. ServerCall ov impl True s = (Inl (Exn ''mp::InterruptException'' (interrupt ov)), s') \<and>
    locals s' = args \<and> results s' = results s \<and> world s' = w \<and> request_canceled s' \<and>
    results_misused s' = results_misused s"
  using assms by (cases r) (auto simp: ServerCall_def TryFinally_def run_method_def Let_def)

text \<open>An exception that no handler catches passes through all of them and changes nothing.\<close>

lemma server_propagates:
  assumes "request_ok env k fs pm" "sendable_args env k fs" "well_ordered fs" "contexts_ok ov fs"
    and "base (entry env k fs s) = (Inl (Exn t x), s2)" "locals s2 = pre @ args"
    and "length pre = length (locals s)" "list_all2 same_shape (passed_args env k fs) args"
    and "\<not> catches (is_a ov) t fs"
  shows "server_invoke ov cr base pm (server_layers fs) (Params fs) s = Some (Inl (Exn t x), s2)"
  using assms
proof (induction fs arbitrary: k s pre args)
  case (Cons f fs)
  show ?case
  proof (cases f)
    case (Ctx a)
    have "server_invoke ov cr base pm (server_layers fs) (Params fs) (s\<lparr>lock_held := Some True\<rparr>) =
        Some (Inl (Exn t x), s2)"
      by (rule Cons.IH [of k _ pre]) (use Cons.prems Ctx in simp_all)
    then show ?thesis
      using Ctx Cons.prems(4,9) by (simp add: Split_eq PassField_def PassField_context_def)
  next
    case (Arg a u)
    obtain q qs where q: "args = q # qs" "same_shape (passed (snd a) u (env k)) q"
      using Cons.prems(8) Arg by (auto simp: list_all2_Cons1)
    obtain s0 where s0: "type_unset u s0" "pm (fst a) = arg_slot (snd a) u (env k) s0"
      using Cons.prems(1) Arg by auto
    let ?s = "s\<lparr>locals := locals s @ [passed (snd a) u (env k)]\<rparr>"
    have "server_invoke ov cr base pm (server_layers fs) (Params fs) ?s = Some (Inl (Exn t x), s2)"
      by (rule Cons.IH [of "Suc k" _ "pre @ [q]"]) (use Cons.prems Arg q in simp_all)
    then have "PassField ov a [u] pm (server_invoke ov cr base pm (server_layers fs) (Params fs)) s =
        Some (Inl (Exn t x), s2)"
      by (intro PassField_arg_ends(1) [where x = "env k" and ?s0.0 = s0 and pre = pre and qs = qs and q = q] s0)
        (use Cons.prems Arg q in simp_all)
    then show ?thesis using Arg by (simp add: Split_eq)
  next
    case (Exc u a)
    have "server_invoke ov cr base pm (server_layers fs) [] s = Some (Inl (Exn t x), s2)"
      using Cons.IH [of k s pre args] Cons.prems Exc by simp
    then show ?thesis using Exc Cons.prems(3,9) by simp
  next
    case (Ret a)
    then show ?thesis using Cons.prems by simp
  qed
qed simp

text \<open>
  A handler that catches the exception of a canceled method writes to the results; so do the
  parameters around it, for which the method has returned.
\<close>

lemma server_misuse:
  assumes "request_ok env k (gs @ Exc u b # hs) pm" "sendable_args env k (gs @ Exc u b # hs)"
    and "well_ordered (gs @ Exc u b # hs)" "contexts_ok ov (gs @ Exc u b # hs)"
    and "base (entry env k (gs @ Exc u b # hs) s) = (Inl (Exn t x), s2)" "locals s2 = pre @ args"
    and "length pre = length (locals s)"
    and "list_all2 same_shape (passed_args env k (gs @ Exc u b # hs)) args"
    and "is_a ov t u" "\<not> catches (is_a ov) t hs" "request_canceled s2"
  shows "\<exists>s3. server_invoke ov cr base pm (server_layers (gs @ Exc u b # hs)) (Params (gs @ Exc u b # hs)) s =
    Some (Inr None, s3) \<and> request_canceled s3 \<and> results_misused s3 \<and> locals s3 = locals s2"
  using assms(1-8)
proof (induction gs arbitrary: k s pre args)
  case Nil
  have "server_invoke ov cr base pm (server_layers hs) (Params hs) s = Some (Inl (Exn t x), s2)"
    by (rule server_propagates [where pre = pre and args = args]) (use Nil assms(10) in \<open>simp_all\<close>)
  then show ?case using Nil(3) assms(9,11) by (simp add: build_result_def)
next
  case (Cons g gs)
  let ?fs = "gs @ Exc u b # hs"
  show ?case
  proof (cases g)
    case (Ctx a)
    have "\<exists>s3. server_invoke ov cr base pm (server_layers ?fs) (Params ?fs) (s\<lparr>lock_held := Some True\<rparr>) =
        Some (Inr None, s3) \<and> request_canceled s3 \<and> results_misused s3 \<and> locals s3 = locals s2"
      by (rule Cons.IH [of k _ pre]) (use Cons.prems Ctx in simp_all)
    then show ?thesis
      using Ctx Cons.prems(4) by (auto simp: Split_eq PassField_def PassField_context_def)
  next
    case (Arg a v)
    obtain q qs where q: "args = q # qs" "same_shape (passed (snd a) v (env k)) q"
      using Cons.prems(8) Arg by (auto simp: list_all2_Cons1)
    obtain s0 where s0: "type_unset v s0" "pm (fst a) = arg_slot (snd a) v (env k) s0"
      using Cons.prems(1) Arg by auto
    let ?s = "s\<lparr>locals := locals s @ [passed (snd a) v (env k)]\<rparr>"
    have "\<exists>s3. server_invoke ov cr base pm (server_layers ?fs) (Params ?fs) ?s =
        Some (Inr None, s3) \<and> request_canceled s3 \<and> results_misused s3 \<and> locals s3 = locals s2"
      by (rule Cons.IH [of "Suc k" _ "pre @ [q]"]) (use Cons.prems Arg q in simp_all)
    then obtain s3 where s3: "server_invoke ov cr base pm (server_layers ?fs) (Params ?fs) ?s =
        Some (Inr None, s3)" "request_canceled s3" "results_misused s3" "locals s3 = locals s2"
      by blast
    then have "PassField ov a [v] pm (server_invoke ov cr base pm (server_layers ?fs) (Params ?fs)) s =
        Some (Inr None, arg_done a v q s3)"
      by (intro PassField_arg_ends(2) [where x = "env k" and ?s0.0 = s0 and pre = pre and qs = qs and y = None] s0)
        (use Cons.prems Arg q in simp_all)
    then show ?thesis
      using Arg s3 arg_done_canceled(1) [of s3 a v q] arg_done_canceled(2) [of a v q s3] by (simp add: Split_eq)
  next
    case (Exc w a)
    have "\<exists>s3. server_invoke ov cr base pm (server_layers ?fs) (Params ?fs) s =
        Some (Inr None, s3) \<and> request_canceled s3 \<and> results_misused s3 \<and> locals s3 = locals s2"
      by (rule Cons.IH [of k _ pre]) (use Cons.prems Exc in simp_all)
    then show ?thesis using Exc Cons.prems(3) by auto
  next
    case (Ret a)
    then show ?thesis using Cons.prems(3) by simp
  qed
qed

lemma entry_lock: "lock_held s \<noteq> None \<Longrightarrow> lock_held (entry env k fs s) \<noteq> None"
  by (induction env k fs s rule: entry.induct) simp_all

text \<open>
  C26. A request on a worker thread that is canceled while its method runs writes nothing to the
  results, whatever the method did, unless a declared exception type catches the
  \<open>InterruptException\<close> that \<open>ServerCall\<close> throws.
\<close>

theorem canceled_results_unused:
  assumes "call_ok ovc ovs cr (Ctx c # hs) env request0 results0"
    and "impl (passed_args env 0 hs) w = (r, args, w')"
    and "list_all2 same_shape (passed_args env 0 hs) args"
    and "\<not> catches (is_a ovs) ''mp::InterruptException'' hs"
  shows "\<exists>s. server_invoke ovs cr (ServerCall ovs impl True) (request_of ovc env 0 (Ctx c # hs) request0)
      (server_layers (Ctx c # hs)) (Params (Ctx c # hs)) (start_state results0 w) = Some (Inr None, s) \<and>
    results s = results0 \<and> \<not> results_misused s \<and> world s = w'"
proof -
  note ok = assms(1) [unfolded call_ok_def]
  let ?s = "(start_state results0 w)\<lparr>lock_held := Some True\<rparr>"
  obtain s2 where s2: "ServerCall ovs impl True (entry env 0 hs ?s) =
      (Inl (Exn ''mp::InterruptException'' (interrupt ovs)), s2)" "locals s2 = args" "results s2 = results0"
      "world s2 = w'" "\<not> results_misused s2"
    using ServerCall_canceled [of impl "entry env 0 hs ?s" r args w' ovs] assms(2) entry_lock [of ?s env 0 hs]
    by (auto simp: entry_state start_state_def)
  have "request_ok env 0 (Ctx c # hs) (request_of ovc env 0 (Ctx c # hs) request0)"
    using ok by (intro request_of_ok) auto
  then have "server_invoke ovs cr (ServerCall ovs impl True) (request_of ovc env 0 (Ctx c # hs) request0)
      (server_layers hs) (Params hs) ?s = Some (Inl (Exn ''mp::InterruptException'' (interrupt ovs)), s2)"
    by (intro server_propagates [where pre = "[]" and args = args])
      (use ok s2 assms(3,4) in \<open>simp_all add: start_state_def\<close>)
  then show ?thesis
    using ok s2 by (simp add: Split_eq PassField_def PassField_context_def)
qed

text \<open>
  If one does, which a declared \<open>std::exception\<close> does, the handler writes to the results of the
  canceled request, whose messages the event loop may have freed.
\<close>

theorem canceled_results_misused:
  assumes "call_ok ovc ovs cr (Ctx c # gs @ Exc u b # hs) env request0 results0"
    and "impl (passed_args env 0 (gs @ Exc u b # hs)) w = (r, args, w')"
    and "list_all2 same_shape (passed_args env 0 (gs @ Exc u b # hs)) args"
    and "is_a ovs ''mp::InterruptException'' u" "\<not> catches (is_a ovs) ''mp::InterruptException'' hs"
  shows "\<exists>s. server_invoke ovs cr (ServerCall ovs impl True)
      (request_of ovc env 0 (Ctx c # gs @ Exc u b # hs) request0)
      (server_layers (Ctx c # gs @ Exc u b # hs)) (Params (Ctx c # gs @ Exc u b # hs)) (start_state results0 w) =
    Some (Inr None, s) \<and> request_canceled s \<and> results_misused s"
proof -
  let ?fs = "gs @ Exc u b # hs"
  note ok = assms(1) [unfolded call_ok_def]
  let ?s = "(start_state results0 w)\<lparr>lock_held := Some True\<rparr>"
  obtain s2 where s2: "ServerCall ovs impl True (entry env 0 ?fs ?s) =
      (Inl (Exn ''mp::InterruptException'' (interrupt ovs)), s2)" "locals s2 = args" "request_canceled s2"
    using ServerCall_canceled [of impl "entry env 0 ?fs ?s" r args w' ovs] assms(2) entry_lock [of ?s env 0 ?fs]
    by (auto simp: entry_state start_state_def)
  have "request_ok env 0 (Ctx c # ?fs) (request_of ovc env 0 (Ctx c # ?fs) request0)"
    using ok by (intro request_of_ok) auto
  then have "\<exists>s3. server_invoke ovs cr (ServerCall ovs impl True) (request_of ovc env 0 (Ctx c # ?fs) request0)
      (server_layers ?fs) (Params ?fs) ?s = Some (Inr None, s3) \<and> request_canceled s3 \<and> results_misused s3 \<and>
      locals s3 = locals s2"
    by (intro server_misuse [where pre = "[]" and args = args])
      (use ok s2 assms(3-5) in \<open>simp_all add: start_state_def\<close>)
  then show ?thesis
    using ok by (auto simp: Split_eq PassField_def PassField_context_def)
qed

section \<open>An example\<close>

text \<open>
  A method with a context, a number, a pointer to a number that it may change, an exception type
  and a number as result, as the generator declares it:
  \<open>compute(context :Context, arg :Int32, p :Int32, wantP :Bool) -> (p, error $exception, result :Int32)\<close>.
\<close>

abbreviation num :: "(int, int) field_type" where
  "num \<equiv> int_field I32 I32"

definition sample_overloads :: "bool \<Rightarrow> (int, int, 'c) overloads" where
  "sample_overloads derived =
     \<lparr>exn_field = (\<lambda>_. num), what_exn = id, read_exn = (\<lambda>_. Exn ''std::range_error'' 0),
      is_a = (\<lambda>t u. t = u \<or> derived \<and> u = ''std::exception''), interrupt = 0, nil_build = id,
      nil_read = (\<lambda>_ c. c), context_field = (\<lambda>n. n = ''context'')\<rparr>"

definition sample_method :: "string \<Rightarrow> (int, int) method_field list" where
  "sample_method t =
     [Ctx (''context'', Accessor (FIELD_IN + FIELD_BOXED)),
      Arg (''arg'', Accessor FIELD_IN) (By_value num),
      Arg (''p'', Accessor (FIELD_IN + FIELD_OUT + FIELD_REQUESTED)) (By_pointer num),
      Exc t (''error'', Accessor (FIELD_OUT + FIELD_BOXED)),
      Ret (''result'', Accessor FIELD_OUT)]"

definition sample_impl :: "(int, int, nat) cpp_method" where
  "sample_impl args w =
     (case args of
        [Val a, Ptr (Some p)] \<Rightarrow>
          if a < 0 then (Inl (Exn ''Err'' a), args, w) else (Inr (Some (a + p)), [Val a, Ptr (Some (p + 1))], w + 1)
      | _ \<Rightarrow> (Inr (Some 0), args, w))"

definition sample_message :: "int message" where
  "sample_message = (\<lambda>_. new_slot num)"

definition sample_env :: "int \<Rightarrow> nat \<Rightarrow> int var" where
  "sample_env a = (\<lambda>_. Val 0)(0 := Val a, 1 := Ptr (Some 7))"

lemma sample_flags:
  "Accessor FIELD_IN = \<lparr>acc_in = True, acc_out = False, acc_optional = False, acc_requested = False, acc_boxed = False\<rparr>"
  "Accessor FIELD_OUT = \<lparr>acc_in = False, acc_out = True, acc_optional = False, acc_requested = False, acc_boxed = False\<rparr>"
  "Accessor (FIELD_IN + FIELD_OUT + FIELD_REQUESTED) =
    \<lparr>acc_in = True, acc_out = True, acc_optional = False, acc_requested = True, acc_boxed = False\<rparr>"
  "Accessor (FIELD_IN + FIELD_BOXED) =
    \<lparr>acc_in = True, acc_out = False, acc_optional = False, acc_requested = False, acc_boxed = True\<rparr>"
  "Accessor (FIELD_OUT + FIELD_BOXED) =
    \<lparr>acc_in = False, acc_out = True, acc_optional = False, acc_requested = False, acc_boxed = True\<rparr>"
  by (simp_all add: Accessor_def FIELD_IN_def FIELD_OUT_def FIELD_OPTIONAL_def FIELD_REQUESTED_def FIELD_BOXED_def)

lemma num_travels: "in_range I32 v \<Longrightarrow> travels num a v"
  by (rule codec_travels [OF int32.field_codec_axioms]) simp_all

lemma num_keeps_want: "keeps_want num a v"
  by (simp add: keeps_want_def int_field_def stored_field_def field_set_def)

lemma sample_ok:
  assumes "in_range I32 a"
  shows "call_ok (sample_overloads d :: (int, int, 'c) overloads) (sample_overloads d :: (int, int, 'w) overloads)
    num (sample_method t) (sample_env a) sample_message sample_message"
  using assms num_travels [of a] num_travels [of 7] num_keeps_want
  by (simp add: call_ok_def sample_method_def sample_flags sample_overloads_def sample_message_def sample_env_def
      no_exception_def in_range_def lim_table)
    (simp add: int_field_def stored_field_def new_slot_def)

lemmas sample_eval =
  sample_method_def sample_flags sample_overloads_def sample_env_def sample_impl_def

lemma sample_calls:
  "passed_args (sample_env a) 0 (sample_method t) = [Val a, Ptr (Some 7)]"
  "has_ret (sample_method t)"
  "final_env (sample_env a) 0 (sample_method t) [Val b, Ptr (Some p)] (Some r) = (sample_env a)(1 := Ptr (Some p), 2 := Val r)"
  by (simp_all add: sample_eval numeral_2_eq_2 fun_upd_twist fun_upd_idem)

lemma sample_exn: "exn_field (sample_overloads d) t = num"
  by (simp add: sample_overloads_def)

lemma num_has:
  "unset num (sample_message n)"
  "CustomHasField num (Member (Accessor (FIELD_OUT + FIELD_BOXED)))
    (BuildField num (Member (Accessor (FIELD_OUT + FIELD_BOXED))) v (sample_message n))"
  by (simp_all add: sample_message_def sample_flags int_field_def stored_field_def field_set_def new_slot_def
      unset_def blank_def)

abbreviation sample_options :: "(unit, int exn) LogOptions" where
  "sample_options \<equiv>
     \<lparr>log_fn = Some (\<lambda>m st. (Inl (Exn ''std::runtime_error'' 0), st)), max_chars = 200, log_level = Trace\<rparr>"

theorem remote_call_returns_witness:
  "remote_call (sample_overloads False) (sample_overloads False) sample_options (\<lambda>_. ''error'') num
     (sample_method ''Err'') sample_impl sample_message sample_message (sample_env 5) () 3 =
   Some (Inr (), (sample_env 5)(1 := Ptr (Some 8), 2 := Val 12), (), 4)"
proof -
  have range: "in_range I32 5" "in_range I32 8" "in_range I32 12" by (simp_all add: in_range_def lim_table)
  note ok = sample_ok [OF range(1), where d = False and t = "''Err''"]
  have run: "sample_impl (passed_args (sample_env 5) 0 (sample_method ''Err'')) 3 =
      (Inr (Some 12), [Val 5, Ptr (Some 8)], 4)"
    by (simp only: sample_calls) (simp add: sample_impl_def)
  have shape: "list_all2 same_shape (passed_args (sample_env 5) 0 (sample_method ''Err'')) [Val 5, Ptr (Some 8)]"
    by (simp only: sample_calls) simp
  have answer: "answerable_args (sample_method ''Err'') [Val 5, Ptr (Some 8)]"
    using num_travels [OF range(2)] by (simp add: sample_method_def)
  have ret: "\<exists>v. Some 12 = Some v \<and> travels num (snd a) v" if "Ret a \<in> set (sample_method ''Err'')" for a
    using num_travels [OF range(3)] by simp
  show ?thesis
    using remote_call_returns [where impl = sample_impl and env = "sample_env 5" and fs = "sample_method ''Err''"
        and ret = "Some 12" and opts = sample_options and kj_text = "\<lambda>_. ''error''" and st = "()",
        OF ok run shape answer ret]
    by (simp only: sample_calls)
qed

theorem remote_call_exception_witness:
  "remote_call (sample_overloads False) (sample_overloads False) sample_options (\<lambda>_. ''error'') num
     (sample_method ''Err'') sample_impl sample_message sample_message (sample_env (- 5)) () 3 =
   Some (Inl (Exn ''Err'' (- 5)), sample_env (- 5), (), 3)"
proof -
  have range: "in_range I32 (- 5)" "in_range I32 7" by (simp_all add: in_range_def lim_table)
  note ok = sample_ok [OF range(1), where d = False and t = "''Err''"]
  let ?e = "Accessor (FIELD_OUT + FIELD_BOXED)"
  define gs where "gs = [Ctx (''context'', Accessor (FIELD_IN + FIELD_BOXED)), Arg (''arg'', Accessor FIELD_IN) (By_value num),
      Arg (''p'', Accessor (FIELD_IN + FIELD_OUT + FIELD_REQUESTED)) (By_pointer num)]"
  define hs where "hs = [Ret (''result'', Accessor FIELD_OUT) :: (int, int) method_field]"
  have split: "sample_method ''Err'' = gs @ Exc ''Err'' (''error'', ?e) # hs"
    by (simp add: sample_method_def gs_def hs_def)
  have run: "sample_impl (passed_args (sample_env (- 5)) 0 (sample_method ''Err'')) 3 =
      (Inl (Exn ''Err'' (- 5)), [Val (- 5), Ptr (Some 7)], 3)"
    by (simp only: sample_calls) (simp add: sample_impl_def)
  have shape: "list_all2 same_shape (passed_args (sample_env (- 5)) 0 (sample_method ''Err'')) [Val (- 5), Ptr (Some 7)]"
    by (simp only: sample_calls) simp
  have answer: "answerable_args (sample_method ''Err'') [Val (- 5), Ptr (Some 7)]"
    using num_travels [OF range(2)] by (simp add: sample_method_def)
  have caught: "is_a (sample_overloads False) ''Err'' ''Err''"
      "\<not> catches (is_a (sample_overloads False)) ''Err'' hs"
    by (simp_all add: sample_overloads_def hs_def)
  have there: "unset (exn_field (sample_overloads False :: (int, int, unit) overloads) ''Err'') (sample_message (fst (''error'', ?e)))"
      "travels (exn_field (sample_overloads False :: (int, int, unit) overloads) ''Err'') (snd (''error'', ?e)) (- 5)"
      "CustomHasField (exn_field (sample_overloads False :: (int, int, unit) overloads) ''Err'') (Member (snd (''error'', ?e)))
        (BuildField (exn_field (sample_overloads False :: (int, int, unit) overloads) ''Err'')
          (Member (snd (''error'', ?e))) (- 5) (sample_message (fst (''error'', ?e))))"
    unfolding sample_exn using num_travels [OF range(1)] num_has by simp_all
  have env: "final_env (sample_env (- 5)) 0 gs [Val (- 5), Ptr (Some 7)] None = sample_env (- 5)"
    by (simp add: gs_def sample_flags sample_env_def fun_upd_idem)
  show ?thesis
    using remote_call_exception [where impl = sample_impl and env = "sample_env (- 5)" and fs = "sample_method ''Err''"
        and opts = sample_options and kj_text = "\<lambda>_. ''error''" and st = "()",
        OF ok split run caught shape answer there]
    by (simp add: env)
qed

theorem remote_call_fails_witness:
  "remote_call (sample_overloads False) (sample_overloads False) sample_options (\<lambda>_. ''error'') num
     (sample_method ''Other'') sample_impl sample_message sample_message (sample_env (- 5)) () 3 =
   Some (Inl (Exn ''std::runtime_error'' 0), sample_env (- 5), (), 3)"
proof -
  have range: "in_range I32 (- 5)" by (simp add: in_range_def lim_table)
  note ok = sample_ok [OF range(1), where d = False and t = "''Other''"]
  have run: "sample_impl (passed_args (sample_env (- 5)) 0 (sample_method ''Other'')) 3 =
      (Inl (Exn ''Err'' (- 5)), [Val (- 5), Ptr (Some 7)], 3)"
    by (simp only: sample_calls) (simp add: sample_impl_def)
  have shape: "list_all2 same_shape (passed_args (sample_env (- 5)) 0 (sample_method ''Other'')) [Val (- 5), Ptr (Some 7)]"
    by (simp only: sample_calls) simp
  have uncaught: "\<not> catches (is_a (sample_overloads False)) ''Err'' (sample_method ''Other'')"
    by (simp add: sample_overloads_def sample_method_def)
  have log: "log_fn sample_options = Some (\<lambda>m st. (Inl (Exn ''std::runtime_error'' 0), st))" by simp
  show ?thesis
    using remote_call_fails [where impl = sample_impl and env = "sample_env (- 5)" and fs = "sample_method ''Other''"
        and kj_text = "\<lambda>_. ''error''" and st = "()", OF ok log run uncaught shape]
    by simp
qed

definition sample_tail :: "string \<Rightarrow> (int, int) method_field list" where
  "sample_tail t =
    [Arg (''arg'', Accessor FIELD_IN) (By_value num),
     Arg (''p'', Accessor (FIELD_IN + FIELD_OUT + FIELD_REQUESTED)) (By_pointer num)] @
    Exc t (''error'', Accessor (FIELD_OUT + FIELD_BOXED)) # [Ret (''result'', Accessor FIELD_OUT)]"

lemma sample_method_split: "sample_method t = Ctx (''context'', Accessor (FIELD_IN + FIELD_BOXED)) # sample_tail t"
  by (simp add: sample_method_def sample_tail_def)

theorem canceled_results_unused_witness:
  "\<exists>s. server_invoke (sample_overloads False) num (ServerCall (sample_overloads False) sample_impl True)
      (request_of (sample_overloads False :: (int, int, unit) overloads) (sample_env 5) 0 (sample_method ''Err'') sample_message)
      (server_layers (sample_method ''Err'')) (Params (sample_method ''Err'')) (start_state sample_message 3) =
      Some (Inr None, s) \<and> results s = sample_message \<and> \<not> results_misused s \<and> world s = (4 :: nat)"
proof -
  have range: "in_range I32 5" by (simp add: in_range_def lim_table)
  note ok = sample_ok [OF range(1), where d = False and t = "''Err''", unfolded sample_method_split]
  have args: "passed_args (sample_env 5) 0 (sample_tail ''Err'') = [Val 5, Ptr (Some 7)]"
    by (simp add: sample_eval sample_tail_def)
  then have run: "sample_impl (passed_args (sample_env 5) 0 (sample_tail ''Err'')) 3 =
      (Inr (Some 12), [Val 5, Ptr (Some 8)], 4)"
    by (simp add: sample_impl_def)
  have shape: "list_all2 same_shape (passed_args (sample_env 5) 0 (sample_tail ''Err'')) [Val 5, Ptr (Some 8)]"
    by (simp add: args)
  have uncaught: "\<not> catches (is_a (sample_overloads False :: (int, int, nat) overloads)) ''mp::InterruptException'' (sample_tail ''Err'')"
    by (simp add: sample_overloads_def sample_tail_def)
  show ?thesis
    using canceled_results_unused [where impl = sample_impl and env = "sample_env 5" and hs = "sample_tail ''Err''", OF ok run shape uncaught] unfolding sample_method_split [symmetric] .
qed

theorem canceled_results_misused_witness:
  "\<exists>s. server_invoke (sample_overloads True) num (ServerCall (sample_overloads True) sample_impl True)
      (request_of (sample_overloads True :: (int, int, unit) overloads) (sample_env 5) 0
        (sample_method ''std::exception'') sample_message)
      (server_layers (sample_method ''std::exception'')) (Params (sample_method ''std::exception''))
      (start_state sample_message (3 :: nat)) =
      Some (Inr None, s) \<and> request_canceled s \<and> results_misused s"
proof -
  have range: "in_range I32 5" by (simp add: in_range_def lim_table)
  define gs where "gs = [Arg (''arg'', Accessor FIELD_IN) (By_value num),
     Arg (''p'', Accessor (FIELD_IN + FIELD_OUT + FIELD_REQUESTED)) (By_pointer num)]"
  let ?e = "(''error'', Accessor (FIELD_OUT + FIELD_BOXED))"
  have split: "sample_method ''std::exception'' = Ctx (''context'', Accessor (FIELD_IN + FIELD_BOXED)) #
      gs @ Exc ''std::exception'' ?e # [Ret (''result'', Accessor FIELD_OUT)]"
    by (simp add: sample_method_def gs_def)
  note ok = sample_ok [OF range(1), where d = True and t = "''std::exception''", unfolded split]
  have args: "passed_args (sample_env 5) 0 (gs @ Exc ''std::exception'' ?e # [Ret (''result'', Accessor FIELD_OUT)]) =
      [Val 5, Ptr (Some 7)]"
    by (simp add: sample_eval gs_def)
  then have run: "sample_impl
      (passed_args (sample_env 5) 0 (gs @ Exc ''std::exception'' ?e # [Ret (''result'', Accessor FIELD_OUT)])) 3 =
      (Inr (Some 12), [Val 5, Ptr (Some 8)], 4)"
    by (simp add: sample_impl_def)
  have shape: "list_all2 same_shape
      (passed_args (sample_env 5) 0 (gs @ Exc ''std::exception'' ?e # [Ret (''result'', Accessor FIELD_OUT)]))
      [Val 5, Ptr (Some 8)]"
    by (simp add: args)
  have caught: "is_a (sample_overloads True :: (int, int, nat) overloads) ''mp::InterruptException'' ''std::exception''"
      "\<not> catches (is_a (sample_overloads True :: (int, int, nat) overloads)) ''mp::InterruptException''
        [Ret (''result'', Accessor FIELD_OUT) :: (int, int) method_field]"
    by (simp_all add: sample_overloads_def)
  show ?thesis
    unfolding split
    by (rule canceled_results_misused [where impl = sample_impl and env = "sample_env 5" and gs = gs
        and hs = "[Ret (''result'', Accessor FIELD_OUT)]" and u = "''std::exception''" and b = ?e
        and c = "(''context'', Accessor (FIELD_IN + FIELD_BOXED))", OF ok run shape caught])
qed

end
