(* ===== verification/GenProps.thy ===== *)
theory GenProps
  imports GenFiles CallProps
begin

text \<open>
  What the generator makes of a schema: the list of fields against a direct definition, the chains
  of a call against the ones \<open>CallChains\<close> is about, the accessors that the output names, the paths.
\<close>

section \<open>An index of names\<close>

text \<open>
  What \<open>FieldList\<close> needs of \<open>std::map\<close>: \<open>emplace\<close> keeps a value that is there. The client keeps
  a list of names and the position of each.
\<close>

locale dictionary =
  fixes emplace :: "string \<Rightarrow> nat \<Rightarrow> 'm \<Rightarrow> 'm"
    and look :: "'m \<Rightarrow> string \<Rightarrow> nat option"
    and ok :: "'m \<Rightarrow> bool"
  assumes look_emplace: "ok m \<Longrightarrow>
      look (emplace k v m) = (if look m k = None then (look m)(k \<mapsto> v) else look m)"
    and ok_emplace: "ok m \<Longrightarrow> ok (emplace k v m)"
begin

definition indexes :: "'m \<Rightarrow> string list \<Rightarrow> bool" where
  "indexes m ns \<longleftrightarrow> ok m \<and> (\<forall>k i. look m k = Some i \<longleftrightarrow> i < length ns \<and> ns ! i = k)"

lemma indexes_None: "indexes m ns \<Longrightarrow> look m k = None \<longleftrightarrow> k \<notin> set ns"
  unfolding indexes_def in_set_conv_nth by (metis not_None_eq)

lemma indexes_distinct: "indexes m ns \<Longrightarrow> distinct ns"
  unfolding indexes_def distinct_conv_nth by (metis option.inject)

lemma indexes_emplace:
  assumes "indexes m ns"
  shows "indexes (emplace k (length ns) m) (if k \<in> set ns then ns else ns @ [k])"
proof (cases "k \<in> set ns")
  case True
  then obtain j where "look m k = Some j" using indexes_None [OF assms, of k] by blast
  then show ?thesis
    using True assms look_emplace [of m k] ok_emplace [of m k] by (simp add: indexes_def)
next
  case False
  then have "look m k = None" using indexes_None [OF assms] by simp
  moreover have "ns ! i \<noteq> k" if "i < length ns" for i
    using False that by auto
  ultimately show ?thesis
    using False assms look_emplace [of m k] ok_emplace [of m k]
    by (auto simp: indexes_def nth_append less_Suc_eq)
qed

end

definition keys_sorted :: "(string \<times> nat) list \<Rightarrow> bool" where
  "keys_sorted m \<longleftrightarrow> sorted_wrt (<) (map fst m)"

lemma keys_emplace: "set (map fst (idx_emplace k v m)) = insert k (set (map fst m))"
  by (induction k v m rule: idx_emplace.induct) auto

lemma map_of_emplace:
  "keys_sorted m \<Longrightarrow>
    map_of (idx_emplace k v m) = (if map_of m k = None then (map_of m)(k \<mapsto> v) else map_of m)"
proof (induction k v m rule: idx_emplace.induct)
  case (2 k v k' v' m)
  have later: "map_of m k = None" if "k < k'"
  proof -
    have "\<forall>x \<in> set (map fst m). k' < x" using 2(2) by (simp add: keys_sorted_def)
    then have "k \<notin> set (map fst m)" using that by (meson order.strict_trans order.irrefl)
    then show ?thesis by (simp add: map_of_eq_None_iff)
  qed
  have rest: "keys_sorted m" using 2(2) by (simp add: keys_sorted_def)
  consider "k = k'" | "k < k'" | "k \<noteq> k'" "\<not> k < k'" by blast
  then show ?case
  proof cases
    case 2
    then show ?thesis using later by (auto simp: fun_eq_iff)
  next
    case 3
    show ?thesis using 3 "2.IH" [OF 3 rest] by (auto simp: fun_eq_iff)
  qed simp
qed simp

lemma sorted_emplace: "keys_sorted m \<Longrightarrow> keys_sorted (idx_emplace k v m)"
proof (induction k v m rule: idx_emplace.induct)
  case (2 k v k' v' m)
  have later: "\<forall>x \<in> set (map fst m). k' < x" and rest: "keys_sorted m"
    using 2(2) by (simp_all add: keys_sorted_def)
  consider "k = k'" | "k < k'" | "k \<noteq> k'" "\<not> k < k'" by blast
  then show ?case
  proof cases
    case 1
    then show ?thesis using 2(2) by simp
  next
    case 2
    then have "\<forall>x \<in> set (map fst m). k < x" using later by (meson order.strict_trans)
    then show ?thesis using 2 later rest by (simp add: keys_sorted_def)
  next
    case 3
    then have "k' < k" by (meson linorder_cases)
    then have "\<forall>x \<in> set (map fst (idx_emplace k v m)). k' < x"
      using later unfolding keys_emplace by blast
    then show ?thesis using 3 "2.IH" [OF 3 rest] by (simp add: keys_sorted_def)
  qed
qed (simp add: keys_sorted_def)

interpretation idx: dictionary idx_emplace map_of keys_sorted
  by unfold_locales (simp_all only: map_of_emplace sorted_emplace)

section \<open>The list of fields\<close>

definition name_of :: "gen_field \<Rightarrow> string" where
  "name_of f = sf_name (decl_of f)"

text \<open>Every field has a declaration, both have its name, and the index says where.\<close>

definition named :: "gen_field \<Rightarrow> string \<Rightarrow> bool" where
  "named f n \<longleftrightarrow> (f_param f \<noteq> None \<or> f_result f \<noteq> None) \<and>
     (\<forall>sf. f_param f = Some sf \<or> f_result f = Some sf \<longrightarrow> sf_name sf = n)"

lemma named_name: "named f n \<Longrightarrow> name_of f = n"
  by (auto simp: named_def name_of_def decl_of_def split: option.splits)

definition list_ok :: "field_list \<Rightarrow> string list \<Rightarrow> bool" where
  "list_ok l ns \<longleftrightarrow> list_all2 named (all_fields l) ns \<and> idx.indexes (field_idx l) ns"

lemma update_field_simps [simp]:
  "f_param (update_field sf p r new f) = (if p then Some sf else f_param f)"
  "f_result (update_field sf p r new f) = (if r then Some sf else f_result f)"
  "f_retval (update_field sf p r new f) \<longleftrightarrow> f_retval f \<or> \<not> p \<and> sf_name sf = ''result''"
  "f_skip (update_field sf p r new f) \<longleftrightarrow> f_skip f \<or> AnnotationExists (sf_annotations sf) SKIP_ANNOTATION_ID"
  "f_exception (update_field sf p r new f) = get_text (sf_annotations sf) EXCEPTION_ANNOTATION_ID (f_exception f)"
  "f_optional (update_field sf p r new f) = f_optional f"
  "f_requested (update_field sf p r new f) = f_requested f"
  "f_args (update_field sf p r new f) =
    (if new \<and> \<not> (f_retval f \<or> \<not> p \<and> sf_name sf = ''result'') \<and>
        get_text (sf_annotations sf) EXCEPTION_ANNOTATION_ID (f_exception f) = []
     then field_count sf else f_args f)"
  by (simp_all add: update_field_def Let_def)

lemma update_field_named:
  assumes "named f (sf_name sf) \<or> f = new_field" "p \<or> r"
  shows "named (update_field sf p r new f) (sf_name sf)"
  using assms by (auto simp: named_def new_field_def)

lemma addField_ok:
  assumes "list_ok l ns" "p \<or> r"
  shows "list_ok (addField sf p r l) (if sf_name sf \<in> set ns then ns else ns @ [sf_name sf])"
proof -
  let ?n = "sf_name sf" and ?idx = "idx_emplace (sf_name sf) (length (all_fields l)) (field_idx l)"
  have len: "length (all_fields l) = length ns"
    using assms(1) by (auto simp: list_ok_def dest: list_all2_lengthD)
  let ?ns = "if ?n \<in> set ns then ns else ns @ [?n]"
  have idx: "idx.indexes ?idx ?ns"
    using idx.indexes_emplace [of "field_idx l" ns ?n] assms(1) len by (simp add: list_ok_def)
  have "?n \<in> set ?ns" by simp
  then obtain i where i: "map_of ?idx ?n = Some i"
    using idx.indexes_None [OF idx, of ?n] by blast
  then have at: "i < length ?ns" "?ns ! i = ?n"
    using idx unfolding idx.indexes_def by blast+
  let ?new = "map_of (field_idx l) ?n = None"
  have new: "?new \<longleftrightarrow> ?n \<notin> set ns"
    using idx.indexes_None [of "field_idx l" ns ?n] assms(1) by (simp add: list_ok_def)
  let ?fs = "if ?new then all_fields l @ [new_field] else all_fields l"
  have fs: "list_all2 (\<lambda>f n. named f n \<or> f = new_field) ?fs ?ns"
    using assms(1) new by (auto simp: list_ok_def intro!: list_all2_appendI elim: list_all2_mono)
  have others: "named (?fs ! j) (?ns ! j)" if "j < length ?ns" "j \<noteq> i" for j
  proof (cases ?new)
    case True
    have "\<not> i < length ns"
    proof
      assume i: "i < length ns"
      then have "ns ! i = ?n" using at(2) True new by (simp add: nth_append)
      then show False using nth_mem [OF i] True new by simp
    qed
    then have "j < length ns" using True new at(1) that by simp
    then show ?thesis
      using True assms(1) new len by (simp add: list_ok_def nth_append list_all2_nthD)
  next
    case False
    then have "?fs = all_fields l" "?ns = ns" using new by (simp_all only: if_False if_True not_not not_True_eq_False)
    then show ?thesis using that(1) assms(1) by (simp only: list_ok_def list_all2_nthD2)
  qed
  have "named (update_field sf p r ?new (?fs ! i)) ?n"
    using update_field_named [of "?fs ! i" sf p r ?new] list_all2_nthD2 [OF fs at(1)] at(2) assms(2) by simp
  then have "list_all2 named (?fs[i := update_field sf p r ?new (?fs ! i)]) ?ns"
    using others at list_all2_lengthD [OF fs]
    by (auto simp: list_all2_conv_all_nth nth_list_update)
  then show ?thesis
    using idx i by (simp add: list_ok_def addField_def Let_def)
qed

text \<open>The entry of a name; \<open>addField\<close> changes that of its name only.\<close>

definition entry_of :: "field_list \<Rightarrow> string \<Rightarrow> gen_field option" where
  "entry_of l n = map_option (\<lambda>i. all_fields l ! i) (map_of (field_idx l) n)"

lemma entry_addField:
  assumes "list_ok l ns"
  shows "entry_of (addField sf p r l) n =
    (if n = sf_name sf
     then Some (case entry_of l n of
            None \<Rightarrow> update_field sf p r True new_field
          | Some f \<Rightarrow> update_field sf p r False f)
     else entry_of l n)"
proof -
  have len: "length (all_fields l) = length ns" and ok: "idx.indexes (field_idx l) ns"
    using assms by (auto simp: list_ok_def dest: list_all2_lengthD)
  have look: "map_of (idx_emplace (sf_name sf) (length (all_fields l)) (field_idx l)) =
      (if map_of (field_idx l) (sf_name sf) = None
       then (map_of (field_idx l))(sf_name sf \<mapsto> length (all_fields l)) else map_of (field_idx l))"
    using ok by (intro idx.look_emplace) (simp add: idx.indexes_def)
  have inside: "i < length (all_fields l)" if "map_of (field_idx l) k = Some i" for i k
    using ok that len by (simp add: idx.indexes_def)
  have apart: "i \<noteq> j" if "map_of (field_idx l) k = Some i" "map_of (field_idx l) k' = Some j" "k \<noteq> k'" for i j k k'
    using ok that by (auto simp: idx.indexes_def)
  show ?thesis
  proof (cases "map_of (field_idx l) (sf_name sf)")
    case None
    then show ?thesis
      using look inside [of n]
      by (cases "map_of (field_idx l) n") (auto simp: entry_of_def addField_def Let_def nth_append)
  next
    case (Some i)
    then show ?thesis
      using look inside apart [OF Some, of n]
      by (cases "map_of (field_idx l) n") (auto simp: entry_of_def addField_def Let_def)
  qed
qed

lemma list_ok_entries:
  assumes "list_ok l ns"
  shows "all_fields l = map (\<lambda>n. the (entry_of l n)) ns"
proof (rule nth_equalityI)
  show len: "length (all_fields l) = length (map (\<lambda>n. the (entry_of l n)) ns)"
    using assms by (auto simp: list_ok_def dest: list_all2_lengthD)
  fix i
  assume "i < length (all_fields l)"
  then have "i < length ns" using len by simp
  moreover from this have "map_of (field_idx l) (ns ! i) = Some i"
    using assms by (simp add: list_ok_def idx.indexes_def)
  ultimately show "all_fields l ! i = map (\<lambda>n. the (entry_of l n)) ns ! i"
    by (simp add: entry_of_def)
qed

lemma list_ok_empty: "list_ok empty_fields []"
  by (simp add: list_ok_def empty_fields_def idx.indexes_def keys_sorted_def)

lemma entry_None: "list_ok l ns \<Longrightarrow> entry_of l n = None \<longleftrightarrow> n \<notin> set ns"
  using idx.indexes_None [of "field_idx l" ns n] by (simp add: list_ok_def entry_of_def)

section \<open>Adding the fields of a call or a struct\<close>

definition names_of :: "schema_field list \<Rightarrow> string list" where
  "names_of sfs = map sf_name sfs"

definition find_field :: "string \<Rightarrow> schema_field list \<Rightarrow> schema_field option" where
  "find_field n sfs = find (\<lambda>sf. sf_name sf = n) sfs"

lemma find_field_simps [simp]:
  "find_field n [] = None"
  "find_field n (sf # sfs) = (if sf_name sf = n then Some sf else find_field n sfs)"
  by (simp_all add: find_field_def)

lemma find_field_None: "find_field n sfs = None \<longleftrightarrow> n \<notin> set (names_of sfs)"
  by (induction sfs) (auto simp: names_of_def)

lemma find_field_name: "find_field n sfs = Some sf \<Longrightarrow> sf_name sf = n"
  by (induction sfs) (auto split: if_splits)

lemma addFields:
  assumes "list_ok l ns" "distinct (names_of sfs)" "p \<or> r"
  shows "list_ok (fold (\<lambda>sf. addField sf p r) sfs l) (ns @ filter (\<lambda>n. n \<notin> set ns) (names_of sfs)) \<and>
    entry_of (fold (\<lambda>sf. addField sf p r) sfs l) n =
      (case find_field n sfs of
         None \<Rightarrow> entry_of l n
       | Some sf \<Rightarrow> Some (case entry_of l n of
             None \<Rightarrow> update_field sf p r True new_field
           | Some f \<Rightarrow> update_field sf p r False f)) \<and>
    (has_result (fold (\<lambda>sf. addField sf p r) sfs l) \<longleftrightarrow>
      has_result l \<or> \<not> p \<and> ''result'' \<in> set (names_of sfs))"
  using assms
proof (induction sfs arbitrary: l ns)
  case (Cons sf sfs)
  let ?l = "addField sf p r l" and ?ns = "if sf_name sf \<in> set ns then ns else ns @ [sf_name sf]"
  have ok: "list_ok ?l ?ns" using Cons.prems by (intro addField_ok)
  have other: "sf_name sf \<notin> set (names_of sfs)" "distinct (names_of sfs)"
    using Cons.prems(2) by (simp_all add: names_of_def)
  note IH = Cons.IH [OF ok other(2) Cons.prems(3)]
  have "filter (\<lambda>n. n \<notin> set ?ns) (names_of sfs) = filter (\<lambda>n. n \<notin> set ns) (names_of sfs)"
    using other(1) by (intro filter_cong) auto
  then have "?ns @ filter (\<lambda>n. n \<notin> set ?ns) (names_of sfs) =
      ns @ filter (\<lambda>n. n \<notin> set ns) (names_of (sf # sfs))"
    by (simp add: names_of_def)
  moreover have "has_result ?l \<longleftrightarrow> has_result l \<or> \<not> p \<and> sf_name sf = ''result''"
    by (simp add: addField_def Let_def)
  ultimately show ?case
    using IH entry_addField [OF Cons.prems(1), of sf p r n] find_field_None [of n sfs] other(1)
    by (auto simp: names_of_def split: option.splits)
qed (simp add: names_of_def)

section \<open>Merging\<close>

text \<open>What the loop of \<open>mergeFields\<close> does to the entry at a position.\<close>

definition marked :: "(string \<times> nat) list \<Rightarrow> gen_field list \<Rightarrow> (string \<times> nat) set \<Rightarrow> nat \<Rightarrow> gen_field" where
  "marked idx fs es j =
     (let f = fs ! j
      in f\<lparr>f_skip := f_skip f \<or>
             (\<exists>e \<in> es. map_of idx (''has'' @ Cap (fst e)) = Some j \<or>
                map_of idx (''want'' @ Cap (fst e)) = Some j \<and> f_param f \<noteq> None),
           f_optional := f_optional f \<or>
             (\<exists>e \<in> es. snd e = j \<and> map_of idx (''has'' @ Cap (fst e)) \<noteq> None),
           f_requested := f_requested f \<or>
             (\<exists>e \<in> es. snd e = j \<and> (\<exists>w. map_of idx (''want'' @ Cap (fst e)) = Some w \<and> f_param (fs ! w) \<noteq> None))\<rparr>)"

lemma nth_set: "j < length xs \<Longrightarrow> xs[i := x] ! j = (if i = j then x else xs ! j)"
  by (cases "i = j") simp_all

lemma merge_field_length [simp]: "length (merge_field idx e fs) = length fs"
  by (simp add: merge_field_def Let_def split: option.splits)

lemma merge_field_same:
  "j < length fs \<Longrightarrow>
    f_param (merge_field idx e fs ! j) = f_param (fs ! j) \<and> f_result (merge_field idx e fs ! j) = f_result (fs ! j) \<and>
    f_args (merge_field idx e fs ! j) = f_args (fs ! j) \<and> f_retval (merge_field idx e fs ! j) = f_retval (fs ! j) \<and>
    f_exception (merge_field idx e fs ! j) = f_exception (fs ! j)"
  by (auto simp: merge_field_def Let_def nth_set split: option.splits)

lemma merge_field_flags:
  assumes "j < length fs" "snd e < length fs"
    and "\<And>i k. map_of idx k = Some i \<Longrightarrow> i < length fs"
  shows "f_skip (merge_field idx e fs ! j) \<longleftrightarrow> f_skip (fs ! j) \<or>
      map_of idx (''has'' @ Cap (fst e)) = Some j \<or>
      map_of idx (''want'' @ Cap (fst e)) = Some j \<and> f_param (fs ! j) \<noteq> None"
    and "f_optional (merge_field idx e fs ! j) \<longleftrightarrow> f_optional (fs ! j) \<or>
      snd e = j \<and> map_of idx (''has'' @ Cap (fst e)) \<noteq> None"
    and "f_requested (merge_field idx e fs ! j) \<longleftrightarrow> f_requested (fs ! j) \<or>
      snd e = j \<and> (\<exists>w. map_of idx (''want'' @ Cap (fst e)) = Some w \<and> f_param (fs ! w) \<noteq> None)"
  using assms(1,2) assms(3) [of "''has'' @ Cap (fst e)"] assms(3) [of "''want'' @ Cap (fst e)"]
  by (auto simp: merge_field_def Let_def nth_set split: option.splits if_splits)

lemma fold_merge:
  assumes "j < length fs" "\<forall>e \<in> set es. snd e < length fs"
    and "\<And>i k. map_of idx k = Some i \<Longrightarrow> i < length fs"
  shows "fold (merge_field idx) es fs ! j = marked idx fs (set es) j"
  using assms
proof (induction es arbitrary: fs)
  case (Cons e es)
  let ?fs = "merge_field idx e fs"
  have IH: "fold (merge_field idx) es ?fs ! j = marked idx ?fs (set es) j"
    using Cons.prems by (intro Cons.IH) simp_all
  note flags = merge_field_flags [of j fs e idx, OF Cons.prems(1) _ Cons.prems(3)]
  have same: "f_param (?fs ! i) = f_param (fs ! i)" if "map_of idx k = Some i" for i k
    using merge_field_same [of i fs idx e] Cons.prems(3) [OF that] by simp
  show ?case
    using IH flags same merge_field_same [OF Cons.prems(1), of idx e] Cons.prems(2)
    by (auto simp: marked_def Let_def intro!: gen_field.equality)
qed (simp add: marked_def Let_def)

section \<open>The fields of a call\<close>

definition call_names :: "schema_method \<Rightarrow> string list" where
  "call_names m = names_of (sm_params m) @
     filter (\<lambda>n. n \<notin> set (names_of (sm_params m))) (names_of (sm_results m))"

text \<open>What a field of a call is, by its name: the direct definition.\<close>

definition annotations_of :: "schema_field option \<Rightarrow> annotation list" where
  "annotations_of sf = (case sf of None \<Rightarrow> [] | Some sf \<Rightarrow> sf_annotations sf)"

definition exception_of :: "schema_field option \<Rightarrow> string \<Rightarrow> string" where
  "exception_of sf e = get_text (annotations_of sf) EXCEPTION_ANNOTATION_ID e"

definition call_field_spec :: "schema_method \<Rightarrow> string \<Rightarrow> gen_field" where
  "call_field_spec m n =
     (let p = find_field n (sm_params m); r = find_field n (sm_results m); names = call_names m
      in \<lparr>f_param = p, f_result = r,
          f_args =
            (case p of
               Some sf \<Rightarrow> if exception_of p [] = [] then field_count sf else 0
             | None \<Rightarrow>
                 (case r of
                    Some sf \<Rightarrow> if n \<noteq> ''result'' \<and> exception_of r [] = [] then field_count sf else 0
                  | None \<Rightarrow> 0)),
          f_retval = (n = ''result'' \<and> r \<noteq> None),
          f_optional = (''has'' @ Cap n \<in> set names),
          f_requested = (''want'' @ Cap n \<in> set (names_of (sm_params m))),
          f_skip =
            (AnnotationExists (annotations_of p) SKIP_ANNOTATION_ID \<or>
             AnnotationExists (annotations_of r) SKIP_ANNOTATION_ID \<or>
             (\<exists>k \<in> set names. n = ''has'' @ Cap k) \<or>
             p \<noteq> None \<and> (\<exists>k \<in> set names. n = ''want'' @ Cap k)),
          f_exception = exception_of r (exception_of p [])\<rparr>)"

lemma indexes_lookup: "idx.indexes m ns \<Longrightarrow> map_of m k = Some i \<longleftrightarrow> i < length ns \<and> ns ! i = k"
  by (simp add: idx.indexes_def)

lemma indexes_entries:
  assumes "idx.indexes m ns"
  shows "(k, i) \<in> set m \<longleftrightarrow> i < length ns \<and> ns ! i = k"
proof -
  have "sorted_wrt (<) (map fst m)" using assms by (simp add: idx.indexes_def keys_sorted_def)
  then have "distinct (map fst m)" by (metis strict_sorted_iff)
  then show ?thesis using indexes_lookup [OF assms, of k i] by (simp add: map_of_eq_Some_iff)
qed

text \<open>The entry of a name after merging.\<close>

definition merged :: "field_list \<Rightarrow> string list \<Rightarrow> string \<Rightarrow> gen_field" where
  "merged l ns n =
     (let f = the (entry_of l n)
      in f\<lparr>f_skip := f_skip f \<or> (\<exists>k \<in> set ns. n = ''has'' @ Cap k) \<or>
             f_param f \<noteq> None \<and> (\<exists>k \<in> set ns. n = ''want'' @ Cap k),
           f_optional := f_optional f \<or> ''has'' @ Cap n \<in> set ns,
           f_requested := f_requested f \<or>
             ''want'' @ Cap n \<in> set ns \<and> f_param (the (entry_of l (''want'' @ Cap n))) \<noteq> None\<rparr>)"

lemma marked_merged:
  assumes "list_ok l ns" "i < length ns"
  shows "marked (field_idx l) (all_fields l) (set (field_idx l)) i = merged l ns (ns ! i)"
proof -
  let ?idx = "field_idx l" and ?fs = "all_fields l"
  have ok: "idx.indexes ?idx ns" using assms(1) by (simp add: list_ok_def)
  note look = indexes_lookup [OF ok] and entries = indexes_entries [OF ok]
  have at: "?fs ! j = the (entry_of l (ns ! j))" if "j < length ns" for j
    using that list_ok_entries [OF assms(1)] by simp
  have dist: "distinct ns" by (rule idx.indexes_distinct [OF ok])
  have ex: "(\<exists>e \<in> set ?idx. P (fst e) (snd e)) \<longleftrightarrow> (\<exists>j < length ns. P (ns ! j) j)" for P
  proof
    assume "\<exists>e \<in> set ?idx. P (fst e) (snd e)"
    then obtain k j where "(k, j) \<in> set ?idx" "P k j" by auto
    then show "\<exists>j < length ns. P (ns ! j) j" using entries [of k j] by auto
  next
    assume "\<exists>j < length ns. P (ns ! j) j"
    then obtain j where "j < length ns" "P (ns ! j) j" by blast
    then have "(ns ! j, j) \<in> set ?idx \<and> P (fst (ns ! j, j)) (snd (ns ! j, j))"
      using entries [of "ns ! j" j] by simp
    then show "\<exists>e \<in> set ?idx. P (fst e) (snd e)" by blast
  qed
  have names: "(\<exists>j < length ns. P (ns ! j)) \<longleftrightarrow> (\<exists>k \<in> set ns. P k)" for P
    by (metis in_set_conv_nth)
  have has: "(\<exists>e \<in> set ?idx. map_of ?idx (x @ Cap (fst e)) = Some i \<and> Q) \<longleftrightarrow> (\<exists>k \<in> set ns. ns ! i = x @ Cap k) \<and> Q" for x Q
    using ex [of "\<lambda>k j. map_of ?idx (x @ Cap k) = Some i \<and> Q"] assms(2) look names [of "\<lambda>k. ns ! i = x @ Cap k \<and> Q"] by auto
  have only: "(\<exists>e \<in> set ?idx. snd e = i \<and> Q (fst e)) \<longleftrightarrow> Q (ns ! i)" for Q
    using ex [of "\<lambda>k j. j = i \<and> Q k"] assms(2) by auto
  have there: "map_of ?idx k \<noteq> None \<longleftrightarrow> k \<in> set ns" for k
    using idx.indexes_None [OF ok, of k] by simp
  have want: "(\<exists>w. map_of ?idx k = Some w \<and> f_param (?fs ! w) \<noteq> None) \<longleftrightarrow>
      k \<in> set ns \<and> f_param (the (entry_of l k)) \<noteq> None" for k
    using look [of k] at by (auto simp: in_set_conv_nth)
  show ?thesis
    using has [of "''has''" True] has [of "''want''" "f_param (?fs ! i) \<noteq> None"]
      only [of "\<lambda>k. map_of ?idx (''has'' @ Cap k) \<noteq> None"]
      only [of "\<lambda>k. \<exists>w. map_of ?idx (''want'' @ Cap k) = Some w \<and> f_param (?fs ! w) \<noteq> None"]
      there [of "''has'' @ Cap (ns ! i)"] want [of "''want'' @ Cap (ns ! i)"] at [OF assms(2)]
    unfolding marked_def merged_def Let_def bex_disj_distrib by (simp add: conj_commute)
qed

lemma mergeFields_ok:
  assumes "list_ok l ns"
  shows "all_fields (mergeFields l) = map (merged l ns) ns"
proof (rule nth_equalityI)
  have len: "length (all_fields l) = length ns"
    using assms by (auto simp: list_ok_def dest: list_all2_lengthD)
  have kept: "length (fold (merge_field m) es fs) = length fs" for m es fs
    by (induction es arbitrary: fs) simp_all
  then show "length (all_fields (mergeFields l)) = length (map (merged l ns) ns)"
    by (simp add: mergeFields_def len)
  fix i
  assume "i < length (all_fields (mergeFields l))"
  then have i: "i < length ns" by (simp add: mergeFields_def kept len)
  have ok: "idx.indexes (field_idx l) ns" using assms by (simp add: list_ok_def)
  have "fold (merge_field (field_idx l)) (field_idx l) (all_fields l) ! i =
      marked (field_idx l) (all_fields l) (set (field_idx l)) i"
  proof (rule fold_merge)
    show "\<forall>e \<in> set (field_idx l). snd e < length (all_fields l)"
      using indexes_entries [OF ok] len by auto
  qed (use i len indexes_lookup [OF ok] in auto)
  then show "all_fields (mergeFields l) ! i = map (merged l ns) ns ! i"
    using i marked_merged [OF assms i] by (simp add: mergeFields_def)
qed

lemma call_list:
  assumes "distinct (names_of (sm_params m))" "distinct (names_of (sm_results m))"
  defines "l \<equiv> fold (\<lambda>sf. addField sf False True) (sm_results m)
      (fold (\<lambda>sf. addField sf True False) (sm_params m) empty_fields)"
  shows "list_ok l (call_names m)"
    and "entry_of l n =
      (case find_field n (sm_params m) of
         None \<Rightarrow> map_option (\<lambda>sf. update_field sf False True True new_field) (find_field n (sm_results m))
       | Some sp \<Rightarrow>
           let f = update_field sp True False True new_field
           in Some (case find_field n (sm_results m) of None \<Rightarrow> f | Some sr \<Rightarrow> update_field sr False True False f))"
    and "has_result l \<longleftrightarrow> ''result'' \<in> set (names_of (sm_results m))"
proof -
  let ?l = "fold (\<lambda>sf. addField sf True False) (sm_params m) empty_fields"
  have start: "entry_of empty_fields k = None" "\<not> has_result empty_fields" for k
    by (simp_all add: entry_of_def empty_fields_def)
  have one: "list_ok ?l (names_of (sm_params m))" "\<not> has_result ?l"
      "entry_of ?l k = map_option (\<lambda>sf. update_field sf True False True new_field) (find_field k (sm_params m))" for k
    using addFields [OF list_ok_empty assms(1), of True False k]
    by (auto simp: start split: option.splits)
  note two = addFields [OF one(1) assms(2), of False True, folded l_def]
  show "list_ok l (call_names m)" using two by (simp add: call_names_def)
  show "entry_of l n =
      (case find_field n (sm_params m) of
         None \<Rightarrow> map_option (\<lambda>sf. update_field sf False True True new_field) (find_field n (sm_results m))
       | Some sp \<Rightarrow>
           let f = update_field sp True False True new_field
           in Some (case find_field n (sm_results m) of None \<Rightarrow> f | Some sr \<Rightarrow> update_field sr False True False f))"
    using two [of n] one(3) [of n] by (auto simp: Let_def split: option.splits)
  show "has_result l \<longleftrightarrow> ''result'' \<in> set (names_of (sm_results m))" using two one(2) by simp
qed

lemma new_field_simps [simp]:
  "f_param new_field = None" "f_result new_field = None" "f_args new_field = 0" "\<not> f_retval new_field"
  "\<not> f_optional new_field" "\<not> f_requested new_field" "\<not> f_skip new_field" "f_exception new_field = []"
  by (simp_all add: new_field_def)

lemma get_text_Nil [simp]: "get_text [] i e = e"
  by (simp add: get_text_def)

lemma call_fields_eq:
  assumes "distinct (names_of (sm_params m))" "distinct (names_of (sm_results m))"
  shows "all_fields (call_fields m) = map (call_field_spec m) (call_names m) \<and>
    (has_result (call_fields m) \<longleftrightarrow> ''result'' \<in> set (names_of (sm_results m)))"
proof -
  let ?l = "fold (\<lambda>sf. addField sf False True) (sm_results m)
      (fold (\<lambda>sf. addField sf True False) (sm_params m) empty_fields)"
  note ok = call_list(1) [OF assms] and entry = call_list(2) [OF assms]
  have param: "f_param (the (entry_of ?l n)) = find_field n (sm_params m)" if "n \<in> set (call_names m)" for n
    using that entry [of n] find_field_None [of n "sm_results m"] find_field_None [of n "sm_params m"]
    by (auto simp: call_names_def Let_def split: option.splits)
  have names: "n \<in> set (names_of (sm_params m)) \<Longrightarrow> n \<in> set (call_names m)" for n
    by (simp add: call_names_def)
  have "merged ?l (call_names m) n = call_field_spec m n" if n: "n \<in> set (call_names m)" for n
  proof -
    let ?e = "the (entry_of ?l n)" and ?p = "find_field n (sm_params m)" and ?r = "find_field n (sm_results m)"
    have cases: "?p \<noteq> None \<or> ?r \<noteq> None"
      using n find_field_None [of n "sm_results m"] find_field_None [of n "sm_params m"]
      by (auto simp: call_names_def)
    note e = entry [of n]
    have args: "f_args (call_field_spec m n) =
      (case ?p of
         Some sf \<Rightarrow> if exception_of ?p [] = [] then field_count sf else 0
       | None \<Rightarrow>
           (case ?r of
              Some sf \<Rightarrow> if n \<noteq> ''result'' \<and> exception_of ?r [] = [] then field_count sf else 0
            | None \<Rightarrow> 0))"
      by (simp only: call_field_spec_def Let_def gen_field.simps)
    have parts: "f_param ?e = ?p" "f_result ?e = ?r" "\<not> f_optional ?e" "\<not> f_requested ?e"
        "f_retval ?e \<longleftrightarrow> n = ''result'' \<and> ?r \<noteq> None"
        "f_skip ?e \<longleftrightarrow> AnnotationExists (annotations_of ?p) SKIP_ANNOTATION_ID \<or>
           AnnotationExists (annotations_of ?r) SKIP_ANNOTATION_ID"
        "f_exception ?e = exception_of ?r (exception_of ?p [])"
        "f_args ?e = f_args (call_field_spec m n)"
      using cases find_field_name [of n "sm_results m"] unfolding e
      by (cases ?p; cases ?r; simp add: annotations_of_def exception_of_def args)+
    have want: "''want'' @ Cap n \<in> set (call_names m) \<and>
        f_param (the (entry_of ?l (''want'' @ Cap n))) \<noteq> None \<longleftrightarrow>
      ''want'' @ Cap n \<in> set (names_of (sm_params m))"
      using names [of "''want'' @ Cap n"] param [of "''want'' @ Cap n"]
        find_field_None [of "''want'' @ Cap n" "sm_params m"] by metis
    obtain e where e: "?e = e" by blast
    show ?thesis
      using parts unfolding merged_def Let_def want e
      by (intro gen_field.equality) (simp_all add: call_field_spec_def Let_def)
  qed
  then show ?thesis
    using mergeFields_ok [OF ok] call_list(3) [OF assms] by (simp add: call_fields_def mergeFields_def)
qed

text \<open>
  C20. The list of fields that the generator computes for a call, through its index by name and the
  merging of companion fields, is the direct one: a field for every name, parameters first, each
  in the order of the schema. A field is optional if there is a field \<open>hasX\<close> for it, requested if
  there is a parameter \<open>wantX\<close> for it, and those companions are skipped.
\<close>

theorem call_fields_spec:
  assumes "distinct (names_of (sm_params m))" "distinct (names_of (sm_results m))"
  shows "all_fields (call_fields m) = map (call_field_spec m) (call_names m) \<and>
    (has_result (call_fields m) \<longleftrightarrow> ''result'' \<in> set (names_of (sm_results m)))"
  by (rule call_fields_eq [OF assms])

section \<open>The text of a call and its chains\<close>

definition field_flags :: "gen_field \<Rightarrow> nat" where
  "field_flags f =
     (if f_param f = None then FIELD_OUT else if f_result f \<noteq> None then FIELD_IN + FIELD_OUT else FIELD_IN) +
     (if f_optional f then FIELD_OPTIONAL else 0) + (if f_requested f then FIELD_REQUESTED else 0) +
     (if BoxedType (sf_type (decl_of f)) then FIELD_BOXED else 0)"

definition accessor_of :: "gen_field \<Rightarrow> field_accessor" where
  "accessor_of f = (name_of f, Accessor (field_flags f))"

text \<open>The C++ type of an accessor: the struct of its field, and the names of its flags.\<close>

fun join :: "string \<Rightarrow> string list \<Rightarrow> string" where
  "join sep [] = []"
| "join sep [x] = x"
| "join sep (x # y # xs) = x @ sep @ join sep (y # xs)"

definition flag_names :: "accessor \<Rightarrow> string list" where
  "flag_names a =
     (if acc_in a then [''FIELD_IN''] else []) @ (if acc_out a then [''FIELD_OUT''] else []) @
     (if acc_optional a then [''FIELD_OPTIONAL''] else []) @
     (if acc_requested a then [''FIELD_REQUESTED''] else []) @ (if acc_boxed a then [''FIELD_BOXED''] else [])"

definition accessor_type :: "string \<Rightarrow> field_accessor \<Rightarrow> string" where
  "accessor_type base_name a =
     ''Accessor<'' @ base_name @ ''_fields::'' @ Cap (fst a) @ '', '' @ join '' | '' (flag_names (snd a)) @ ''>''"

lemma Accessor_flags:
  "Accessor ((if i then FIELD_IN else 0) + (if out then FIELD_OUT else 0) + (if opt then FIELD_OPTIONAL else 0) +
      (if req then FIELD_REQUESTED else 0) + (if boxed then FIELD_BOXED else 0)) =
    \<lparr>acc_in = i, acc_out = out, acc_optional = opt, acc_requested = req, acc_boxed = boxed\<rparr>"
  by (cases i; cases out; cases opt; cases req; cases boxed; simp only: if_True if_False; code_simp)

lemma accessor_of_eq:
  "accessor_of f =
    (name_of f, \<lparr>acc_in = (f_param f \<noteq> None), acc_out = (f_param f = None \<or> f_result f \<noteq> None),
       acc_optional = f_optional f, acc_requested = f_requested f,
       acc_boxed = BoxedType (sf_type (decl_of f))\<rparr>)"
proof -
  have "field_flags f = (if f_param f \<noteq> None then FIELD_IN else 0) +
      (if f_param f = None \<or> f_result f \<noteq> None then FIELD_OUT else 0) +
      (if f_optional f then FIELD_OPTIONAL else 0) + (if f_requested f then FIELD_REQUESTED else 0) +
      (if BoxedType (sf_type (decl_of f)) then FIELD_BOXED else 0)"
    by (simp add: field_flags_def)
  then show ?thesis by (simp only: accessor_of_def Accessor_flags)
qed

lemma AccessorType_eq: "AccessorType base_name f = accessor_type base_name (accessor_of f)"
  by (simp add: AccessorType_def accessor_type_def accessor_of_eq name_of_def flag_names_def)

text \<open>
  How the objects of the chains are written. The variables of the client are the parameters,
  forwarded, and then the variable for the result, which has the name of its field.
\<close>

definition fwd_text :: "nat \<Rightarrow> nat \<Rightarrow> string \<Rightarrow> string" where
  "fwd_text ordinal k name = ''M'' @ show_nat ordinal @ ''::Fwd<'' @ show_nat k @ ''>('' @ name @ '')''"

fun client_field_text :: "string \<Rightarrow> nat \<Rightarrow> nat \<Rightarrow> client_field \<Rightarrow> string" where
  "client_field_text base_name ordinal n (Client_param a xs) =
     '', MakeClientParam<'' @ accessor_type base_name a @ ''>('' @
     join '', '' (map (\<lambda>k. if k < n then fwd_text ordinal k (fst a) else fst a) xs) @ '')''"
| "client_field_text base_name ordinal n (Client_exception t a) =
     '', ClientException<'' @ t @ '', '' @ accessor_type base_name a @ ''>()''"

fun layer_text :: "string \<Rightarrow> server_layer \<Rightarrow> string" where
  "layer_text base_name (Server_field c a) =
     ''MakeServerField<'' @ show_nat c @ '', '' @ accessor_type base_name a @ ''>(''"
| "layer_text base_name (Server_ret a) = ''Make<ServerRet, '' @ accessor_type base_name a @ ''>(''"
| "layer_text base_name (Server_except t a) =
     ''Make<ServerExcept, '' @ t @ '', '' @ accessor_type base_name a @ ''>(''"

fun param_text :: "nat \<Rightarrow> nat \<Rightarrow> ('v, 'm) method_field list \<Rightarrow> string" where
  "param_text ordinal k [] = []"
| "param_text ordinal k (Arg a t # fs) =
     (if k > 0 then '','' else []) @ ''M'' @ show_nat ordinal @ ''::Param<'' @ show_nat k @ ''> '' @ fst a @
     param_text ordinal (Suc k) fs"
| "param_text ordinal k (_ # fs) = param_text ordinal k fs"

text \<open>When a field of the generator is a field of a call in the sense of \<open>CallChains\<close>.\<close>

fun declares :: "gen_field \<Rightarrow> ('v, 'm) method_field \<Rightarrow> bool" where
  "declares f (Ctx a) = (a = accessor_of f \<and> f_args f = 0 \<and> \<not> f_retval f \<and> f_exception f = [])"
| "declares f (Arg a t) = (a = accessor_of f \<and> f_args f = 1 \<and> \<not> f_retval f \<and> f_exception f = [])"
| "declares f (Exc t a) = (a = accessor_of f \<and> f_args f = 0 \<and> \<not> f_retval f \<and> f_exception f = t \<and> t \<noteq> [])"
| "declares f (Ret a) = (a = accessor_of f \<and> f_args f = 0 \<and> f_retval f \<and> f_exception f = [])"

lemma call_field_declared:
  assumes "declares f mf" "\<not> f_skip f"
    and "case mf of Arg a t \<Rightarrow> argc c < n | Ret a \<Rightarrow> argc c = n | _ \<Rightarrow> True"
  shows "call_field base_name ordinal f c =
    \<lparr>client_args = client_args c @ param_text ordinal (argc c) [mf],
     client_invoke = client_invoke c @ concat (map (client_field_text base_name ordinal n) (client_fields (argc c) [mf])),
     server_start = server_start c @ concat (map (layer_text base_name) (server_layers [mf])),
     server_end = server_end c @ '')'',
     argc = argc c + length (Params [mf])\<rparr>"
  using assms
  by (cases mf) (simp_all add: call_field_def AccessorType_eq add_arg_def accessor_of_def name_of_def fwd_text_def
      show_int_def Let_def)

lemma call_texts_declared:
  assumes "list_all2 declares (filter (\<lambda>f. \<not> f_skip f) fs) mfs" "well_ordered mfs"
    and "n = argc c + length (Params mfs)"
  shows "fold (call_field base_name ordinal) fs c =
    \<lparr>client_args = client_args c @ param_text ordinal (argc c) mfs,
     client_invoke = client_invoke c @ concat (map (client_field_text base_name ordinal n) (client_fields (argc c) mfs)),
     server_start = server_start c @ concat (map (layer_text base_name) (server_layers mfs)),
     server_end = server_end c @ concat (replicate (length mfs) '')''),
     argc = n\<rparr>"
  using assms
proof (induction fs arbitrary: mfs c)
  case Nil
  then show ?case by simp
next
  case (Cons f fs)
  show ?case
  proof (cases "f_skip f")
    case True
    then show ?thesis using Cons by (simp add: call_field_def)
  next
    case False
    then obtain mf ms where mfs: "mfs = mf # ms" "declares f mf"
        "list_all2 declares (filter (\<lambda>f. \<not> f_skip f) fs) ms"
      using Cons.prems(1) by (auto simp: list_all2_Cons1)
    have ordered: "well_ordered ms" using Cons.prems(2) mfs(1) by (cases mf) auto
    have step: "call_field base_name ordinal f c =
      \<lparr>client_args = client_args c @ param_text ordinal (argc c) [mf],
       client_invoke = client_invoke c @ concat (map (client_field_text base_name ordinal n) (client_fields (argc c) [mf])),
       server_start = server_start c @ concat (map (layer_text base_name) (server_layers [mf])),
       server_end = server_end c @ '')'',
       argc = argc c + length (Params [mf])\<rparr>"
      using Cons.prems(2,3) mfs False by (intro call_field_declared) (cases mf; simp)+
    have "n = argc (call_field base_name ordinal f c) + length (Params ms)"
      using Cons.prems(3) mfs(1) unfolding step by (cases mf) simp_all
    from Cons.IH [OF mfs(3) ordered this] show ?thesis
      using mfs(1) False Cons.prems(2) by (cases mf) (simp_all add: step)
  qed
qed

text \<open>
  C13. The code that is generated for a call is the code that the theorems on remote calls are about:
  its arguments of \<open>clientInvoke\<close> are the client chain of the call's fields, its argument of
  \<open>serverInvoke\<close> is the chain of server handlers around the call, and its parameters are numbered
  as the chain takes them.
\<close>

theorem generated_chains:
  assumes "distinct (names_of (sm_params m))" "distinct (names_of (sm_results m))"
    and "list_all2 declares (filter (\<lambda>f. \<not> f_skip f) (map (call_field_spec m) (call_names m))) mfs"
    and "well_ordered mfs"
  shows "call_texts base_name ordinal (all_fields (call_fields m)) =
    \<lparr>client_args = param_text ordinal 0 mfs,
     client_invoke = concat (map (client_field_text base_name ordinal (length (Params mfs))) (client_fields 0 mfs)),
     server_start = concat (map (layer_text base_name) (server_layers mfs)),
     server_end = concat (replicate (length (server_layers mfs)) '')''),
     argc = length (Params mfs)\<rparr>"
proof -
  have len: "length (server_layers mfs) = length mfs" for mfs :: "('a, 'b) method_field list"
    by (induction mfs rule: server_layers.induct) simp_all
  have "all_fields (call_fields m) = map (call_field_spec m) (call_names m)"
    using call_fields_eq [OF assms(1,2)] by simp
  then show ?thesis
    using call_texts_declared [OF assms(3,4), of "length (Params mfs)" empty_call base_name ordinal]
    by (simp add: call_texts_def empty_call_def len)
qed

section \<open>An example\<close>

text \<open>The declaration that the example of \<open>CallProps\<close> is made from, and its interface.\<close>

definition sample_call :: "string \<Rightarrow> schema_method" where
  "sample_call exn =
     (let p = \<lparr>sf_name = ''p'', sf_annotations = [], sf_type = T_int32\<rparr>
      in \<lparr>sm_name = ''compute'', sm_annotations = [],
          sm_params =
            [\<lparr>sf_name = ''context'', sf_annotations = [], sf_type = T_struct [(COUNT_ANNOTATION_ID, Int32 0)]\<rparr>,
             \<lparr>sf_name = ''arg'', sf_annotations = [], sf_type = T_int32\<rparr>, p,
             \<lparr>sf_name = ''wantP'', sf_annotations = [], sf_type = T_bool\<rparr>],
          sm_results =
            [p, \<lparr>sf_name = ''error'', sf_annotations = [(EXCEPTION_ANNOTATION_ID, Text exn)], sf_type = T_text\<rparr>,
             \<lparr>sf_name = ''result'', sf_annotations = [], sf_type = T_int32\<rparr>]\<rparr>)"

lemma sample_names:
  "names_of (sm_params (sample_call e)) = [''context'', ''arg'', ''p'', ''wantP'']"
  "names_of (sm_results (sample_call e)) = [''p'', ''error'', ''result'']"
  "call_names (sample_call e) = [''context'', ''arg'', ''p'', ''wantP'', ''error'', ''result'']"
  by (simp_all add: sample_call_def names_of_def call_names_def Let_def)

lemma sample_distinct:
  "distinct (names_of (sm_params (sample_call e)))" "distinct (names_of (sm_results (sample_call e)))"
  by (simp_all add: sample_names)

lemmas annotation_ids = COUNT_ANNOTATION_ID_def EXCEPTION_ANNOTATION_ID_def SKIP_ANNOTATION_ID_def
  NAME_ANNOTATION_ID_def WRAP_ANNOTATION_ID_def NAMESPACE_ANNOTATION_ID_def

lemma sample_caps:
  "Cap ''context'' = ''Context''" "Cap ''arg'' = ''Arg''" "Cap ''p'' = ''P''" "Cap ''wantP'' = ''WantP''"
  "Cap ''error'' = ''Error''" "Cap ''result'' = ''Result''"
  by code_simp+

lemma sample_spec:
  assumes "e \<noteq> []"
  shows "map (call_field_spec (sample_call e)) (call_names (sample_call e)) =
    (let none = \<lparr>f_param = None, f_result = None, f_args = 0, f_retval = False,
       f_optional = False, f_requested = False, f_skip = False, f_exception = []\<rparr>;
         ps = sm_params (sample_call e); rs = sm_results (sample_call e)
     in [none\<lparr>f_param := Some (ps ! 0)\<rparr>, none\<lparr>f_param := Some (ps ! 1), f_args := 1\<rparr>,
         none\<lparr>f_param := Some (ps ! 2), f_result := Some (rs ! 0), f_args := 1, f_requested := True\<rparr>,
         none\<lparr>f_param := Some (ps ! 3), f_args := 1, f_skip := True\<rparr>,
         none\<lparr>f_result := Some (rs ! 1), f_exception := e\<rparr>, none\<lparr>f_result := Some (rs ! 2), f_retval := True\<rparr>])"
  using assms unfolding sample_names
  by (simp add: call_field_spec_def sample_names sample_caps)
    (simp add: sample_call_def exception_of_def annotations_of_def get_text_def field_count_def annotation_ids Let_def)

lemma sample_declares:
  "list_all2 declares (filter (\<lambda>f. \<not> f_skip f)
    (map (call_field_spec (sample_call ''Err'')) (call_names (sample_call ''Err'')))) (sample_method ''Err'')"
  by (simp only: sample_spec [of "''Err''", simplified])
    (simp add: sample_method_def sample_flags accessor_of_eq name_of_def decl_of_def sample_call_def Let_def BoxedType_def)

theorem call_fields_spec_witness:
  "map f_skip (all_fields (call_fields (sample_call ''Err''))) = [False, False, False, True, False, False] \<and>
   map f_requested (all_fields (call_fields (sample_call ''Err''))) = [False, False, True, False, False, False] \<and>
   has_result (call_fields (sample_call ''Err''))"
  using call_fields_spec [OF sample_distinct, of "''Err''"]
  unfolding sample_spec [of "''Err''", simplified] by (simp add: sample_names Let_def)

theorem generated_chains_witness:
  "client_invoke (call_texts ''calc'' 0 (all_fields (call_fields (sample_call ''Err'')))) =
   '', MakeClientParam<Accessor<calc_fields::Context, FIELD_IN | FIELD_BOXED>>()'' @
   '', MakeClientParam<Accessor<calc_fields::Arg, FIELD_IN>>(M0::Fwd<0>(arg))'' @
   '', MakeClientParam<Accessor<calc_fields::P, FIELD_IN | FIELD_OUT | FIELD_REQUESTED>>(M0::Fwd<1>(p))'' @
   '', ClientException<Err, Accessor<calc_fields::Error, FIELD_OUT | FIELD_BOXED>>()'' @
   '', MakeClientParam<Accessor<calc_fields::Result, FIELD_OUT>>(result)''"
proof -
  have order: "well_ordered (sample_method ''Err'')" by (simp add: sample_method_def sample_flags)
  show ?thesis
    unfolding generated_chains [OF sample_distinct sample_declares order]
    by (simp add: sample_method_def) code_simp
qed

end
