(* ===== verification/GenFileProps.thy ===== *)
theory GenFileProps
  imports GenProps
begin

text \<open>
  The generated files: the accessors they declare, their paths, and when they are written.
\<close>

section \<open>The calls of an interface\<close>

text \<open>The calls in the order of \<open>ForEachMethod\<close>: those of the superclasses first.\<close>

fun all_calls :: "bool \<Rightarrow> interface_schema \<Rightarrow> (bool \<times> interface_schema \<times> schema_method) list" where
  "all_calls same (Interface_schema n supers ms) =
     concat (map (all_calls False) supers) @ map (\<lambda>m. (same, Interface_schema n supers ms, m)) ms"

lemma ForEachMethod_eq:
  "ForEachMethod cb same i s = fold (\<lambda>(same, i, m). cb same i m) (all_calls same i) s"
proof (induction cb same i s rule: ForEachMethod.induct)
  case (1 cb same n supers ms s)
  have "fold (ForEachMethod cb False) sups s = fold (\<lambda>(same, i, m). cb same i m) (concat (map (all_calls False) sups)) s"
    if "set sups \<subseteq> set supers" for sups s
    using that 1 by (induction sups arbitrary: s) auto
  then show ?case by (simp add: fold_map comp_def)
qed

section \<open>Accessors\<close>

definition acc_ok :: "string list \<times> string \<Rightarrow> bool" where
  "acc_ok a \<longleftrightarrow> distinct (fst a) \<and> snd a = concat (map (\<lambda>n. accessor_text (Cap n)) (rev (fst a)))"

lemma add_accessor_ok:
  assumes "acc_ok a"
  shows "acc_ok (add_accessor n a)" "set (fst (add_accessor n a)) = insert n (set (fst a))"
  using assms by (auto simp: acc_ok_def add_accessor_def)

lemma add_accessors:
  "acc_ok a \<Longrightarrow> acc_ok (fold add_accessor ns a) \<and> set (fst (fold add_accessor ns a)) = set ns \<union> set (fst a)"
  by (induction ns arbitrary: a) (auto simp: add_accessor_ok)

text \<open>The names of the fields whose \<open>AccessorType\<close> the output of a node has.\<close>

definition call_used :: "schema_method \<Rightarrow> string list" where
  "call_used m = map name_of (filter (\<lambda>f. \<not> f_skip f) (all_fields (call_fields m)))"

definition node_used :: "schema_node \<Rightarrow> string list" where
  "node_used node =
     (case n_kind node of
        Node_struct ps sfs \<Rightarrow> map (\<lambda>f. sf_name (the (f_param f))) (all_fields (struct_fields sfs))
      | Node_interface iface \<Rightarrow>
          if get_text (n_annotations node) WRAP_ANNOTATION_ID [] \<noteq> []
          then concat (map (\<lambda>(same, i, m). call_used m) (all_calls True iface)) else []
      | Node_other \<Rightarrow> [])"

definition used_names :: "file_schema \<Rightarrow> string list" where
  "used_names schema = concat (map node_used (nested_nodes schema))"

lemma accessors_for [simp]: "accessors (accessor_for n g) = add_accessor n (accessors g)"
  by (simp add: accessor_for_def)

lemma accessors_fields:
  "accessors (fold field_accessor_for fs g) =
    fold add_accessor (map name_of (filter (\<lambda>f. \<not> f_skip f) fs)) (accessors g)"
  by (induction fs arbitrary: g) (simp_all add: field_accessor_for_def name_of_def)

lemma accessors_call:
  "accessors (snd (snd (snd (gen_call base_name ns node_name proxied same iface m s)))) =
    fold add_accessor (call_used m) (accessors (snd (snd (snd s))))"
  by (cases s) (simp add: gen_call_def Let_def accessors_fields call_used_def)

lemma accessors_calls:
  "accessors (snd (snd (snd (fold (\<lambda>(same, i, m). gen_call base_name ns node_name proxied same i m) cs s)))) =
    fold add_accessor (concat (map (\<lambda>(same, i, m). call_used m) cs)) (accessors (snd (snd (snd s))))"
  by (induction cs arbitrary: s) (auto simp: accessors_call)

lemma accessors_struct:
  "accessors (fold (struct_accessor base_name) fs g) =
    fold add_accessor (map (\<lambda>f. sf_name (the (f_param f))) fs) (accessors g)"
  by (induction fs arbitrary: g) (simp_all add: struct_accessor_def Let_def)

lemma accessors_case:
  "(\<And>a b c g. accessors (F a b c g) = accessors g) \<Longrightarrow>
    accessors (case x of (a, b, c, g) \<Rightarrow> F a b c g) = accessors (snd (snd (snd x)))"
  by (cases x) simp

lemma accessors_node:
  "accessors (gen_node base_name ns node g) = fold add_accessor (node_used node) (accessors g)"
proof (cases "n_kind node")
  case (Node_struct ps sfs)
  have "accessors (struct_inl ns' nm p fs g) = accessors g" for ns' nm p fs g
    by (simp add: struct_inl_def split: prod.splits)
  moreover have "accessors (struct_dec base_name ns' nm ps fs g) =
      fold add_accessor (map (\<lambda>f. sf_name (the (f_param f))) fs) (accessors g)" for ns' nm fs g
    by (simp add: struct_dec_def Let_def accessors_struct split: prod.splits)
  ultimately show ?thesis
    using Node_struct by (simp add: gen_node_def node_used_def Let_def)
next
  case (Node_interface iface)
  have "accessors (gen_interface base_name ns' nm i p iface g) =
      fold add_accessor (concat (map (\<lambda>(same, i, m). call_used m) (all_calls True iface))) (accessors g)" for ns' nm i p g
    unfolding gen_interface_def interface_dtors_def interface_type_def Let_def ForEachMethod_eq
    by (rule trans [OF accessors_case]) (simp_all add: accessors_calls)
  then show ?thesis
    using Node_interface by (simp add: gen_node_def node_used_def Let_def)
qed (simp add: gen_node_def node_used_def)

lemma accessors_nodes: "accessors (gen_nodes base_name schema) = fold add_accessor (used_names schema) ([], [])"
proof -
  have "accessors (fold (gen_node base_name ns) nodes g) =
      fold add_accessor (concat (map node_used nodes)) (accessors g)" for ns nodes g
    by (induction nodes arbitrary: g) (simp_all add: accessors_node)
  then show ?thesis by (simp add: gen_nodes_def used_names_def empty_output_def)
qed

lemma upper_of_inj:
  assumes "lower c" "lower d" "upper_of c = upper_of d"
  shows "c = d"
proof -
  have "(of_char c - 32 :: nat) < 256" "(of_char d - 32 :: nat) < 256"
    using assms(1,2) unfolding lower_def by linarith+
  then have "of_char (upper_of c) = (of_char c - 32 :: nat)" "of_char (upper_of d) = (of_char d - 32 :: nat)"
    by (simp_all add: upper_of_def)
  then have "of_char c - 32 = (of_char d - 32 :: nat)" using assms(3) by simp
  moreover have "97 \<le> (of_char c :: nat)" "97 \<le> (of_char d :: nat)" using assms(1,2) by (simp_all add: lower_def)
  ultimately have "(of_char c :: nat) = of_char d" by linarith
  then show ?thesis by (simp add: of_char_eq_iff)
qed

lemma Cap_inj:
  assumes "m \<noteq> []" "n \<noteq> []" "lower (hd m)" "lower (hd n)" "Cap m = Cap n"
  shows "m = n"
  using assms upper_of_inj by (cases m; cases n) (auto simp: Cap_def)

text \<open>
  C28. Every accessor type that the generated code names is declared, once: the accessor structs of
  the output are those of the fields used, without repetition, under different names, as
  the names of fields start with a lower case letter.
\<close>

theorem accessors_declared:
  assumes "\<And>n. n \<in> set (used_names schema) \<Longrightarrow> n \<noteq> [] \<and> lower (hd n)"
  shows "\<exists>ns. snd (accessors (gen_nodes base_name schema)) = concat (map (\<lambda>n. accessor_text (Cap n)) ns) \<and>
    set ns = set (used_names schema) \<and> distinct (map Cap ns)"
proof -
  let ?a = "accessors (gen_nodes base_name schema)"
  have ok: "acc_ok ?a" "set (fst ?a) = set (used_names schema)"
    using add_accessors [of "([], [])" "used_names schema"] by (simp_all add: accessors_nodes acc_ok_def)
  have "inj_on Cap (set (used_names schema))"
    using assms Cap_inj by (meson inj_onI)
  then have "distinct (map Cap (rev (fst ?a)))"
    using ok by (simp add: distinct_map acc_ok_def)
  then show ?thesis
    using ok by (intro exI [of _ "rev (fst ?a)"]) (simp add: acc_ok_def)
qed

text \<open>The interface of the example, in a file.\<close>

definition sample_file :: file_schema where
  "sample_file =
     \<lparr>file_annotations = [(NAMESPACE_ANNOTATION_ID, Text ''calc'')],
      nested_nodes =
        [\<lparr>n_name = ''Calc'', n_id = 7, n_annotations = [(WRAP_ANNOTATION_ID, Text ''Calculator'')],
          n_kind = Node_interface (Interface_schema ''Calc'' [] [sample_call ''Err''])\<rparr>]\<rparr>"

lemma sample_used: "used_names sample_file = [''context'', ''arg'', ''p'', ''error'', ''result'']"
proof -
  have "all_fields (call_fields (sample_call ''Err'')) =
      map (call_field_spec (sample_call ''Err'')) (call_names (sample_call ''Err''))"
    using call_fields_eq [OF sample_distinct] by simp
  also note sample_spec [of "''Err''", simplified]
  finally have "call_used (sample_call ''Err'') = [''context'', ''arg'', ''p'', ''error'', ''result'']"
    by (simp add: call_used_def name_of_def decl_of_def sample_call_def Let_def)
  then show ?thesis
    by (simp add: used_names_def node_used_def sample_file_def get_text_def)
qed

theorem accessors_declared_witness:
  "\<exists>ns. snd (accessors (gen_nodes ''calc'' sample_file)) = concat (map (\<lambda>n. accessor_text (Cap n)) ns) \<and>
    set ns = {''context'', ''arg'', ''p'', ''error'', ''result''} \<and> distinct (map Cap ns)"
proof -
  have "n \<noteq> [] \<and> lower (hd n)" if "n \<in> set (used_names sample_file)" for n
    using that by (auto simp: sample_used lower_def)
  from accessors_declared [where base_name = "''calc''" and schema = sample_file, OF this] show ?thesis
    by (simp only: sample_used) simp
qed

section \<open>Paths\<close>

lemma relative_path:
  "(startsWith f p \<and> length p < length f \<and> f ! length p = CHR ''/'' \<and> out = drop (length p + 1) f) \<longleftrightarrow>
    f = p @ ''/'' @ out"
proof
  assume a: "startsWith f p \<and> length p < length f \<and> f ! length p = CHR ''/'' \<and> out = drop (length p + 1) f"
  then have "f = take (length p) f @ f ! length p # drop (Suc (length p)) f"
    using id_take_nth_drop [of "length p" f] by blast
  then show "f = p @ ''/'' @ out" using a by (simp add: startsWith_def)
next
  assume "f = p @ ''/'' @ out"
  then show "startsWith f p \<and> length p < length f \<and> f ! length p = CHR ''/'' \<and> out = drop (length p + 1) f"
    by (simp add: startsWith_def nth_append)
qed

lemma output_path_iff: "p \<noteq> ''.'' \<Longrightarrow> output_path p f = Inr out \<longleftrightarrow> f = p @ ''/'' @ out"
  unfolding relative_path [symmetric] by (auto simp: output_path_def)

lemma include_path_iff: "p \<noteq> ''.'' \<Longrightarrow> include_path p f = Inr inc \<longleftrightarrow> f = p @ ''/'' @ inc"
  unfolding relative_path [symmetric] by (auto simp: include_path_def)

definition written_files :: "string \<Rightarrow> string \<Rightarrow> string \<Rightarrow> file_schema \<Rightarrow> (string \<times> string) list" where
  "written_files src_file out inc schema =
     (let base_name = base_name_of (include_base inc);
          guard = map guard_char out;
          as = file_annotations schema;
          g = gen_nodes base_name schema
      in [(out @ ''.proxy-server.c++'', cpp_server_text src_file inc g),
          (out @ ''.proxy-client.c++'', cpp_client_text src_file inc g),
          (out @ ''.proxy-types.c++'', cpp_types_text src_file inc g),
          (out @ ''.proxy-types.h'', inl_text src_file inc guard as g),
          (out @ ''.proxy.h'', h_text src_file inc guard base_name as g)])"

text \<open>
  The generator writes its five files exactly when the schema file is below both prefixes, the
  Cap'n Proto compiler ends with status 0 and the schema can be read; in every other case it
  reports an error and writes none. The files are named after the path below the source prefix,
  and include the path below the include prefix.
\<close>

theorem generate_writes:
  assumes "src_prefix \<noteq> ''.''" "include_prefix \<noteq> ''.''"
  shows "GenerateFiles capnp run parse src_prefix include_prefix src_file imports = Inr files \<longleftrightarrow>
    (\<exists>out inc schema.
       src_file = src_prefix @ ''/'' @ out \<and> src_file = include_prefix @ ''/'' @ inc \<and>
       run (compiler_args capnp src_prefix imports src_file) = Some 0 \<and>
       parse out imports = Inr schema \<and> files = written_files src_file out inc schema)"
proof -
  have "GenerateFiles capnp run parse src_prefix include_prefix src_file imports = Inr files \<longleftrightarrow>
    (\<exists>out inc schema.
       output_path src_prefix src_file = Inr out \<and> include_path include_prefix src_file = Inr inc \<and>
       run (compiler_args capnp src_prefix imports src_file) = Some 0 \<and>
       parse out imports = Inr schema \<and> files = written_files src_file out inc schema)"
    by (auto simp: GenerateFiles_def bind_res_eq_Inr written_files_def Let_def split: option.splits if_splits)
  then show ?thesis
    using output_path_iff [OF assms(1)] include_path_iff [OF assms(2)] by simp
qed

theorem generate_writes_witness:
  "GenerateFiles ''/usr'' (\<lambda>args. Some 0) (\<lambda>p imports. Inr sample_file) ''/src'' ''/src/ipc'' ''/src/ipc/calc.capnp'' [] =
   Inr (written_files ''/src/ipc/calc.capnp'' ''ipc/calc.capnp'' ''calc.capnp'' sample_file)"
  using generate_writes [of "''/src''" "''/src/ipc''" "''/usr''" "\<lambda>args. Some 0" "\<lambda>p imports. Inr sample_file"
      "''/src/ipc/calc.capnp''" "[]"]
  by simp

section \<open>The command line\<close>

text \<open>
  With two arguments the program passes the check of its command line and then reads the third,
  which is not there.
\<close>

theorem missing_file_unchecked:
  assumes "is_dir src_prefix"
  shows "gen_main install capnp run parse is_dir [program, src_prefix, include_prefix] = Null_argument"
  using assms by (simp add: gen_main_def open_imports_def)

theorem missing_file_unchecked_witness:
  "gen_main ''/usr'' ''/usr'' (\<lambda>args. Some 0) (\<lambda>p imports. Inr sample_file) (\<lambda>p. True) [''mpgen'', ''/src'', ''/src''] =
   Null_argument"
  using missing_file_unchecked [of "\<lambda>p. True" "''/src''"] by simp

end
