(* ===== verification/Spawn.thy ===== *)
theory Spawn
  imports Prelude "HOL-Library.Word"
begin

text \<open>
  Processes: \<open>MakeArgv\<close>, \<open>MaxFd\<close>, \<open>SpawnProcess\<close>, \<open>ExecProcess\<close> and \<open>WaitProcess\<close> of
  \<open>src/mp/util.cpp\<close>. The system calls are documented behaviour of POSIX on a table of
  descriptors; how each of them ends in a run is given by a record.
\<close>

section \<open>Descriptors\<close>

text \<open>The open descriptors of a process and the objects behind them.\<close>

type_synonym 'o descriptors = "int \<Rightarrow> 'o option"

text \<open>What the system calls of one run of \<open>SpawnProcess\<close> end with; a \<open>close\<close> that fails closes nothing.\<close>

record system_calls =
  socketpair_fds :: "(int \<times> int) option"
  fork_pid :: "int option"
  parent_close :: bool
  child_close :: bool
  rlimit_cur :: "64 word option"
  exec_works :: bool

text \<open>The pointers for \<open>execvp\<close>; the last one is null.\<close>

definition MakeArgv :: "string list \<Rightarrow> string option list" where
  "MakeArgv args = map Some args @ [None]"

definition MaxFd :: "system_calls \<Rightarrow> 64 word" where
  "MaxFd sys = (case rlimit_cur sys of Some cur \<Rightarrow> cur - 1 | None \<Rightarrow> 1023)"

text \<open>The conversion of a \<open>size_t\<close> to an \<open>int\<close> of 32 bits.\<close>

definition int_of_size :: "64 word \<Rightarrow> int" where
  "int_of_size w = sint (ucast w :: 32 word)"

section \<open>SpawnProcess\<close>

text \<open>How a child process ends: it becomes another program, with its arguments and descriptors, or exits.\<close>

datatype 'o child =
    Exec "string option list" "'o descriptors"
  | Exit int

text \<open>The loop that closes the descriptors from \<open>fd\<close> on.\<close>

function close_from :: "int \<Rightarrow> int \<Rightarrow> int \<Rightarrow> 'o descriptors \<Rightarrow> 'o descriptors" where
  "close_from fd maxFd keep d =
     (if fd < maxFd then close_from (fd + 1) maxFd keep (if fd \<noteq> keep then d(fd := None) else d) else d)"
  by pat_completeness auto
termination by (relation "measure (\<lambda>(fd, maxFd, keep, d). nat (maxFd - fd))") auto

declare close_from.simps [simp del]

definition child_process :: "system_calls \<Rightarrow> int \<times> int \<Rightarrow> string list \<Rightarrow> 'o descriptors \<Rightarrow> 'o child" where
  "child_process sys fds args d =
     (if \<not> child_close sys then Exit 126
      else
        (let d = d(snd fds := None);
             d = close_from 3 (int_of_size (MaxFd sys)) (fst fds) d
         in if exec_works sys then Exec (MakeArgv args) d else Exit 127))"

datatype 'e spawn_error = System string | Callback 'e

text \<open>
  \<open>SpawnProcess\<close>: its result in the parent, the parent's descriptors, \<open>pid\<close>, and the child if there
  is one. \<open>ends\<close> are the two ends of the socket. The arguments come from the callback \<open>fd_to_args\<close>.
\<close>

definition SpawnProcess ::
  "system_calls \<Rightarrow> 'o \<times> 'o \<Rightarrow> (int \<Rightarrow> 'e + string list) \<Rightarrow> 'o descriptors \<Rightarrow> int \<Rightarrow>
   ('e spawn_error + int) \<times> 'o descriptors \<times> int \<times> 'o child option" where
  "SpawnProcess sys ends fd_to_args d pid =
     (case socketpair_fds sys of
        None \<Rightarrow> (Inl (System ''socketpair''), d, pid, None)
      | Some fds \<Rightarrow>
          let d = d(fst fds := Some (fst ends), snd fds := Some (snd ends))
          in case fd_to_args (fst fds) of
               Inl e \<Rightarrow> (Inl (Callback e), d, pid, None)
             | Inr args \<Rightarrow>
                 (case fork_pid sys of
                    None \<Rightarrow> (Inl (System ''fork''), d, -1, None)
                  | Some pid \<Rightarrow>
                      let child = child_process sys fds args d
                      in if parent_close sys then (Inr (snd fds), d(fst fds := None), pid, Some child)
                         else (Inl (System ''close''), d(snd fds := None), pid, Some child)))"

section \<open>ExecProcess and WaitProcess\<close>

text \<open>
  \<open>ExecProcess\<close> does not return; a failed \<open>execvp\<close> writes to the error stream and exits. \<open>enoent\<close>
  says that the program was not found, \<open>canonical\<close> is \<open>weakly_canonical\<close>.
\<close>

datatype exec_end = Executes "string option list" | Exits int string

definition ExecProcess :: "bool \<Rightarrow> bool \<Rightarrow> (string \<Rightarrow> string) \<Rightarrow> string list \<Rightarrow> exec_end" where
  "ExecProcess works enoent canonical args =
     (if works then Executes (MakeArgv args)
      else Exits 1 (if enoent \<and> args \<noteq> [] then ''Missing executable: '' @ canonical (hd args) else []))"

text \<open>How a process ended, and the status word that \<open>waitpid\<close> reports for it.\<close>

datatype exit_status = Exited int | Signaled int

fun wait_status :: "exit_status \<Rightarrow> int" where
  "wait_status (Exited c) = 256 * (c mod 256)"
| "wait_status (Signaled s) = s"

definition WaitProcess :: "(int \<Rightarrow> exit_status option) \<Rightarrow> int \<Rightarrow> string + int" where
  "WaitProcess waitpid pid =
     (case waitpid pid of None \<Rightarrow> Inl ''waitpid'' | Some e \<Rightarrow> Inr (wait_status e))"

section \<open>Properties\<close>

lemma close_from_eq:
  "close_from fd maxFd keep d = (\<lambda>k. if fd \<le> k \<and> k < maxFd \<and> k \<noteq> keep then None else d k)"
proof (induction fd maxFd keep d rule: close_from.induct)
  case (1 fd maxFd keep d)
  show ?case
  proof (cases "fd < maxFd")
    case True
    then show ?thesis
      using 1 by (subst close_from.simps) (auto simp: fun_eq_iff)
  next
    case False
    then show ?thesis by (subst close_from.simps) (auto simp: fun_eq_iff)
  qed
qed

lemma int_of_size_small:
  assumes "uint w < 2 ^ 31"
  shows "int_of_size w = uint w"
proof -
  have "uint (ucast w :: 32 word) = uint w"
    using assms by (simp add: uint_word_of_int unsigned_ucast_eq take_bit_int_eq_self)
  moreover have "- (2 ^ 31) \<le> uint w"
    by (rule order_trans [OF _ unsigned_greater_eq]) simp
  ultimately show ?thesis
    using signed_take_bit_int_eq_self [of 31 "uint w"] assms by (simp add: int_of_size_def sint_uint)
qed

lemma uint_minus_one: "w \<noteq> 0 \<Longrightarrow> uint (w - 1 :: 64 word) = uint w - 1"
  by (metis add.commute diff_add_cancel uint_minus_simple_alt uint_plus_simple word_gt_0 word_le_less_eq
      word_le_sub1 word_less_1 unsigned_1 le_less)

lemma child_descriptors:
  "child_process sys (a, b) args d = Exec argv c \<longleftrightarrow>
    child_close sys \<and> exec_works sys \<and> argv = MakeArgv args \<and>
    c = (\<lambda>k. if 3 \<le> k \<and> k < int_of_size (MaxFd sys) \<and> k \<noteq> a then None else (d(b := None)) k)"
  by (auto simp: child_process_def Let_def close_from_eq)

text \<open>
  A process that is spawned talks to its parent over the socket: the parent gets one end and its
  number, the callback is given the number of the other end, and the child starts the program
  with the arguments the callback returned, with that end open under that number and the
  parent's end closed. The parent keeps all its other descriptors.
\<close>

theorem spawn_connected:
  assumes "socketpair_fds sys = Some (a, b)" "a \<noteq> b" "fd_to_args a = Inr args" "fork_pid sys = Some p"
    and "parent_close sys" "child_close sys" "exec_works sys"
  shows "\<exists>c. SpawnProcess sys ends fd_to_args d pid =
      (Inr b, d(a := None, b := Some (snd ends)), p, Some (Exec (map Some args @ [None]) c)) \<and>
    c a = Some (fst ends) \<and> c b = None"
  using assms by (auto simp: SpawnProcess_def child_descriptors MakeArgv_def fun_upd_twist)

text \<open>
  The other descriptors that the program starts with: of those from 3 on, the ones below the limit
  of the process minus one are closed. The highest descriptor that the limit allows is not: it
  stays open in the child.
\<close>

theorem spawn_child_descriptors:
  assumes "socketpair_fds sys = Some (a, b)" "a \<noteq> b" "rlimit_cur sys = Some cur" "cur \<noteq> 0" "uint cur \<le> 2 ^ 31"
    and "SpawnProcess sys ends fd_to_args d pid = (r, d', pid', Some (Exec argv c))" "fd \<noteq> a" "fd \<noteq> b"
  shows "c fd = (if 3 \<le> fd \<and> fd < uint cur - 1 then None else d fd) \<and> c (uint cur - 1) =
    (if uint cur - 1 = a then Some (fst ends) else if uint cur - 1 = b then None else d (uint cur - 1))"
proof -
  have "int_of_size (MaxFd sys) = uint cur - 1"
    using assms(3-5) int_of_size_small [of "cur - 1"] uint_minus_one [of cur] by (simp add: MaxFd_def)
  moreover obtain args where "child_process sys (a, b) args (d(a := Some (fst ends), b := Some (snd ends))) = Exec argv c"
    using assms(1,6) by (auto simp: SpawnProcess_def Let_def split: sum.splits option.splits if_splits)
  ultimately show ?thesis
    using assms(2,7,8) by (auto simp: child_descriptors)
qed

text \<open>
  When the number of descriptors is not limited, the number of descriptors to close does not fit
  the loop variable, and the child starts with every descriptor of its parent.
\<close>

theorem spawn_unlimited_closes_none:
  assumes "socketpair_fds sys = Some (a, b)" "rlimit_cur sys = Some (- 1)"
    and "SpawnProcess sys ends fd_to_args d pid = (r, d', pid', Some (Exec argv c))"
  shows "c = d(a := Some (fst ends), b := None)"
proof -
  have "int_of_size (MaxFd sys) = - 2"
    using assms(2) by (simp add: MaxFd_def int_of_size_def)
  moreover obtain args where "child_process sys (a, b) args (d(a := Some (fst ends), b := Some (snd ends))) = Exec argv c"
    using assms(1,3) by (auto simp: SpawnProcess_def Let_def split: sum.splits option.splits if_splits)
  ultimately show ?thesis
    by (auto simp: child_descriptors fun_eq_iff)
qed

text \<open>
  When the callback throws or the fork fails, both ends of the socket stay open in the parent, which
  has no number for either of them.
\<close>

theorem spawn_failure_leaks:
  assumes "socketpair_fds sys = Some (a, b)" "fork_pid sys = None \<or> isl (fd_to_args a)"
  shows "\<exists>e pid'. SpawnProcess sys ends fd_to_args d pid =
    (Inl e, d(a := Some (fst ends), b := Some (snd ends)), pid', None)"
  using assms by (auto simp: SpawnProcess_def Let_def split: sum.splits)

text \<open>
  \<open>WaitProcess\<close> returns the status word, in which the exit code is shifted: for no exit code but 0
  it returns that code.
\<close>

theorem wait_returns_status:
  assumes "waitpid pid = Some (Exited c)" "0 < c" "c < 256"
  shows "WaitProcess waitpid pid = Inr (256 * c)"
  using assms by (simp add: WaitProcess_def)

section \<open>An example\<close>

definition sample_system :: system_calls where
  "sample_system = \<lparr>socketpair_fds = Some (5, 6), fork_pid = Some 77, parent_close = True, child_close = True,
     rlimit_cur = Some 1024, exec_works = True\<rparr>"

definition sample_descriptors :: "string descriptors" where
  "sample_descriptors = (\<lambda>fd. if 0 \<le> fd \<and> fd < 5 \<or> fd = 1023 then Some ''file'' else None)"

definition sample_args :: "int \<Rightarrow> string + string list" where
  "sample_args fd = (if fd = 5 then Inr [''mpexample'', ''5''] else Inl ''error'')"

theorem spawn_connected_witness:
  "\<exists>c. SpawnProcess sample_system (''child'', ''parent'') sample_args sample_descriptors 0 =
      (Inr 6, sample_descriptors(5 := None, 6 := Some ''parent''), 77,
       Some (Exec [Some ''mpexample'', Some ''5'', None] c)) \<and>
    c 5 = Some ''child'' \<and> c 6 = None"
  using spawn_connected [of sample_system 5 6 sample_args "[''mpexample'', ''5'']" 77 "(''child'', ''parent'')"
      sample_descriptors 0]
  by (simp add: sample_system_def sample_args_def)

theorem spawn_child_descriptors_witness:
  "\<exists>r d' p argv c. SpawnProcess sample_system (''child'', ''parent'') sample_args sample_descriptors 0 =
      (r, d', p, Some (Exec argv c)) \<and> c 3 = None \<and> c 1023 = Some ''file''"
proof -
  obtain r d' p argv c where c: "SpawnProcess sample_system (''child'', ''parent'') sample_args sample_descriptors 0 =
      (r, d', p, Some (Exec argv c))"
    by (simp add: SpawnProcess_def child_process_def sample_system_def sample_args_def)
  have "c 3 = None \<and> c 1023 = Some ''file''"
    using spawn_child_descriptors [OF _ _ _ _ _ c, of 5 6 1024 3]
    by (simp add: sample_system_def sample_descriptors_def)
  then show ?thesis using c by blast
qed

theorem spawn_unlimited_closes_none_witness:
  "\<exists>r d' p argv c. SpawnProcess (sample_system\<lparr>rlimit_cur := Some (- 1)\<rparr>) (''child'', ''parent'') sample_args
      sample_descriptors 0 = (r, d', p, Some (Exec argv c)) \<and> c 3 = Some ''file''"
proof -
  obtain r d' p argv c where c: "SpawnProcess (sample_system\<lparr>rlimit_cur := Some (- 1)\<rparr>) (''child'', ''parent'') sample_args
      sample_descriptors 0 = (r, d', p, Some (Exec argv c))"
    by (simp add: SpawnProcess_def child_process_def sample_system_def sample_args_def)
  have "c = sample_descriptors(5 := Some ''child'', 6 := None)"
    using spawn_unlimited_closes_none [OF _ _ c, of 5 6] by (simp add: sample_system_def)
  then have "c 3 = Some ''file''" by (simp add: sample_descriptors_def)
  then show ?thesis using c by blast
qed

theorem spawn_failure_leaks_witness:
  "\<exists>e p. SpawnProcess (sample_system\<lparr>fork_pid := None\<rparr>) (''child'', ''parent'') sample_args sample_descriptors 0 =
    (Inl e, sample_descriptors(5 := Some ''child'', 6 := Some ''parent''), p, None)"
  using spawn_failure_leaks [of "sample_system\<lparr>fork_pid := None\<rparr>" 5 6 sample_args "(''child'', ''parent'')"]
  by (simp add: sample_system_def)

theorem wait_returns_status_witness: "WaitProcess (\<lambda>p. Some (Exited 1)) 77 = Inr 256"
  using wait_returns_status [of "\<lambda>p. Some (Exited 1)" 77 1] by simp

end
