(* ===== verification/Connections.thy ===== *)
theory Connections
  imports Prelude
begin

text \<open>
  Making connections and dropping them (\<open>include/mp/proxy-io.h\<close>): \<open>ConnectStream\<close>, \<open>_Serve\<close>,
  \<open>_Listen\<close>, \<open>ServeStream\<close>, \<open>ListenConnections\<close> and \<open>Connection::onDisconnect\<close>. Everything here
  runs on the event loop thread; the order in which the promises of the two-party networks, the
  tasks of the loop and the functions that other threads post take their turns is left open.
\<close>

section \<open>State\<close>

text \<open>
  The functions given to \<open>onDisconnect\<close>: the client deletes its connection, the server erases it
  from the list of incoming connections.
\<close>

datatype on_disconnect = Delete nat | Erase nat

fun target :: "on_disconnect \<Rightarrow> nat" where
  "target (Delete c) = c" | "target (Erase c) = c"

datatype connection_fault = Double_delete | Bad_erase

text \<open>
  The connection objects on the heap, with the handler in \<open>m_on_disconnect\<close> that has not fired yet;
  \<open>m_incoming_connections\<close>; the tasks made by \<open>evalLater\<close>, which run in order; the listeners that
  wait for a connection; the clients made by \<open>ConnectStream\<close>, by the number of their connection, whose
  \<open>m_context.connection\<close> is not null. \<open>fresh\<close> numbers the objects.
\<close>

record connections =
  heap :: "nat \<Rightarrow> on_disconnect option option"
  incoming :: "nat list"
  later :: "on_disconnect list"
  listeners :: "nat set"
  owners :: "nat set"
  fresh :: nat

definition no_connections :: connections where
  "no_connections = \<lparr>heap = (\<lambda>_. None), incoming = [], later = [], listeners = {}, owners = {}, fresh = 0\<rparr>"

section \<open>Operations\<close>

text \<open>\<open>onDisconnect\<close>, and what its promise does when the network reports the end of the connection.\<close>

definition onDisconnect :: "nat \<Rightarrow> on_disconnect \<Rightarrow> connections \<Rightarrow> connections" where
  "onDisconnect c f s = s\<lparr>heap := (heap s)(c := Some (Some f))\<rparr>"

definition disconnect_fires :: "nat \<Rightarrow> connections \<Rightarrow> connections" where
  "disconnect_fires c s =
     (case heap s c of
        Some (Some f) \<Rightarrow> s\<lparr>heap := (heap s)(c := Some None), later := later s @ [f]\<rparr>
      | _ \<Rightarrow> s)"

text \<open>
  The destructor cancels a handler that has not fired, and tells the client that uses the
  connection that it is gone.
\<close>

definition destroy :: "nat \<Rightarrow> connections \<Rightarrow> connections" where
  "destroy c s = s\<lparr>heap := (heap s)(c := None), owners := owners s - {c}\<rparr>"

definition delete_connection :: "nat \<Rightarrow> connections \<Rightarrow> connection_fault + connections" where
  "delete_connection c s = (if heap s c = None then Inl Double_delete else Inr (destroy c s))"

text \<open>A task of the loop: the functions that were given to \<open>onDisconnect\<close>.\<close>

fun run_later :: "on_disconnect \<Rightarrow> connections \<Rightarrow> connection_fault + connections" where
  "run_later (Delete c) s = delete_connection c s"
| "run_later (Erase c) s =
     (if c \<notin> set (incoming s) then Inl Bad_erase
      else Inr (destroy c (s\<lparr>incoming := remove1 c (incoming s)\<rparr>)))"

definition next_task :: "connections \<Rightarrow> connection_fault + connections" where
  "next_task s = (case later s of [] \<Rightarrow> Inr s | f # fs \<Rightarrow> run_later f (s\<lparr>later := fs\<rparr>))"

text \<open>\<open>ConnectStream\<close>: a connection object owned by the client that is returned.\<close>

definition ConnectStream :: "connections \<Rightarrow> nat \<times> connections" where
  "ConnectStream s =
     (let c = fresh s;
          s = s\<lparr>fresh := fresh s + 1, heap := (heap s)(c := Some None)\<rparr>;
          s = onDisconnect c (Delete c) s
      in (c, s\<lparr>owners := insert c (owners s)\<rparr>))"

text \<open>
  What the cleanup function of that client does to the connection: \<open>destroy_connection\<close> is set. With a
  null pointer \<open>delete\<close> does nothing.
\<close>

definition client_gone :: "nat \<Rightarrow> connections \<Rightarrow> connection_fault + connections" where
  "client_gone c s =
     (if c \<notin> owners s then Inr s
      else bind_res (delete_connection c s) (\<lambda>s. Inr (s\<lparr>owners := owners s - {c}\<rparr>)))"

text \<open>\<open>_Serve\<close>, which \<open>ServeStream\<close> calls, and \<open>_Listen\<close>, which \<open>ListenConnections\<close> calls.\<close>

definition Serve :: "connections \<Rightarrow> connections" where
  "Serve s =
     (let c = fresh s;
          s = s\<lparr>fresh := fresh s + 1, heap := (heap s)(c := Some None), incoming := c # incoming s\<rparr>
      in onDisconnect (hd (incoming s)) (Erase (hd (incoming s))) s)"

definition Listen :: "nat \<Rightarrow> connections \<Rightarrow> connections" where
  "Listen l s = s\<lparr>listeners := insert l (listeners s)\<rparr>"

text \<open>The promise of \<open>accept\<close>: the listener is moved into the next call of \<open>_Listen\<close>.\<close>

definition accepted :: "nat \<Rightarrow> connections \<Rightarrow> connections" where
  "accepted l s = Listen l (Serve (s\<lparr>listeners := listeners s - {l}\<rparr>))"

section \<open>Steps\<close>

text \<open>\<open>early\<close> says whether a client may go while the task that deletes its connection waits.\<close>

inductive conn_step :: "bool \<Rightarrow> connections \<Rightarrow> connection_fault + connections \<Rightarrow> bool" for early where
  connect: "conn_step early s (Inr (snd (ConnectStream s)))"
| serve: "conn_step early s (Inr (Serve s))"
| listen: "conn_step early s (Inr (Listen l s))"
| accept: "l \<in> listeners s \<Longrightarrow> conn_step early s (Inr (accepted l s))"
| fires: "conn_step early s (Inr (disconnect_fires c s))"
| task: "later s \<noteq> [] \<Longrightarrow> conn_step early s (next_task s)"
| gone: "early \<or> Delete c \<notin> set (later s) \<Longrightarrow> conn_step early s (client_gone c s)"

inductive_cases conn_stepE: "conn_step early s r"

definition conn_ok :: "bool \<Rightarrow> connections \<Rightarrow> connections \<Rightarrow> bool" where
  "conn_ok early s t \<longleftrightarrow> conn_step early s (Inr t)"

text \<open>
  The invariant: tasks are for different connections that exist and whose handler has fired, the erasing ones
  for connections of the list; the list has no duplicates.
\<close>

definition conns_inv :: "connections \<Rightarrow> bool" where
  "conns_inv s \<longleftrightarrow>
     distinct (map target (later s)) \<and>
     (\<forall>f \<in> set (later s). heap s (target f) = Some None) \<and>
     (\<forall>c. Erase c \<in> set (later s) \<longrightarrow> c \<in> set (incoming s)) \<and>
     (\<forall>c. Delete c \<in> set (later s) \<longrightarrow> c \<notin> set (incoming s)) \<and>
     distinct (incoming s) \<and>
     (\<forall>c \<in> set (incoming s). heap s c \<noteq> None) \<and>
     (\<forall>c. heap s c \<in> {None, Some None, Some (Some (if c \<in> set (incoming s) then Erase c else Delete c))}) \<and>
     (\<forall>c \<in> owners s. heap s c \<noteq> None \<and> c \<notin> set (incoming s)) \<and>
     (\<forall>c. fresh s \<le> c \<longrightarrow> heap s c = None)"

lemma target_eq: "f = Delete (target f) \<or> f = Erase (target f)"
  by (cases f) simp_all

lemma destroy_inv:
  assumes "conns_inv s" "c \<notin> target ` set (later s)" "c \<notin> set (incoming s)"
  shows "conns_inv (destroy c s)"
  using assms unfolding conns_inv_def destroy_def by simp blast

lemma new_inv:
  assumes "conns_inv s" "c = fresh s"
  shows "conns_inv (s\<lparr>fresh := c + 1, heap := (heap s)(c := Some (Some (Delete c))), owners := insert c (owners s)\<rparr>)"
    and "conns_inv (s\<lparr>fresh := c + 1, incoming := c # incoming s, heap := (heap s)(c := Some (Some (Erase c)))\<rparr>)"
proof -
  have none: "heap s c = None" using assms by (simp add: conns_inv_def)
  then have new: "c \<notin> set (incoming s)" "c \<notin> target ` set (later s)" "c \<notin> owners s"
    using assms(1) unfolding conns_inv_def by force+
  moreover from this have "Erase c \<notin> set (later s)" "Delete c \<notin> set (later s)" by force+
  ultimately show "conns_inv (s\<lparr>fresh := c + 1, heap := (heap s)(c := Some (Some (Delete c))),
      owners := insert c (owners s)\<rparr>)"
    and "conns_inv (s\<lparr>fresh := c + 1, incoming := c # incoming s, heap := (heap s)(c := Some (Some (Erase c)))\<rparr>)"
    using assms unfolding conns_inv_def by (simp_all add: image_iff) (metis target.simps)+
qed

lemma Serve_inv: "conns_inv s \<Longrightarrow> conns_inv (Serve s)"
  using new_inv(2) [of s "fresh s"]
  by (simp add: Serve_def onDisconnect_def Let_def)

lemma ConnectStream_inv: "conns_inv s \<Longrightarrow> conns_inv (snd (ConnectStream s))"
  using new_inv(1) [of s "fresh s"] by (simp add: ConnectStream_def onDisconnect_def Let_def)

lemma listeners_inv [simp]: "conns_inv (s\<lparr>listeners := ls\<rparr>) = conns_inv s"
  by (simp add: conns_inv_def)

lemma fires_inv:
  assumes "conns_inv s"
  shows "conns_inv (disconnect_fires c s)"
proof (cases "\<exists>f. heap s c = Some (Some f)")
  case False
  then have "disconnect_fires c s = s" by (auto simp: disconnect_fires_def split: option.splits)
  then show ?thesis using assms by simp
next
  case True
  let ?f = "if c \<in> set (incoming s) then Erase c else Delete c"
  have f: "heap s c = Some (Some ?f)"
    using True assms unfolding conns_inv_def by (metis empty_iff insert_iff option.distinct(1) option.inject)
  have "c \<notin> target ` set (later s)" using assms f unfolding conns_inv_def by force
  moreover have "\<not> fresh s \<le> c" using assms f unfolding conns_inv_def by auto
  ultimately have "conns_inv (s\<lparr>heap := (heap s)(c := Some None), later := later s @ [?f]\<rparr>)"
    using assms unfolding conns_inv_def by (auto simp: image_iff)
  then show ?thesis using f by (simp add: disconnect_fires_def)
qed

lemma task_inv:
  assumes "conns_inv s"
  shows "\<exists>t. next_task s = Inr t \<and> conns_inv t"
proof (cases "later s")
  case Nil
  then show ?thesis using assms by (simp add: next_task_def)
next
  case (Cons f fs)
  let ?s = "s\<lparr>later := fs\<rparr>"
  have rest: "conns_inv ?s" and apart: "target f \<notin> target ` set fs" and alive: "heap s (target f) = Some None"
    using assms Cons unfolding conns_inv_def by auto
  show ?thesis
  proof (cases f)
    case (Delete c)
    then have "c \<notin> set (incoming s)" using assms Cons unfolding conns_inv_def by auto
    then have "conns_inv (destroy c ?s)"
      using rest apart Delete by (intro destroy_inv) auto
    then show ?thesis using Cons Delete alive by (simp add: next_task_def delete_connection_def)
  next
    case (Erase c)
    have c: "c \<in> set (incoming s)" "distinct (incoming s)" using assms Cons Erase unfolding conns_inv_def by auto
    have none: "Erase c \<notin> set fs" using apart Erase by force
    let ?t = "?s\<lparr>incoming := remove1 c (incoming s)\<rparr>"
    have in_rest: "x \<in> set (remove1 c (incoming s)) \<longleftrightarrow> x \<in> set (incoming s) \<and> x \<noteq> c" for x
      using c by simp
    have "heap s x \<in> {None, Some None, Some (Some (if x \<in> set (incoming s) then Erase x else Delete x))}" for x
      using assms unfolding conns_inv_def by blast
    then have "heap s x \<in> {None, Some None,
        Some (Some (if x \<in> set (remove1 c (incoming s)) then Erase x else Delete x))}" for x
      using alive Erase by (cases "x = c") (simp_all add: in_rest)
    then have "conns_inv ?t"
      using rest c(2) none unfolding conns_inv_def by (simp add: in_rest distinct_remove1) blast
    then have "conns_inv (destroy c ?t)"
      using apart Erase by (intro destroy_inv) (auto simp: in_rest)
    then show ?thesis using Cons Erase c by (simp add: next_task_def)
  qed
qed

lemma gone_inv:
  assumes "conns_inv s" "Delete c \<notin> set (later s)"
  shows "\<exists>t. client_gone c s = Inr t \<and> conns_inv t"
proof (cases "c \<in> owners s")
  case False
  then show ?thesis using assms by (simp add: client_gone_def)
next
  case True
  have c: "heap s c \<noteq> None" "c \<notin> set (incoming s)" "Erase c \<notin> set (later s)"
    using assms(1) True unfolding conns_inv_def by blast+
  have "c \<noteq> target f" if "f \<in> set (later s)" for f
    using that target_eq [of f] assms(2) c(3) by metis
  then have "conns_inv (destroy c s)" by (intro destroy_inv) (use assms(1) c in auto)
  moreover have "(destroy c s)\<lparr>owners := owners (destroy c s) - {c}\<rparr> = destroy c s"
    by (simp add: destroy_def)
  ultimately show ?thesis
    using True c by (simp add: client_gone_def delete_connection_def)
qed

lemma conn_step_inv:
  assumes "conn_step False s r" "conns_inv s"
  shows "\<exists>t. r = Inr t \<and> conns_inv t"
  using assms(1)
proof cases
  case (accept l)
  then show ?thesis using Serve_inv [of "s\<lparr>listeners := listeners s - {l}\<rparr>"] assms(2)
    by (simp add: accepted_def Listen_def)
qed (use assms(2) ConnectStream_inv Serve_inv fires_inv task_inv gone_inv in \<open>auto simp: Listen_def\<close>)

interpretation connections: transition_invariant "\<lambda>s. s = no_connections" "conn_ok False" conns_inv
proof
  fix s
  assume "s = no_connections"
  then show "conns_inv s" by (simp add: no_connections_def conns_inv_def)
next
  fix s t
  assume "conn_ok False s t" "conns_inv s"
  then show "conns_inv t" using conn_step_inv [of s "Inr t"] by (auto simp: conn_ok_def)
qed

section \<open>Properties\<close>

text \<open>
  C27. However connections are made and lost, on both sides, no connection object is deleted twice and
  none is erased from the list of incoming connections that is not in it, provided that no client
  is destroyed between the moment its connection is reported lost and the moment the task that
  deletes the connection runs.
\<close>

theorem connections_deleted_once:
  assumes "(conn_ok False)\<^sup>*\<^sup>* no_connections s" "conn_step False s r"
  shows "\<not> isl r"
  using conn_step_inv [OF assms(2) connections.reachable_inv [OF refl assms(1)]] by auto

text \<open>The loop runs its tasks, one after the other, until none is left or one fails.\<close>

definition task_runs :: "connections \<Rightarrow> connections \<Rightarrow> bool" where
  "task_runs s t \<longleftrightarrow> later s \<noteq> [] \<and> next_task s = Inr t"

lemma task_runs_step: "task_runs s t \<Longrightarrow> conn_ok early s t"
  using conn_step.task [of s early] by (simp add: task_runs_def conn_ok_def)

text \<open>Tasks behind the first one do not change what it does.\<close>

lemma next_task_append:
  assumes "later s \<noteq> []" "next_task s = Inr t"
  shows "next_task (s\<lparr>later := later s @ fs\<rparr>) = Inr (t\<lparr>later := later t @ fs\<rparr>)" "later t = tl (later s)"
    and "heap s c = None \<Longrightarrow> heap t c = None"
proof -
  obtain f gs where f: "later s = f # gs" using assms(1) by (cases "later s") auto
  show "next_task (s\<lparr>later := later s @ fs\<rparr>) = Inr (t\<lparr>later := later t @ fs\<rparr>)" "later t = tl (later s)"
    "heap s c = None \<Longrightarrow> heap t c = None"
    using assms(2) by (cases f; auto simp: f next_task_def delete_connection_def destroy_def split: if_splits)+
qed

lemma tasks_run:
  assumes "conns_inv s" "heap s c = None"
  shows "\<exists>u. task_runs\<^sup>*\<^sup>* (s\<lparr>later := later s @ fs\<rparr>) (u\<lparr>later := fs\<rparr>) \<and> heap u c = None"
  using assms
proof (induction "later s" arbitrary: s)
  case Nil
  then show ?case by (intro exI [of _ s]) simp
next
  case (Cons f gs)
  obtain t where t: "next_task s = Inr t" "conns_inv t" using task_inv [OF Cons.prems(1)] by blast
  have some: "later s \<noteq> []" using Cons.hyps(2) by auto
  note app = next_task_append [OF some t(1)]
  have "gs = later t" using app(2) Cons.hyps(2) [symmetric] by simp
  from Cons.hyps(1) [OF this t(2) app(3) [OF Cons.prems(2)]] obtain u where
    u: "task_runs\<^sup>*\<^sup>* (t\<lparr>later := later t @ fs\<rparr>) (u\<lparr>later := fs\<rparr>)" "heap u c = None" by blast
  have "task_runs (s\<lparr>later := later s @ fs\<rparr>) (t\<lparr>later := later t @ fs\<rparr>)"
    using app(1) some by (simp add: task_runs_def)
  then show ?case using u converse_rtranclp_into_rtranclp [where r = task_runs] by blast
qed

text \<open>
  C39. After any run in which no client was destroyed in that window: when the connection of a client is reported lost and the
  client is destroyed before the loop has run the task made for it, the client deletes the connection, and the loop, which
  only has to run the tasks it has, then deletes it again: the handler gives its function to the loop, and
  nothing cancels it when the connection goes.
\<close>

theorem connection_deleted_twice:
  assumes "(conn_ok False)\<^sup>*\<^sup>* no_connections s" "c \<in> owners s" "heap s c = Some (Some (Delete c))"
  shows "conn_ok True s (disconnect_fires c s) \<and>
    (\<exists>t u. client_gone c (disconnect_fires c s) = Inr t \<and> conn_ok True (disconnect_fires c s) t \<and> heap t c = None \<and>
       task_runs\<^sup>*\<^sup>* t u \<and> next_task u = Inl Double_delete \<and> conn_step True u (Inl Double_delete))"
proof -
  let ?u = "disconnect_fires c s" and ?t = "(destroy c s)\<lparr>later := later (destroy c s) @ [Delete c]\<rparr>"
  have inv: "conns_inv s" by (rule connections.reachable_inv [OF refl assms(1)])
  have gone: "client_gone c ?u = Inr ?t"
    using assms(2,3) by (simp add: disconnect_fires_def client_gone_def delete_connection_def destroy_def)
  have 2: "conn_ok True ?u ?t" unfolding conn_ok_def gone [symmetric] by (rule conn_step.gone) simp
  have 1: "conn_ok True s ?u" by (simp add: conn_ok_def conn_step.fires)
  have new: "c \<notin> target ` set (later s)" "c \<notin> set (incoming s)"
    using inv assms(2,3) unfolding conns_inv_def by force+
  have none: "heap (destroy c s) c = None" by (simp add: destroy_def)
  obtain v where v: "task_runs\<^sup>*\<^sup>* ?t (v\<lparr>later := [Delete c]\<rparr>)" "heap v c = None"
    using tasks_run [OF destroy_inv [OF inv new] none] by blast
  have fault: "next_task (v\<lparr>later := [Delete c]\<rparr>) = Inl Double_delete"
    using v(2) by (simp add: next_task_def delete_connection_def)
  have "conn_step True (v\<lparr>later := [Delete c]\<rparr>) (Inl Double_delete)"
    using conn_step.task [of "v\<lparr>later := [Delete c]\<rparr>" True] fault by simp
  then show ?thesis
    using 1 2 gone v(1) fault none by (intro conjI exI [of _ ?t] exI [of _ "v\<lparr>later := [Delete c]\<rparr>"]) simp_all
qed

lemma accepted_simps:
  "fresh (accepted l s) = Suc (fresh s)" "incoming (accepted l s) = fresh s # incoming s"
  "heap (accepted l s) = (heap s)(fresh s := Some (Some (Erase (fresh s))))"
  "listeners (accepted l s) = insert l (listeners s)"
  by (simp_all add: accepted_def Listen_def Serve_def onDisconnect_def Let_def)

text \<open>
  A listener goes on listening: after any number of connections it has served, it waits for the
  next one, and each has its own object in the list, the last one first, which is erased when the
  connection is lost.
\<close>

theorem listener_serves_all:
  assumes "l \<in> listeners s"
  shows "l \<in> listeners ((accepted l ^^ n) s) \<and>
    incoming ((accepted l ^^ n) s) = rev [fresh s..<fresh s + n] @ incoming s \<and>
    (\<forall>c \<in> {fresh s..<fresh s + n}. heap ((accepted l ^^ n) s) c = Some (Some (Erase c)))"
proof -
  have fresh: "fresh ((accepted l ^^ n) s) = fresh s + n" for n
    by (induction n) (simp_all add: accepted_simps)
  show ?thesis
    by (induction n) (auto simp: assms fresh accepted_simps less_Suc_eq)
qed

section \<open>Examples\<close>

definition sample_connections :: connections where
  "sample_connections = snd (ConnectStream no_connections)"

lemma sample_connections_eq:
  "sample_connections = no_connections\<lparr>heap := (\<lambda>_. None)(0 := Some (Some (Delete 0))), owners := {0}, fresh := 1\<rparr>"
  by (simp add: sample_connections_def ConnectStream_def onDisconnect_def no_connections_def Let_def)

lemma sample_reachable: "(conn_ok early)\<^sup>*\<^sup>* no_connections sample_connections"
  using conn_step.connect [of early no_connections] by (auto simp: conn_ok_def sample_connections_def)

theorem connections_deleted_once_witness: "\<not> isl (next_task (disconnect_fires 0 sample_connections))"
proof -
  have "conn_ok False sample_connections (disconnect_fires 0 sample_connections)"
    by (simp add: conn_ok_def conn_step.fires)
  then have "(conn_ok False)\<^sup>*\<^sup>* no_connections (disconnect_fires 0 sample_connections)"
    using sample_reachable by (meson rtranclp.rtrancl_into_rtrancl)
  then show ?thesis
    by (rule connections_deleted_once)
      (rule conn_step.task, simp add: sample_connections_eq disconnect_fires_def no_connections_def)
qed

theorem connection_deleted_twice_witness:
  "\<exists>t u. client_gone 0 (disconnect_fires 0 sample_connections) = Inr t \<and> task_runs\<^sup>*\<^sup>* t u \<and>
     next_task u = Inl Double_delete"
  using connection_deleted_twice [OF sample_reachable, where c = 0]
  by (auto simp: sample_connections_eq no_connections_def)

theorem listener_serves_all_witness:
  "incoming ((accepted 7 ^^ 3) (Listen 7 no_connections)) = [2, 1, 0]"
  using listener_serves_all [of 7 "Listen 7 no_connections" 3]
  by (simp add: Listen_def no_connections_def upt_rec)

end
