(* ===== verification/ThreadMaps.thy ===== *)
theory ThreadMaps
  imports Prelude Calls
begin

text \<open>
  Which thread runs which call: the thread contexts with their maps \<open>callback_threads\<close> and
  \<open>request_threads\<close> (\<open>ThreadContext\<close> of \<open>include/mp/proxy-io.h\<close>, \<open>SetThread\<close> of \<open>src/mp/proxy.cpp\<close>),
  the \<open>Context\<close> argument of a call (\<open>include/mp/type-context.h\<close>), thread maps
  (\<open>include/mp/type-threadmap.h\<close>) and worker threads (\<open>makeThread\<close>). Calls of any number of threads
  over any number of connections, callbacks included, interleave in any order.
\<close>

section \<open>State\<close>

text \<open>
  The two \<open>Connection\<close> objects of a connection are its sides. A \<open>Thread::Client\<close> is a thread server
  in the set \<open>m_threads\<close> of a \<open>Connection\<close> object, by the thread it stands for, or a capability made
  by a failed call.
\<close>

datatype conn = Side nat bool

fun peer :: "conn \<Rightarrow> conn" where
  "peer (Side c s) = Side c (\<not> s)"

datatype thread_cap = Thread_cap conn nat | Broken

text \<open>The rest of the \<open>ThreadContext\<close>: the maps have an entry for a \<open>Connection\<close> or not.\<close>

record thread = thread_context +
  callback_threads :: "conn \<Rightarrow> thread_cap option"
  request_threads :: "conn \<Rightarrow> thread_cap option"

text \<open>A call in progress: the thread that made it, over which connection, and the thread that runs it.\<close>

record frame =
  f_caller :: nat
  f_conn :: conn
  f_exec :: nat
  f_inserted :: bool

text \<open>
  \<open>open_conns\<close> are the \<open>Connection\<close> objects that exist, \<open>thread_maps\<close> those with an \<open>m_thread_map\<close>.
  \<open>apps\<close> are the running threads that were not made by \<open>makeThread\<close>; each has a chain of nested calls in
  progress, the innermost first. \<open>ended\<close> are the threads that ran and do no longer. \<open>ran\<close> records the calls
  that were run: caller, connection, thread.
\<close>

record threads_state =
  threads :: "nat \<Rightarrow> thread"
  next_thread :: nat
  apps :: "nat set"
  ended :: "nat set"
  open_conns :: "conn set"
  thread_maps :: "conn set"
  chains :: "nat \<Rightarrow> frame list"
  ran :: "(nat \<times> conn \<times> nat) list"

definition no_thread :: thread where
  "no_thread = \<lparr>thread_name = [], has_waiter = False, loop_thread = False,
     callback_threads = (\<lambda>_. None), request_threads = (\<lambda>_. None)\<rparr>"

definition start_threads :: threads_state where
  "start_threads = \<lparr>threads = (\<lambda>_. no_thread), next_thread = 0, apps = {}, ended = {}, open_conns = UNIV,
     thread_maps = {}, chains = (\<lambda>_. []), ran = []\<rparr>"

section \<open>Operations\<close>

text \<open>
  \<open>SetThread\<close> on one of the maps of a thread, which \<open>sel\<close> and \<open>upd\<close> select: the entry, and whether it
  was inserted. \<open>make_thread\<close> runs only for a new entry.
\<close>

definition SetThread ::
  "(thread \<Rightarrow> conn \<Rightarrow> thread_cap option) \<Rightarrow>
   (((conn \<Rightarrow> thread_cap option) \<Rightarrow> conn \<Rightarrow> thread_cap option) \<Rightarrow> thread \<Rightarrow> thread) \<Rightarrow> nat \<Rightarrow> conn \<Rightarrow>
   (threads_state \<Rightarrow> thread_cap \<times> threads_state) \<Rightarrow> threads_state \<Rightarrow> (thread_cap \<times> bool) \<times> threads_state" where
  "SetThread sel upd t e make_thread s =
     (case sel (threads s t) e of
        Some c \<Rightarrow> ((c, False), s)
      | None \<Rightarrow>
          (case make_thread s of
             (c, s) \<Rightarrow> ((c, True), s\<lparr>threads := (threads s)(t := upd (\<lambda>m. m(e := Some c)) (threads s t))\<rparr>)))"

text \<open>
  \<open>makeThread\<close> of the thread map given to the other side of the \<open>Connection\<close> object \<open>e\<close>. \<open>name\<close> is what
  \<open>ThreadName\<close> gives for the new thread.
\<close>

definition makeThread ::
  "(nat \<Rightarrow> string) \<Rightarrow> string \<Rightarrow> conn \<Rightarrow> threads_state \<Rightarrow> thread_cap \<times> threads_state" where
  "makeThread name from e s =
     (let t = next_thread s
      in (Thread_cap e t,
          s\<lparr>next_thread := Suc t, threads := (threads s)(t :=
              no_thread\<lparr>thread_name := name t @ '' (from '' @ from @ '')'', has_waiter := True\<rparr>)\<rparr>))"

text \<open>The handler that reads a thread map given by the other side: \<open>m_thread_map\<close> is set.\<close>

definition read_thread_map :: "conn \<Rightarrow> threads_state \<Rightarrow> threads_state" where
  "read_thread_map e s = s\<lparr>thread_maps := insert e (thread_maps s)\<rparr>"

text \<open>
  The handler that builds the \<open>Context\<close> of a call of thread \<open>t\<close>: \<open>thread\<close> and \<open>callbackThread\<close>. A call on
  a null thread map gives a broken capability.
\<close>

definition make_request_thread ::
  "(nat \<Rightarrow> string) \<Rightarrow> nat \<Rightarrow> conn \<Rightarrow> threads_state \<Rightarrow> thread_cap \<times> threads_state" where
  "make_request_thread name t e s =
     (if e \<in> thread_maps s then makeThread name (thread_name (threads s t)) (peer e) s else (Broken, s))"

definition build_context ::
  "(nat \<Rightarrow> string) \<Rightarrow> nat \<Rightarrow> conn \<Rightarrow> threads_state \<Rightarrow> (thread_cap \<times> thread_cap) \<times> threads_state" where
  "build_context name t e s =
     (case SetThread callback_threads callback_threads_update t e (\<lambda>s. (Thread_cap e t, s)) s of
        ((callback, _), s) \<Rightarrow>
          (case SetThread request_threads request_threads_update t e (make_request_thread name t e) s of
             ((request, _), s) \<Rightarrow> ((request, callback), s)))"

text \<open>
  The receiving side: the lookup in \<open>m_threads\<close> of the \<open>Connection\<close> object \<open>e\<close>, and the entry that the
  worker makes for the callback thread and erases after the method.
\<close>

definition find_thread :: "conn \<Rightarrow> thread_cap \<Rightarrow> string + nat" where
  "find_thread e c =
     (case c of
        Thread_cap e' t \<Rightarrow> if e' = e then Inr t else Inl ''invalid thread handle''
      | Broken \<Rightarrow> Inl ''Called null capability'')"

definition enter_request :: "nat \<Rightarrow> conn \<Rightarrow> thread_cap \<Rightarrow> threads_state \<Rightarrow> bool \<times> threads_state" where
  "enter_request t e callback s =
     (case SetThread request_threads request_threads_update t e (\<lambda>s. (callback, s)) s of
        ((_, inserted), s) \<Rightarrow> (inserted, s))"

definition leave_request :: "nat \<Rightarrow> conn \<Rightarrow> bool \<Rightarrow> threads_state \<Rightarrow> threads_state" where
  "leave_request t e erase_thread s =
     (if erase_thread
      then s\<lparr>threads := (threads s)(t := request_threads_update (\<lambda>m. m(e := None)) (threads s t))\<rparr> else s)"

text \<open>
  A call from its start in \<open>clientInvoke\<close> to the start of the method: the thread that runs it, and
  whether it inserted an entry. \<open>None\<close> is a failed assertion.
\<close>

definition begin_call ::
  "(nat \<Rightarrow> string) \<Rightarrow> nat \<Rightarrow> conn \<Rightarrow> threads_state \<Rightarrow> ((string + nat \<times> bool) \<times> threads_state) option" where
  "begin_call name t e s =
     (case client_thread (name t) (threads s t) of
        None \<Rightarrow> None
      | Some th \<Rightarrow>
          (case build_context name t e (s\<lparr>threads := (threads s)(t := th)\<rparr>) of
             ((request, callback), s) \<Rightarrow>
               Some (case find_thread (peer e) request of
                       Inl error \<Rightarrow> (Inl error, s)
                     | Inr w \<Rightarrow>
                         (case enter_request w (peer e) callback s of (inserted, s) \<Rightarrow> (Inr (w, inserted), s)))))"

text \<open>\<open>getName\<close> of a thread, and what a \<open>Connection\<close> that goes away does to the maps.\<close>

definition getName :: "nat \<Rightarrow> threads_state \<Rightarrow> string" where
  "getName t s = thread_name (threads s t)"

definition connection_gone :: "conn \<Rightarrow> threads_state \<Rightarrow> threads_state" where
  "connection_gone e s =
     s\<lparr>open_conns := open_conns s - {e},
       threads := (\<lambda>t. callback_threads_update (\<lambda>m. m(e := None))
                         (request_threads_update (\<lambda>m. m(e := None)) (threads s t)))\<rparr>"

text \<open>
  The destructor of a thread server: threads it did not make are left alone. \<open>busy\<close> is \<open>m_fn\<close> of the
  waiter; a missing waiter and a busy one fail an assertion.
\<close>

definition ProxyServer_dtor :: "bool \<Rightarrow> bool \<Rightarrow> thread \<Rightarrow> thread option" where
  "ProxyServer_dtor joinable busy th =
     (if \<not> joinable then Some th
      else if \<not> has_waiter th then None
      else if busy then None
      else Some (th\<lparr>has_waiter := False, request_threads := (\<lambda>_. None), callback_threads := (\<lambda>_. None)\<rparr>))"

text \<open>The end of a thread destroys its \<open>ThreadContext\<close>. A worker ends in the destructor of its server.\<close>

definition thread_exit :: "nat \<Rightarrow> threads_state \<Rightarrow> threads_state" where
  "thread_exit t s =
     s\<lparr>apps := apps s - {t}, ended := insert t (ended s), threads := (threads s)(t := no_thread)\<rparr>"

definition worker_exit :: "nat \<Rightarrow> threads_state \<Rightarrow> threads_state option" where
  "worker_exit w s = map_option (\<lambda>_. thread_exit w s) (ProxyServer_dtor True False (threads s w))"

text \<open>
  \<open>EventLoop::loop\<close>: the thread that runs it is the event loop thread until it returns. \<open>None\<close> is a failed
  assertion.
\<close>

definition loop_entered :: "nat \<Rightarrow> threads_state \<Rightarrow> threads_state option" where
  "loop_entered t s =
     (if loop_thread (threads s t) then None
      else Some (s\<lparr>threads := (threads s)(t := (threads s t)\<lparr>loop_thread := True\<rparr>)\<rparr>))"

definition loop_left :: "nat \<Rightarrow> threads_state \<Rightarrow> threads_state" where
  "loop_left t s = s\<lparr>threads := (threads s)(t := (threads s t)\<lparr>loop_thread := False\<rparr>)\<rparr>"

section \<open>Steps\<close>

definition running :: "threads_state \<Rightarrow> nat \<Rightarrow> bool" where
  "running s z \<longleftrightarrow> (\<exists>t. z \<in> f_exec ` set (chains s t))"

text \<open>Something refers to the worker \<open>w\<close>: a thread has it as its partner.\<close>

definition worker_used :: "threads_state \<Rightarrow> nat \<Rightarrow> bool" where
  "worker_used s w \<longleftrightarrow> (\<exists>x e d. request_threads (threads s x) e = Some (Thread_cap d w))"

definition top_thread :: "nat \<Rightarrow> frame list \<Rightarrow> nat" where
  "top_thread t fs = (case fs of [] \<Rightarrow> t | f # _ \<Rightarrow> f_exec f)"

text \<open>
  The innermost thread of a chain makes a call, or returns from the one it runs. A thread of the program can
  run an event loop, and ends, outside all calls; a worker ends when nothing refers to it and it runs no
  request. A thread makes no call while it runs the event loop: the assertion in \<open>clientInvoke\<close> stops it, or, if
  it has a waiter from before, it blocks the loop that would have to answer it.
\<close>

inductive threads_step :: "(nat \<Rightarrow> string) \<Rightarrow> threads_state \<Rightarrow> threads_state \<Rightarrow> bool" for name where
  new_app: "threads_step name s
    (s\<lparr>next_thread := Suc (next_thread s), apps := insert (next_thread s) (apps s)\<rparr>)"
| get_map: "threads_step name s (read_thread_map e s)"
| call: "t \<in> apps s \<Longrightarrow> {e, peer e} \<subseteq> open_conns s \<Longrightarrow> x = top_thread t (chains s t) \<Longrightarrow>
    \<not> loop_thread (threads s x) \<Longrightarrow> begin_call name x e s = Some (Inr (w, inserted), s') \<Longrightarrow>
    threads_step name s (s'\<lparr>chains := (chains s')(t :=
        \<lparr>f_caller = x, f_conn = e, f_exec = w, f_inserted = inserted\<rparr> # chains s' t),
      ran := (x, e, w) # ran s'\<rparr>)"
| call_fails: "t \<in> apps s \<Longrightarrow> {e, peer e} \<subseteq> open_conns s \<Longrightarrow> x = top_thread t (chains s t) \<Longrightarrow>
    \<not> loop_thread (threads s x) \<Longrightarrow> begin_call name x e s = Some (Inl error, s') \<Longrightarrow> threads_step name s s'"
| loop_starts: "t \<in> apps s \<Longrightarrow> chains s t = [] \<Longrightarrow> loop_entered t s = Some s' \<Longrightarrow> threads_step name s s'"
| loop_ends: "t \<in> apps s \<Longrightarrow> loop_thread (threads s t) \<Longrightarrow> threads_step name s (loop_left t s)"
| return: "chains s t = f # fs \<Longrightarrow>
    threads_step name s ((leave_request (f_exec f) (peer (f_conn f)) (f_inserted f) s)\<lparr>
      chains := (chains s)(t := fs)\<rparr>)"
| thread_ends: "t \<in> apps s \<Longrightarrow> chains s t = [] \<Longrightarrow> \<not> loop_thread (threads s t) \<Longrightarrow>
    threads_step name s (thread_exit t s)"
| worker_ends: "w < next_thread s \<Longrightarrow> w \<notin> apps s \<union> ended s \<Longrightarrow> \<not> running s w \<Longrightarrow> \<not> worker_used s w \<Longrightarrow>
    worker_exit w s = Some s' \<Longrightarrow> threads_step name s s'"
| disconnect: "threads_step name s (connection_gone e s)"

inductive_cases threads_stepE: "threads_step name s s'"

end
