(* ===== verification/ThreadInv.thy ===== *)
theory ThreadInv
  imports ThreadMaps
begin

text \<open>
  The invariant of the thread maps, and that every operation keeps it: which threads are partners, what is
  in their maps, which chains of calls they are in, and which have ended.
\<close>

section \<open>Chains\<close>

lemma peer_peer [simp]: "peer (peer e) = e"
  by (cases e) simp

lemma peer_neq [simp]: "peer e \<noteq> e" "e \<noteq> peer e"
  by (cases e; simp)+

lemma peer_eq [simp]: "peer d = peer e \<longleftrightarrow> d = e"
  by (metis peer_peer)

abbreviation execs :: "frame list \<Rightarrow> nat set" where
  "execs fs \<equiv> f_exec ` set fs"

text \<open>
  \<open>H\<close> remembers for each worker thread the thread that it was made for and the \<open>Connection\<close> object of
  that thread. Two threads are paired if one of them was made for the other.
\<close>

type_synonym homes = "nat \<Rightarrow> (conn \<times> nat) option"

definition paired :: "homes \<Rightarrow> nat \<Rightarrow> conn \<Rightarrow> nat \<Rightarrow> bool" where
  "paired H x e y \<longleftrightarrow> H y = Some (e, x) \<or> H x = Some (peer e, y)"

text \<open>Each frame is made by the thread below it; it enters its thread for the first time or not.\<close>

fun chain_ok :: "homes \<Rightarrow> nat \<Rightarrow> frame list \<Rightarrow> bool" where
  "chain_ok H t [] = True"
| "chain_ok H t (f # fs) =
     (chain_ok H t fs \<and> f_caller f = top_thread t fs \<and>
      (if f_inserted f then H (f_exec f) = Some (f_conn f, f_caller f) \<and> f_exec f \<notin> execs fs
       else f_exec f \<in> insert t (execs fs)))"

lemma top_thread_in: "top_thread t fs \<in> insert t (execs fs)"
  by (cases fs) (simp_all add: top_thread_def)

lemma maker_in_chain:
  assumes "chain_ok H t fs" and "H t = None" and "z \<in> execs fs" and "H z = Some (e, x)"
  shows "x \<in> insert t (execs fs)"
  using assms
proof (induction fs)
  case (Cons f fs)
  show ?case
  proof (cases "z \<in> execs fs")
    case True
    then show ?thesis using Cons by auto
  next
    case False
    then have "z = f_exec f" using Cons.prems(3) by auto
    then have "x = top_thread t fs"
      using Cons.prems False by (auto split: if_splits)
    then show ?thesis using top_thread_in [of t fs] by auto
  qed
qed simp

lemma app_in_chain: "chain_ok H t fs \<Longrightarrow> z \<in> execs fs \<Longrightarrow> H z = None \<Longrightarrow> z = t"
  by (induction fs) (auto split: if_splits)

section \<open>The invariant\<close>

text \<open>Homes: a worker is made once for a thread and a connection, and not for a thread it serves.\<close>

definition homes_ok :: "homes \<Rightarrow> threads_state \<Rightarrow> bool" where
  "homes_ok H s \<longleftrightarrow>
     (\<forall>y e x. H y = Some (e, x) \<longrightarrow> x < y \<and> y < next_thread s \<and> y \<notin> apps s) \<and>
     (\<forall>y z p. H y = Some p \<and> H z = Some p \<longrightarrow> y = z) \<and>
     (\<forall>x y e t. H x = Some (peer e, t) \<longrightarrow> H y \<noteq> Some (e, x))"

text \<open>
  What is in the maps is right; while the connection is open and the maker lives, workers and their makers
  have their entries. A worker has its entry only while it runs a request.
\<close>

definition maps_ok :: "homes \<Rightarrow> threads_state \<Rightarrow> bool" where
  "maps_ok H s \<longleftrightarrow>
     (\<forall>x e c. callback_threads (threads s x) e = Some c \<longrightarrow> c = Thread_cap e x) \<and>
     (\<forall>x e d y. request_threads (threads s x) e = Some (Thread_cap d y) \<longrightarrow> d = peer e \<and> paired H x e y) \<and>
     (\<forall>x y e. {e, peer e} \<subseteq> open_conns s \<and> H y = Some (e, x) \<and> x \<notin> ended s \<longrightarrow>
        request_threads (threads s x) e = Some (Thread_cap (peer e) y) \<and>
        request_threads (threads s y) (peer e) = (if running s y then Some (Thread_cap e x) else None)) \<and>
     (\<forall>x y e c. H y = Some (e, x) \<and> request_threads (threads s y) (peer e) = Some c \<longrightarrow> running s y)"

definition chains_ok :: "homes \<Rightarrow> threads_state \<Rightarrow> bool" where
  "chains_ok H s \<longleftrightarrow>
     (\<forall>t. chain_ok H t (chains s t)) \<and> (\<forall>t. t \<notin> apps s \<longrightarrow> chains s t = []) \<and>
     (\<forall>t u z. z \<in> execs (chains s t) \<and> z \<in> execs (chains s u) \<longrightarrow> t = u)"

definition threads_ok :: "threads_state \<Rightarrow> bool" where
  "threads_ok s \<longleftrightarrow>
     (\<forall>t. t \<in> apps s \<longrightarrow> t < next_thread s) \<and> (\<forall>t. next_thread s \<le> t \<longrightarrow> threads s t = no_thread) \<and>
     (\<forall>t. \<not> has_waiter (threads s t) \<longrightarrow> thread_name (threads s t) = [])"

text \<open>Threads that ended run nothing, have nothing, and no maker refers to them.\<close>

definition ended_ok :: "homes \<Rightarrow> threads_state \<Rightarrow> bool" where
  "ended_ok H s \<longleftrightarrow>
     (\<forall>z \<in> ended s. z < next_thread s \<and> z \<notin> apps s \<and> \<not> running s z \<and> threads s z = no_thread) \<and>
     (\<forall>x y e d. H y = Some (e, x) \<and> request_threads (threads s x) e = Some (Thread_cap d y) \<longrightarrow> y \<notin> ended s) \<and>
     (\<forall>y. H y \<noteq> None \<and> y \<notin> ended s \<longrightarrow> has_waiter (threads s y)) \<and>
     (\<forall>y. y < next_thread s \<longrightarrow> y \<in> apps s \<union> ended s \<or> H y \<noteq> None)"

definition pairs_inv :: "homes \<Rightarrow> threads_state \<Rightarrow> bool" where
  "pairs_inv H s \<longleftrightarrow> homes_ok H s \<and> maps_ok H s \<and> chains_ok H s \<and> threads_ok s \<and> ended_ok H s \<and>
     (\<forall>(x, e, y) \<in> set (ran s). paired H x e y)"

lemma pairs_invD:
  assumes "pairs_inv H s"
  shows "homes_ok H s" "maps_ok H s" "chains_ok H s" "threads_ok s" "ended_ok H s"
    "\<And>x e y. (x, e, y) \<in> set (ran s) \<Longrightarrow> paired H x e y"
  using assms by (auto simp: pairs_inv_def)

lemma homesD:
  assumes "homes_ok H s"
  shows "H y = Some (e, x) \<Longrightarrow> x < next_thread s \<and> y < next_thread s \<and> y \<notin> apps s"
    and "H y = Some p \<Longrightarrow> H z = Some p \<Longrightarrow> y = z"
    and "H x = Some (peer e, t) \<Longrightarrow> H y \<noteq> Some (e, x)"
    and "H y = Some (e, x) \<Longrightarrow> x < y"
proof -
  show below: "x < y" if "H y = Some (e, x)" for x y e
    using assms that unfolding homes_ok_def by blast
  show "x < next_thread s \<and> y < next_thread s \<and> y \<notin> apps s" if "H y = Some (e, x)"
    using assms that below [OF that] less_trans unfolding homes_ok_def by blast
qed (use assms in \<open>unfold homes_ok_def, blast+\<close>)

lemma ok_threads [simp]:
  "homes_ok H (s\<lparr>threads := ths\<rparr>) = homes_ok H s" "chains_ok H (s\<lparr>threads := ths\<rparr>) = chains_ok H s"
  "running (s\<lparr>threads := ths\<rparr>) = running s"
  by (simp_all add: homes_ok_def chains_ok_def running_def fun_eq_iff)

lemma ok_thread_maps [simp]:
  "homes_ok H (s\<lparr>thread_maps := ms\<rparr>) = homes_ok H s" "chains_ok H (s\<lparr>thread_maps := ms\<rparr>) = chains_ok H s"
  "maps_ok H (s\<lparr>thread_maps := ms\<rparr>) = maps_ok H s" "threads_ok (s\<lparr>thread_maps := ms\<rparr>) = threads_ok s"
  "ended_ok H (s\<lparr>thread_maps := ms\<rparr>) = ended_ok H s"
  by (simp_all add: homes_ok_def chains_ok_def running_def maps_ok_def threads_ok_def ended_ok_def)

lemma callback_sound: "maps_ok H s \<Longrightarrow> callback_threads (threads s x) e = Some c \<Longrightarrow> c = Thread_cap e x"
  by (simp add: maps_ok_def)

lemma request_sound:
  assumes "maps_ok H s" "request_threads (threads s x) e = Some (Thread_cap d y)"
  shows "d = peer e \<and> paired H x e y"
  using assms unfolding maps_ok_def by blast

lemma request_running:
  "maps_ok H s \<Longrightarrow> H y = Some (e, x) \<Longrightarrow> request_threads (threads s y) (peer e) = Some c \<Longrightarrow> running s y"
  unfolding maps_ok_def by blast

lemma endedD:
  assumes "ended_ok H s"
  shows "z \<in> ended s \<Longrightarrow> z < next_thread s \<and> z \<notin> apps s \<and> \<not> running s z \<and> threads s z = no_thread"
    and "H y = Some (e, x) \<Longrightarrow> request_threads (threads s x) e = Some (Thread_cap d y) \<Longrightarrow> y \<notin> ended s"
    and "H y \<noteq> None \<Longrightarrow> y \<notin> ended s \<Longrightarrow> has_waiter (threads s y)"
    and "y < next_thread s \<Longrightarrow> y \<in> apps s \<union> ended s \<or> H y \<noteq> None"
  using assms unfolding ended_ok_def by blast+

lemma home_entries:
  assumes "maps_ok H s" "{e, peer e} \<subseteq> open_conns s" "H y = Some (e, x)" "x \<notin> ended s"
  shows "request_threads (threads s x) e = Some (Thread_cap (peer e) y)"
    and "request_threads (threads s y) (peer e) = (if running s y then Some (Thread_cap e x) else None)"
  using assms unfolding maps_ok_def by blast+

lemma app_no_home: "homes_ok H s \<Longrightarrow> t \<in> apps s \<Longrightarrow> H t = None"
  using homesD(1) [of H s t] by (cases "H t") auto

text \<open>A thread is in one chain only; the innermost thread of a chain runs in it.\<close>

lemma one_chain:
  assumes "pairs_inv H s" "t \<in> apps s" "u \<in> apps s"
    and "z \<in> insert t (execs (chains s t))" "z \<in> insert u (execs (chains s u))"
  shows "t = u"
proof -
  have none: "H t = None" "H u = None"
    using assms(1-3) app_no_home by (auto simp: pairs_inv_def)
  have ok: "chain_ok H t (chains s t)" "chain_ok H u (chains s u)"
    using pairs_invD(3) [OF assms(1)] by (auto simp: chains_ok_def)
  consider "z = t" | "z = u" | "z \<in> execs (chains s t)" "z \<in> execs (chains s u)"
    using assms(4,5) by blast
  then show ?thesis
  proof cases
    case 1
    then show ?thesis using app_in_chain [OF ok(2), of z] none assms(5) by auto
  next
    case 2
    then show ?thesis using app_in_chain [OF ok(1), of z] none assms(4) by auto
  next
    case 3
    then show ?thesis using pairs_invD(3) [OF assms(1)] unfolding chains_ok_def by blast
  qed
qed

lemma active_app: "pairs_inv H s \<Longrightarrow> z \<in> execs (chains s t) \<Longrightarrow> t \<in> apps s"
  using pairs_invD(3) [of H s] by (auto simp: chains_ok_def)

text \<open>The threads of a chain live.\<close>

lemma chain_lives:
  assumes "pairs_inv H s" "t \<in> apps s" "z \<in> insert t (execs (chains s t))"
  shows "z \<notin> ended s"
  using assms endedD(1) [OF pairs_invD(5) [OF assms(1)], of z] by (auto simp: running_def)

text \<open>The maker of a worker that runs is in its chain.\<close>

lemma maker_lives:
  assumes "pairs_inv H s" "running s y" "H y = Some (e, x)"
  obtains t where "t \<in> apps s" "y \<in> execs (chains s t)" "x \<in> insert t (execs (chains s t))" "x \<notin> ended s"
proof -
  obtain t where t: "y \<in> execs (chains s t)" using assms(2) by (auto simp: running_def)
  have app: "t \<in> apps s" using active_app [OF assms(1) t] .
  have "H t = None" using app app_no_home [OF pairs_invD(1) [OF assms(1)]] by simp
  moreover have "chain_ok H t (chains s t)" using pairs_invD(3) [OF assms(1)] by (simp add: chains_ok_def)
  ultimately have "x \<in> insert t (execs (chains s t))" using maker_in_chain t assms(3) by blast
  then show ?thesis using that app t chain_lives [OF assms(1) app] by blast
qed

section \<open>Who a thread calls\<close>

text \<open>
  The thread \<open>x\<close> at the end of chain \<open>t\<close> calls \<open>y\<close>. If \<open>y\<close> runs in a chain, it is this one; its entry, if
  it has one, is the thread that calls.
\<close>

lemma partner_chain:
  assumes "pairs_inv H s" "t \<in> apps s" "x = top_thread t (chains s t)" "{e, peer e} \<subseteq> open_conns s"
    and "paired H x e y"
  shows "request_threads (threads s y) (peer e) =
      (if y \<in> insert t (execs (chains s t)) then Some (Thread_cap e x) else None)"
    and "y \<notin> insert t (execs (chains s t)) \<Longrightarrow> H y = Some (e, x) \<and> \<not> running s y"
proof -
  note maps = pairs_invD(2) [OF assms(1)]
  have ht: "H t = None" using assms(1,2) app_no_home by (auto simp: pairs_inv_def)
  have x: "x \<in> insert t (execs (chains s t))"
    using assms(3) top_thread_in by simp
  have chain: "chain_ok H u (chains s u)" for u
    using pairs_invD(3) [OF assms(1)] by (simp add: chains_ok_def)
  show "request_threads (threads s y) (peer e) =
      (if y \<in> insert t (execs (chains s t)) then Some (Thread_cap e x) else None)"
    "y \<notin> insert t (execs (chains s t)) \<Longrightarrow> H y = Some (e, x) \<and> \<not> running s y"
  proof (atomize (full), cases "H y = Some (e, x)")
    case True
    have "t = u" if u: "y \<in> execs (chains s u)" for u
    proof -
      have app: "u \<in> apps s" using active_app [OF assms(1) u] .
      have hu: "H u = None" using assms(1) app app_no_home by (auto simp: pairs_inv_def)
      show ?thesis
        using one_chain [OF assms(1,2) app x] maker_in_chain [OF chain hu u True] by simp
    qed
    then have "running s y \<longleftrightarrow> y \<in> execs (chains s t)"
      by (auto simp: running_def)
    moreover have "y \<noteq> t" using True ht by auto
    moreover have "request_threads (threads s y) (peer e) = (if running s y then Some (Thread_cap e x) else None)"
      by (rule home_entries(2) [OF maps assms(4) True chain_lives [OF assms(1,2) x]])
    ultimately show "request_threads (threads s y) (peer e) =
        (if y \<in> insert t (execs (chains s t)) then Some (Thread_cap e x) else None) \<and>
      (y \<notin> insert t (execs (chains s t)) \<longrightarrow> H y = Some (e, x) \<and> \<not> running s y)"
      using True by auto
  next
    case False
    then have home: "H x = Some (peer e, y)" using assms(5) by (simp add: paired_def)
    then have "x \<in> execs (chains s t)" using x ht by auto
    then have "y \<in> insert t (execs (chains s t))"
      using maker_in_chain [OF chain ht _ home] by simp
    moreover have "request_threads (threads s y) (peer e) = Some (Thread_cap (peer (peer e)) x)"
      by (rule home_entries(1) [OF maps _ home chain_lives [OF assms(1,2) calculation]]) (use assms(4) in simp)
    ultimately show "request_threads (threads s y) (peer e) =
        (if y \<in> insert t (execs (chains s t)) then Some (Thread_cap e x) else None) \<and>
      (y \<notin> insert t (execs (chains s t)) \<longrightarrow> H y = Some (e, x) \<and> \<not> running s y)"
      by simp
  qed
qed

section \<open>Keeping the invariant\<close>

text \<open>A step has to say what it does to the entries; the rest of the invariant follows.\<close>

lemma maps_okI:
  assumes "maps_ok H s" and "\<And>z d a. paired H z d a \<Longrightarrow> paired G z d a"
    and "\<And>z d c. callback_threads (threads t z) d = Some c \<Longrightarrow>
      callback_threads (threads s z) d = Some c \<or> c = Thread_cap d z"
    and "\<And>z d b a. request_threads (threads t z) d = Some (Thread_cap b a) \<Longrightarrow>
      request_threads (threads s z) d = Some (Thread_cap b a) \<or> b = peer d \<and> paired G z d a"
    and home: "\<And>z d a. {d, peer d} \<subseteq> open_conns t \<Longrightarrow> G a = Some (d, z) \<Longrightarrow> z \<notin> ended t \<Longrightarrow>
      request_threads (threads t z) d = Some (Thread_cap (peer d) a) \<and>
      request_threads (threads t a) (peer d) = (if running t a then Some (Thread_cap d z) else None)"
    and run: "\<And>z d a c. G a = Some (d, z) \<Longrightarrow> request_threads (threads t a) (peer d) = Some c \<Longrightarrow> running t a"
  shows "maps_ok G t"
proof -
  have 1: "c = Thread_cap d z" if "callback_threads (threads t z) d = Some c" for z d c
    using assms(3) [OF that] callback_sound [OF assms(1)] by blast
  have 2: "b = peer d \<and> paired G z d a" if "request_threads (threads t z) d = Some (Thread_cap b a)" for z d b a
    using assms(4) [OF that] request_sound [OF assms(1)] assms(2) by blast
  show ?thesis
    unfolding maps_ok_def
  proof (intro conjI allI impI)
    fix z a d assume a: "{d, peer d} \<subseteq> open_conns t \<and> G a = Some (d, z) \<and> z \<notin> ended t"
    from home [OF a [THEN conjunct1] a [THEN conjunct2, THEN conjunct1] a [THEN conjunct2, THEN conjunct2]]
    show "request_threads (threads t z) d = Some (Thread_cap (peer d) a)"
      "request_threads (threads t a) (peer d) = (if running t a then Some (Thread_cap d z) else None)" by blast+
  next
    fix z a d c assume a: "G a = Some (d, z) \<and> request_threads (threads t a) (peer d) = Some c"
    show "running t a" by (rule run [OF a [THEN conjunct1] a [THEN conjunct2]])
  qed (use 1 2 in blast)+
qed

lemma ended_okI:
  assumes "ended_ok H s" and "ended t = ended s" "apps t = apps s" "next_thread t = next_thread s"
    and ths: "\<And>z. z \<in> ended s \<Longrightarrow> threads s z = no_thread \<Longrightarrow> threads t z = no_thread"
    and run: "\<And>z. running t z \<Longrightarrow> running s z \<or> z \<notin> ended s"
    and req: "\<And>z d b a. H a = Some (d, z) \<Longrightarrow> request_threads (threads t z) d = Some (Thread_cap b a) \<Longrightarrow>
      request_threads (threads s z) d = Some (Thread_cap b a) \<or> a \<notin> ended s"
    and waits: "\<And>z. has_waiter (threads s z) \<Longrightarrow> has_waiter (threads t z)"
  shows "ended_ok H t"
proof -
  note gone = endedD [OF assms(1)]
  have "z < next_thread t \<and> z \<notin> apps t \<and> \<not> running t z \<and> threads t z = no_thread" if "z \<in> ended t" for z
    using gone(1) [of z] that ths [of z] run [of z] unfolding assms(2-4) by blast
  moreover have "a \<notin> ended t" if "H a = Some (d, z)" "request_threads (threads t z) d = Some (Thread_cap b a)" for z d b a
    using req [OF that] gone(2) [OF that(1)] unfolding assms(2) by blast
  moreover have "has_waiter (threads t z)" if "H z \<noteq> None" "z \<notin> ended t" for z
    using gone(3) [of z] that waits unfolding assms(2) by blast
  ultimately show ?thesis using gone(4) unfolding ended_ok_def assms(2-4) by blast
qed

lemma new_home_ok:
  assumes homes: "homes_ok H s" and y: "y = next_thread s" "x < y" "y \<notin> apps s"
    and unmade: "\<And>z. H z \<noteq> Some (e, x)" and unserved: "\<And>z. H x \<noteq> Some (peer e, z)"
    and t: "next_thread t = Suc y" "apps t = apps s"
  shows "homes_ok (H(y := Some (e, x))) t"
proof -
  let ?H = "H(y := Some (e, x))"
  have new: "?H a = Some (d, b) \<longleftrightarrow> (if a = y then d = e \<and> b = x else H a = Some (d, b))" for a d b by auto
  have noHy: "H z \<noteq> Some (d, y)" for z d using homesD(1) [OF homes, of z d y] y(1) by auto
  have 1: "b < a \<and> a < next_thread t \<and> a \<notin> apps t" if "?H a = Some (d, b)" for a d b
    using that homesD(1,4) [OF homes, of a d b] y t by (auto simp: new split: if_splits)
  have 2: "a = b" if "?H a = Some p" "?H b = Some p" for a b p
    using that homesD(2) [OF homes] unmade by (cases p) (auto simp: new split: if_splits)
  have 3: "?H b \<noteq> Some (d, a)" if a: "?H a = Some (peer d, u)" for a b d u
  proof
    assume "?H b = Some (d, a)"
    then consider "b = y" "d = e" "a = x" | "b \<noteq> y" "H b = Some (d, a)" by (auto split: if_splits)
    then show False
    proof cases
      case 1
      then show ?thesis using a unserved [of u] y(2) by (simp add: fun_upd_def)
    next
      case 2
      then have "a \<noteq> y" using noHy by auto
      then show ?thesis using a 2 homesD(3) [OF homes, of a d u b] by simp
    qed
  qed
  show ?thesis unfolding homes_ok_def using 1 2 3 by blast
qed

lemma chain_new_home: "chain_ok H u fs \<Longrightarrow> y \<notin> execs fs \<Longrightarrow> chain_ok (H(y := p)) u fs"
  by (induction fs) (auto split: if_splits)

text \<open>A frame is pushed on a chain, or popped.\<close>

lemma running_push: "chains t = (chains s)(u := f # chains s u) \<Longrightarrow> running t z \<longleftrightarrow> running s z \<or> z = f_exec f"
  by (auto simp: running_def)

lemma running_pop:
  assumes "chains_ok H s" "H u = None" "chains s u = f # fs" "chains t = (chains s)(u := fs)" "H z \<noteq> None"
  shows "running t z \<longleftrightarrow> running s z \<and> \<not> (f_inserted f \<and> z = f_exec f)"
proof -
  have ok: "chain_ok H u (f # fs)" using assms(1,3) unfolding chains_ok_def by metis
  have all: "execs (chains s u) = insert (f_exec f) (execs fs)" using assms(3) by simp
  have one: "z \<in> execs (chains s v) \<Longrightarrow> z \<in> execs (chains s w) \<Longrightarrow> v = w" for v w
    using assms(1) unfolding chains_ok_def by blast
  have new: "execs (chains t v) = (if v = u then execs fs else execs (chains s v))" for v
    by (simp add: assms(4))
  have stays: "z \<in> execs fs" if "z = f_exec f" "\<not> f_inserted f" using ok that assms(2,5) by auto
  have gone: "z \<notin> execs (chains t v)" if "z = f_exec f" "f_inserted f" for v
    using ok that one [of v u] all unfolding new by auto
  show ?thesis
  proof
    assume "running t z"
    then obtain v where v: "z \<in> execs (chains t v)" unfolding running_def by blast
    then have "z \<in> execs (chains s v)" using all unfolding new by (simp split: if_splits)
    then show "running s z \<and> \<not> (f_inserted f \<and> z = f_exec f)" using v gone unfolding running_def by blast
  next
    assume z: "running s z \<and> \<not> (f_inserted f \<and> z = f_exec f)"
    then obtain v where v: "z \<in> execs (chains s v)" unfolding running_def by blast
    have "z \<in> execs fs" if "v = u"
    proof -
      have "z = f_exec f \<or> z \<in> execs fs" using v all that by blast
      then show ?thesis using stays z by blast
    qed
    then have "z \<in> execs (chains t v)" using v unfolding new by simp
    then show "running t z" unfolding running_def by blast
  qed
qed

lemma chain_push_ok:
  assumes chains: "chains_ok H s" and u: "u \<in> apps s" and caller: "f_caller f = top_thread u (chains s u)"
    and ins: "if f_inserted f then H (f_exec f) = Some (f_conn f, f_caller f) \<and> f_exec f \<notin> execs (chains s u)
      else f_exec f \<in> insert u (execs (chains s u))"
    and only: "\<And>v. f_exec f \<in> execs (chains s v) \<Longrightarrow> v = u"
    and t: "chains t = (chains s)(u := f # chains s u)" "apps t = apps s"
  shows "chains_ok H t"
proof -
  have ok: "chain_ok H v (chains s v)" and one: "z \<in> execs (chains s v) \<Longrightarrow> z \<in> execs (chains s w) \<Longrightarrow> v = w" for v w z
    using chains unfolding chains_ok_def by blast+
  have 1: "chain_ok H v (chains t v)" for v
    using ok caller ins by (cases "f_inserted f") (auto simp: t(1))
  have 2: "chains t v = []" if "v \<notin> apps t" for v
    using that u chains unfolding t by (auto simp: chains_ok_def)
  have 3: "v = w" if "z \<in> execs (chains t v)" "z \<in> execs (chains t w)" for v w z
  proof (cases "z = f_exec f")
    case True
    then have "v = u" "w = u" using that only unfolding t(1) by (auto split: if_splits)
    then show ?thesis by simp
  next
    case False
    then have "z \<in> execs (chains s v)" "z \<in> execs (chains s w)" using that unfolding t(1) by (auto split: if_splits)
    then show ?thesis by (rule one)
  qed
  show ?thesis unfolding chains_ok_def using 1 2 3 by blast
qed

lemma chain_pop_ok:
  assumes chains: "chains_ok H s" and f: "chains s u = f # fs" and t: "chains t = (chains s)(u := fs)" "apps t = apps s"
  shows "chains_ok H t"
proof -
  have ok: "chain_ok H v (chains s v)" and one: "z \<in> execs (chains s v) \<Longrightarrow> z \<in> execs (chains s w) \<Longrightarrow> v = w"
    and none: "v \<notin> apps s \<Longrightarrow> chains s v = []" for v w z
    using chains unfolding chains_ok_def by blast+
  have sub: "execs (chains t v) \<subseteq> execs (chains s v)" for v using f by (auto simp: t(1))
  have "chain_ok H v (chains t v)" for v using ok [of v] ok [of u] f by (simp add: t(1))
  moreover have "chains t v = []" if "v \<notin> apps t" for v using none [of v] none [of u] f that unfolding t by auto
  moreover have "v = w" if "z \<in> execs (chains t v)" "z \<in> execs (chains t w)" for v w z
    using one [of z v w] sub [of v] sub [of w] that by blast
  ultimately show ?thesis unfolding chains_ok_def by blast
qed

section \<open>Building the context\<close>

text \<open>States that differ in fields the invariant does not look at.\<close>

lemma pairs_inv_threads:
  assumes "pairs_inv H s" "t < next_thread s"
    and "callback_threads th = callback_threads (threads s t)" "request_threads th = request_threads (threads s t)"
    and "has_waiter th" and "t \<notin> ended s"
  shows "pairs_inv H (s\<lparr>threads := (threads s)(t := th)\<rparr>)"
proof -
  have "maps_ok H (s\<lparr>threads := (threads s)(t := th)\<rparr>)"
    using pairs_invD(2) [OF assms(1)] assms(3,4) by (simp add: maps_ok_def running_def)
  moreover have "ended_ok H (s\<lparr>threads := (threads s)(t := th)\<rparr>)"
    using assms(4-6) by (intro ended_okI [OF pairs_invD(5) [OF assms(1)]]) (auto split: if_splits)
  ultimately show ?thesis
    using assms by (simp add: pairs_inv_def threads_ok_def)
qed

lemma member_below:
  assumes "pairs_inv H s" "t \<in> apps s" "x \<in> insert t (execs (chains s t))"
  shows "x < next_thread s"
proof (cases "H x")
  case None
  then have "x = t"
    using app_in_chain [of H t "chains s t" x] assms pairs_invD(3) [OF assms(1)] by (auto simp: chains_ok_def)
  then show ?thesis using assms(2) pairs_invD(4) [OF assms(1)] by (simp add: threads_ok_def)
next
  case (Some p)
  then show ?thesis
    using homesD(1) [OF pairs_invD(1) [OF assms(1)], of x] by (cases p) auto
qed

text \<open>The assertions of \<open>clientInvoke\<close> fail in an event loop thread without a waiter only.\<close>

lemma client_thread_fails:
  "pairs_inv H s \<Longrightarrow> client_thread n (threads s x) = None \<longleftrightarrow> loop_thread (threads s x) \<and> \<not> has_waiter (threads s x)"
  using pairs_invD(4) [of H s] by (auto simp: client_thread_def threads_ok_def)

lemma client_thread_ok:
  assumes "pairs_inv H s" "x < next_thread s" "x \<notin> ended s" "has_waiter (threads s x) \<or> \<not> loop_thread (threads s x)"
  obtains th where "client_thread n (threads s x) = Some th" "pairs_inv H (s\<lparr>threads := (threads s)(x := th)\<rparr>)"
    "request_threads th = request_threads (threads s x)" "callback_threads th = callback_threads (threads s x)"
proof -
  have "\<exists>th. client_thread n (threads s x) = Some th \<and> has_waiter th \<and>
      request_threads th = request_threads (threads s x) \<and> callback_threads th = callback_threads (threads s x)"
    using pairs_invD(4) [OF assms(1)] assms(4) by (auto simp: client_thread_def threads_ok_def)
  then show ?thesis using that pairs_inv_threads [OF assms(1,2)] assms(3) by blast
qed

lemma set_callback_ok:
  assumes "pairs_inv H s" "has_waiter (threads s x)"
    and "SetThread callback_threads callback_threads_update x e (\<lambda>s. (Thread_cap e x, s)) s = ((c, b), s')"
  shows "c = Thread_cap e x \<and> pairs_inv H s' \<and> next_thread s' = next_thread s \<and> apps s' = apps s \<and>
    open_conns s' = open_conns s \<and> thread_maps s' = thread_maps s \<and> chains s' = chains s \<and> ran s' = ran s \<and>
    request_threads (threads s' t) = request_threads (threads s t) \<and>
    has_waiter (threads s' x)"
proof (cases "callback_threads (threads s x) e")
  case None
  let ?th = "callback_threads_update (\<lambda>m. m(e := Some (Thread_cap e x))) (threads s x)"
  have s': "s' = s\<lparr>threads := (threads s)(x := ?th)\<rparr>" "c = Thread_cap e x"
    using assms(3) None by (auto simp: SetThread_def)
  have x: "x < next_thread s"
    using pairs_invD(4) [OF assms(1)] assms(2) by (fastforce simp: threads_ok_def no_thread_def not_le [symmetric])
  have "maps_ok H s'"
    using pairs_invD(2) [OF assms(1)] by (simp add: s' maps_ok_def running_def)
  moreover have "ended_ok H s'"
    using assms(2) by (intro ended_okI [OF pairs_invD(5) [OF assms(1)]]) (auto simp: s' no_thread_def split: if_splits)
  ultimately have "pairs_inv H s'"
    using assms(1,2) x by (simp add: s' pairs_inv_def threads_ok_def)
  then show ?thesis using assms(2) by (simp add: s')
next
  case (Some d)
  then show ?thesis
    using assms pairs_invD(2) [OF assms(1)] by (auto simp: SetThread_def maps_ok_def)
qed

text \<open>A thread without an entry has no partner over the connection.\<close>

lemma no_partner:
  assumes inv: "pairs_inv H s" and t: "t \<in> apps s" and x: "x = top_thread t (chains s t)"
    and op: "{e, peer e} \<subseteq> open_conns s" and none: "request_threads (threads s x) e = None"
  shows "H z \<noteq> Some (e, x)" and "H x \<noteq> Some (peer e, z)"
proof -
  note maps = pairs_invD(2) [OF inv]
  have xin: "x \<in> insert t (execs (chains s t))" using x top_thread_in by simp
  show "H z \<noteq> Some (e, x)"
    using home_entries(1) [OF maps op, of z x] none chain_lives [OF inv t xin] by auto
  show "H x \<noteq> Some (peer e, z)"
  proof
    assume home: "H x = Some (peer e, z)"
    then have "x \<in> execs (chains s t)" using xin app_no_home [OF pairs_invD(1) [OF inv] t] by auto
    then have run: "running s x" unfolding running_def by blast
    from maker_lives [OF inv run home] have "z \<notin> ended s" by blast
    then show False using home_entries(2) [OF maps _ home] op none run by simp
  qed
qed

lemma home_runs:
  assumes "pairs_inv H s" "t \<in> apps s" "x = top_thread t (chains s t)" "H x \<noteq> None"
  shows "running s x"
proof -
  have "x \<in> insert t (execs (chains s t))" using assms(3) top_thread_in by simp
  moreover have "x \<noteq> t" using assms(4) app_no_home [OF pairs_invD(1) [OF assms(1)] assms(2)] by auto
  ultimately show ?thesis unfolding running_def by blast
qed

text \<open>A worker made for a thread that has no partner over the connection yet.\<close>

lemma make_worker_ended:
  assumes gone: "ended_ok H s" and alive: "x \<notin> ended s" "y \<notin> ended s" and y: "y = next_thread s" "x < y"
    and unmade: "\<And>z. H z \<noteq> Some (e, x)" and waits: "has_waiter (threads s x)" and y_thr: "threads s y = no_thread"
    and s': "s' = s\<lparr>next_thread := Suc y, threads := (threads s)(
        y := no_thread\<lparr>thread_name := n, has_waiter := True\<rparr>,
        x := request_threads_update (\<lambda>m. m(e := Some (Thread_cap (peer e) y))) (threads s x))\<rparr>"
  shows "ended_ok (H(y := Some (e, x))) s'"
  unfolding ended_ok_def
proof (intro conjI allI ballI impI)
  fix z assume "z \<in> ended s'"
  then have z: "z \<in> ended s" "z \<noteq> x" "z \<noteq> y" using alive by (auto simp: s')
  then show "z < next_thread s'" "z \<notin> apps s'" "\<not> running s' z" "threads s' z = no_thread"
    using endedD(1) [OF gone z(1)] y by (simp_all add: s' running_def)
next
  fix z a d b
  assume a: "(H(y := Some (e, x))) a = Some (d, z) \<and> request_threads (threads s' z) d = Some (Thread_cap b a)"
  show "a \<notin> ended s'"
  proof (cases "a = y")
    case False
    then have "H a = Some (d, z)" "\<not> (z = x \<and> d = e)" using a unmade by auto
    then show ?thesis
      using a endedD(2) [OF gone, of a d z b] y_thr by (auto simp: s' no_thread_def split: if_splits)
  qed (use alive in \<open>simp add: s'\<close>)
next
  fix z assume "(H(y := Some (e, x))) z \<noteq> None \<and> z \<notin> ended s'"
  then show "has_waiter (threads s' z)" using endedD(3) [OF gone, of z] waits by (auto simp: s' split: if_splits)
next
  fix z assume "z < next_thread s'"
  then show "z \<in> apps s' \<union> ended s' \<or> (H(y := Some (e, x))) z \<noteq> None"
    using endedD(4) [OF gone, of z] y by (auto simp: s')
qed

lemma make_worker_maps:
  assumes maps: "maps_ok H s" and below: "x < y" and unmade: "\<And>z. H z \<noteq> Some (e, x)" and unserved: "\<And>z. H x \<noteq> Some (peer e, z)"
    and y_new: "H y = None" "request_threads (threads s y) = (\<lambda>_. None)" "\<not> running s y"
    and x_run: "H x \<noteq> None \<Longrightarrow> running s x"
    and s': "s' = s\<lparr>next_thread := Suc y, threads := (threads s)(
        y := no_thread\<lparr>thread_name := n, has_waiter := True\<rparr>,
        x := request_threads_update (\<lambda>m. m(e := Some (Thread_cap (peer e) y))) (threads s x))\<rparr>"
  shows "maps_ok (H(y := Some (e, x))) s'"
proof -
  let ?H = "H(y := Some (e, x))"
  have req: "request_threads (threads s' z) =
      (if z = x then (request_threads (threads s x))(e := Some (Thread_cap (peer e) y)) else request_threads (threads s z))" for z
    using y_new(2) below by (simp add: s' no_thread_def)
  have same: "running s' = running s" "open_conns s' = open_conns s" "ended s' = ended s"
    by (simp_all add: s' running_def fun_eq_iff)
  have old: "H a = Some (d, z)" if "?H a = Some (d, z)" "a \<noteq> y" for a d z using that by simp
  show ?thesis
  proof (rule maps_okI [OF maps])
    show "paired ?H a d b" if "paired H a d b" for a d b using that y_new(1) by (auto simp: paired_def)
    show "callback_threads (threads s z) d = Some c \<or> c = Thread_cap d z" if "callback_threads (threads s' z) d = Some c" for z d c
      using that below by (simp add: s' no_thread_def split: if_splits)
    show "request_threads (threads s z) d = Some (Thread_cap b a) \<or> b = peer d \<and> paired ?H z d a"
      if "request_threads (threads s' z) d = Some (Thread_cap b a)" for z d b a
      using that by (auto simp: req paired_def split: if_splits)
  next
    fix z d a assume a: "{d, peer d} \<subseteq> open_conns s'" "?H a = Some (d, z)" "z \<notin> ended s'"
    show "request_threads (threads s' z) d = Some (Thread_cap (peer d) a) \<and>
        request_threads (threads s' a) (peer d) = (if running s' a then Some (Thread_cap d z) else None)"
    proof (cases "a = y")
      case True
      then show ?thesis using a below y_new(2,3) by (auto simp: req same)
    next
      case False
      note h = old [OF a(2) False]
      have "\<not> (z = x \<and> d = e)" "\<not> (a = x \<and> peer d = e)" using h unmade [of a] unserved [of z] by auto
      then show ?thesis
        using home_entries [OF maps _ h] a by (auto simp: req same)
    qed
  next
    fix z d a c assume a: "?H a = Some (d, z)" "request_threads (threads s' a) (peer d) = Some c"
    then have "a \<noteq> y" using y_new(2) below by (auto simp: req)
    then show "running s' a"
      using old [OF a(1)] a(2) request_running [OF maps] x_run by (cases "a = x") (auto simp: req same)
  qed
qed

lemma make_worker_ok:
  assumes inv: "pairs_inv H s" and t: "t \<in> apps s" and x: "x = top_thread t (chains s t)"
    and op: "{e, peer e} \<subseteq> open_conns s" and none: "request_threads (threads s x) e = None"
    and y: "y = next_thread s" and waits: "has_waiter (threads s x)"
    and s': "s' = s\<lparr>next_thread := Suc y, threads := (threads s)(
        y := no_thread\<lparr>thread_name := n, has_waiter := True\<rparr>,
        x := request_threads_update (\<lambda>m. m(e := Some (Thread_cap (peer e) y))) (threads s x))\<rparr>"
  shows "pairs_inv (H(y := Some (e, x))) s'"
proof -
  let ?H = "H(y := Some (e, x))"
  note homes = pairs_invD(1) [OF inv] and chains = pairs_invD(3) [OF inv]
    and ths = pairs_invD(4) [OF inv] and gone = pairs_invD(5) [OF inv] and partner = no_partner [OF inv t x op none]
  have xin: "x \<in> insert t (execs (chains s t))" using x top_thread_in by simp
  have below: "x < y" using member_below [OF inv t xin] y by simp
  have alive: "x \<notin> ended s" "y \<notin> ended s"
    using chain_lives [OF inv t xin] endedD(1) [OF gone, of y] y by auto
  have y_thr: "request_threads (threads s y) = (\<lambda>_. None)" using ths y by (simp add: threads_ok_def no_thread_def)
  have y_new: "y \<notin> apps s" "H y = None" "y \<notin> execs (chains s u)" for u
    using ths homesD(1) [OF homes, of y] member_below [OF inv active_app [OF inv], of y u y] y
    by (auto simp: threads_ok_def) (cases "H y"; auto)
  have same: "apps s' = apps s" "chains s' = chains s" "ran s' = ran s" "next_thread s' = Suc y"
    by (simp_all add: s')
  have pair: "paired ?H a d b" if "paired H a d b" for a d b using that y_new(2) by (auto simp: paired_def)
  have "maps_ok ?H s'"
    by (rule make_worker_maps [OF pairs_invD(2) [OF inv] below partner y_new(2) y_thr _ home_runs [OF inv t x] s'])
      (use y_new(3) in \<open>simp_all add: running_def\<close>)
  moreover have "homes_ok ?H s'"
    by (rule new_home_ok [OF homes y below y_new(1) partner]) (simp_all add: same)
  moreover have "chains_ok ?H s'"
    using chains chain_new_home y_new(3) by (simp add: same chains_ok_def)
  moreover have "threads_ok s'" using ths below y waits by (auto simp: s' threads_ok_def)
  moreover have "ended_ok ?H s'"
    using make_worker_ended [OF gone alive y below partner(1) waits _ s'] ths y by (simp add: threads_ok_def)
  ultimately show ?thesis using pairs_invD(6) [OF inv] pair by (auto simp: pairs_inv_def same)
qed

text \<open>Without a thread map the entry is a broken capability.\<close>

lemma make_broken_ok:
  assumes inv: "pairs_inv H s" and t: "t \<in> apps s" and x: "x = top_thread t (chains s t)"
    and op: "{e, peer e} \<subseteq> open_conns s" and none: "request_threads (threads s x) e = None"
    and waits: "has_waiter (threads s x)"
    and s': "s' = s\<lparr>threads := (threads s)(x := request_threads_update (\<lambda>m. m(e := Some Broken)) (threads s x))\<rparr>"
  shows "pairs_inv H s'"
proof -
  note maps = pairs_invD(2) [OF inv] and partner = no_partner [OF inv t x op none]
  have xin: "x \<in> insert t (execs (chains s t))" using x top_thread_in by simp
  have below: "x < next_thread s" using member_below [OF inv t xin] .
  have alive: "x \<notin> ended s" using chain_lives [OF inv t xin] .
  have "maps_ok H s'"
  proof (rule maps_okI [OF maps])
    fix z d a assume a: "{d, peer d} \<subseteq> open_conns s'" "H a = Some (d, z)" "z \<notin> ended s'"
    have "\<not> (z = x \<and> d = e)" "\<not> (a = x \<and> peer d = e)" using a(2) partner(1) [of a] partner(2) [of z] by auto
    then show "request_threads (threads s' z) d = Some (Thread_cap (peer d) a) \<and>
        request_threads (threads s' a) (peer d) = (if running s' a then Some (Thread_cap d z) else None)"
      using home_entries [OF maps _ a(2)] a by (auto simp: s')
  next
    fix z d a c assume "H a = Some (d, z)" "request_threads (threads s' a) (peer d) = Some c"
    then show "running s' a"
      using request_running [OF maps] home_runs [OF inv t x] by (cases "a = x") (auto simp: s')
  qed (auto simp: s' split: if_splits)
  moreover have "ended_ok H s'"
    using alive by (intro ended_okI [OF pairs_invD(5) [OF inv]]) (auto simp: s' split: if_splits)
  ultimately show ?thesis using inv below waits by (simp add: s' pairs_inv_def threads_ok_def)
qed

lemma build_context_ok:
  assumes inv: "pairs_inv H s" and t: "t \<in> apps s" and x: "x = top_thread t (chains s t)"
    and op: "{e, peer e} \<subseteq> open_conns s" and waits: "has_waiter (threads s x)"
    and call: "build_context name x e s = ((request, callback), s')"
  obtains G where "pairs_inv G s'" "callback = Thread_cap e x" "request_threads (threads s' x) e = Some request"
    "apps s' = apps s" "open_conns s' = open_conns s" "chains s' = chains s" "ran s' = ran s"
proof -
  obtain b s1 b' where
    s1: "SetThread callback_threads callback_threads_update x e (\<lambda>s. (Thread_cap e x, s)) s = ((callback, b), s1)"
    and r: "SetThread request_threads request_threads_update x e (make_request_thread name x e) s1 = ((request, b'), s')"
    using call by (auto simp: build_context_def split: prod.splits)
  have ok: "pairs_inv H s1" "callback = Thread_cap e x" "has_waiter (threads s1 x)"
    and same: "apps s1 = apps s" "open_conns s1 = open_conns s" "chains s1 = chains s" "ran s1 = ran s"
    using set_callback_ok [OF inv waits s1] by blast+
  have t1: "t \<in> apps s1" "x = top_thread t (chains s1 t)" "{e, peer e} \<subseteq> open_conns s1"
    using t x op same by simp_all
  have below: "x < next_thread s1"
    using member_below [OF ok(1) t1(1), of x] top_thread_in t1(2) by simp
  let ?y = "next_thread s1"
  let ?n = "name ?y @ '' (from '' @ thread_name (threads s1 x) @ '')''"
  consider (some) c where "request_threads (threads s1 x) e = Some c"
    | (make) "request_threads (threads s1 x) e = None" "e \<in> thread_maps s1"
    | (broken) "request_threads (threads s1 x) e = None" "e \<notin> thread_maps s1"
    by blast
  then show ?thesis
  proof cases
    case some
    then have "s' = s1" "c = request" using r by (simp_all add: SetThread_def)
    then show ?thesis using that [of H] ok same some by simp
  next
    case make
    have s': "request = Thread_cap (peer e) ?y"
      "s' = s1\<lparr>next_thread := Suc ?y, threads := (threads s1)(
        ?y := no_thread\<lparr>thread_name := ?n, has_waiter := True\<rparr>,
        x := request_threads_update (\<lambda>m. m(e := Some (Thread_cap (peer e) ?y))) (threads s1 x))\<rparr>"
      using r make below by (auto simp: SetThread_def make_request_thread_def makeThread_def Let_def)
    have "pairs_inv (H(?y := Some (e, x))) s'"
      by (rule make_worker_ok [OF ok(1) t1 make(1) refl ok(3) s'(2)])
    then show ?thesis using that ok(2) same s' by simp
  next
    case broken
    have s': "request = Broken"
      "s' = s1\<lparr>threads := (threads s1)(x := request_threads_update (\<lambda>m. m(e := Some Broken)) (threads s1 x))\<rparr>"
      using r broken by (auto simp: SetThread_def make_request_thread_def)
    have "pairs_inv H s'"
      by (rule make_broken_ok [OF ok(1) t1 broken(1) ok(3) s'(2)])
    then show ?thesis using that ok(2) same s' by simp
  qed
qed

section \<open>Entering and leaving\<close>

text \<open>The thread that a call enters lives, and is in no other chain.\<close>

lemma entered_thread:
  assumes inv: "pairs_inv H s" and t: "t \<in> apps s" and x: "x = top_thread t (chains s t)"
    and op: "{e, peer e} \<subseteq> open_conns s" and cap: "request_threads (threads s x) e = Some (Thread_cap d w)"
  shows "w \<notin> ended s" and "w < next_thread s" and "w \<in> execs (chains s u) \<Longrightarrow> u = t"
proof -
  have pair: "paired H x e w" using request_sound [OF pairs_invD(2) [OF inv] cap] by blast
  note partner = partner_chain(2) [OF inv t x op pair]
  show "w \<notin> ended s"
  proof (cases "w \<in> insert t (execs (chains s t))")
    case True
    then show ?thesis using chain_lives [OF inv t] by blast
  next
    case False
    then show ?thesis using partner endedD(2) [OF pairs_invD(5) [OF inv] _ cap] by blast
  qed
  show "w < next_thread s"
    using pair homesD(1) [OF pairs_invD(1) [OF inv]] by (auto simp: paired_def)
  show "u = t" if u: "w \<in> execs (chains s u)"
  proof -
    have "w \<in> insert t (execs (chains s t))" using partner u unfolding running_def by blast
    then show ?thesis using one_chain [OF inv active_app [OF inv u] t, of w] u by simp
  qed
qed

text \<open>What the worker's map has for its maker afterwards.\<close>

lemma entered_home:
  assumes inv: "pairs_inv H s" and t: "t \<in> apps s" and x: "x = top_thread t (chains s t)"
    and pair: "paired H x e w" and h: "H w = Some (d, z)"
  shows "d = e \<and> z = x \<or> d \<noteq> e \<and> running s w"
proof -
  note homes = pairs_invD(1) [OF inv]
  have ht: "H t = None" using app_no_home [OF homes t] .
  show ?thesis
  proof (cases "H w = Some (e, x)")
    case False
    then have home: "H x = Some (peer e, w)" using pair by (simp add: paired_def)
    have "x \<in> insert t (execs (chains s t))" using x top_thread_in by simp
    then have "x \<in> execs (chains s t)" using home ht by auto
    moreover have "chain_ok H t (chains s t)" using pairs_invD(3) [OF inv] by (simp add: chains_ok_def)
    ultimately have "w \<in> insert t (execs (chains s t))" using maker_in_chain [OF _ ht _ home] by blast
    moreover have "w \<noteq> t" using h ht by auto
    ultimately have "running s w" unfolding running_def by blast
    moreover have "d \<noteq> e" using homesD(3) [OF homes, of w "peer e" z x] h home by auto
    ultimately show ?thesis by blast
  qed (use h in simp)
qed

text \<open>The entry of the worker for its caller.\<close>

lemma enter_request_threads:
  assumes enter: "enter_request w b c s = (inserted, s')"
    and same: "request_threads (threads s w) b \<in> {None, Some c}"
  shows "inserted \<longleftrightarrow> request_threads (threads s w) b = None"
    and "request_threads (threads s' z) d = (if z = w \<and> d = b then Some c else request_threads (threads s z) d)"
    and "callback_threads (threads s' z) = callback_threads (threads s z)"
    and "has_waiter (threads s' z) = has_waiter (threads s z)"
    and "thread_name (threads s' z) = thread_name (threads s z)" "loop_thread (threads s' z) = loop_thread (threads s z)"
    and "z \<noteq> w \<Longrightarrow> threads s' z = threads s z"
    and "apps s' = apps s" "open_conns s' = open_conns s" "next_thread s' = next_thread s" "ended s' = ended s"
    and "chains s' = chains s" "ran s' = ran s" "thread_maps s' = thread_maps s"
  using assms by (auto simp: enter_request_def SetThread_def split: option.splits if_splits)

lemma enter_maps_ok:
  assumes maps: "maps_ok H s" and pair: "paired H x e w"
    and home: "\<And>d z. H w = Some (d, z) \<Longrightarrow> d = e \<and> z = x \<or> d \<noteq> e \<and> running s w"
    and req: "\<And>z b. request_threads (threads t z) b =
      (if z = w \<and> b = peer e then Some (Thread_cap e x) else request_threads (threads s z) b)"
    and entry: "request_threads (threads s w) (peer e) \<in> {None, Some (Thread_cap e x)}"
    and callbacks: "\<And>z. callback_threads (threads t z) = callback_threads (threads s z)"
    and same: "open_conns t = open_conns s" "ended t = ended s"
    and act: "\<And>z. running t z \<longleftrightarrow> running s z \<or> z = w"
  shows "maps_ok H t"
proof (rule maps_okI [OF maps])
  show "request_threads (threads s z) d = Some (Thread_cap b a) \<or> b = peer d \<and> paired H z d a"
    if "request_threads (threads t z) d = Some (Thread_cap b a)" for z d b a
    using that pair unfolding req by (auto simp: paired_def split: if_splits)
  show "callback_threads (threads s z) d = Some c \<or> c = Thread_cap d z"
    if "callback_threads (threads t z) d = Some c" for z d c
    using that unfolding callbacks by simp
next
  fix z d a assume a: "{d, peer d} \<subseteq> open_conns t" "H a = Some (d, z)" "z \<notin> ended t"
  have "{d, peer d} \<subseteq> open_conns s" "z \<notin> ended s" using a(1,3) unfolding same .
  note entries = home_entries [OF maps this(1) a(2) this(2)]
  have "request_threads (threads t z) d = Some (Thread_cap (peer d) a)"
    using entries(1) entry unfolding req by auto
  moreover have "request_threads (threads t a) (peer d) = (if running t a then Some (Thread_cap d z) else None)"
    using entries(2) home [of d z] a(2) unfolding req act by (cases "a = w") auto
  ultimately show "request_threads (threads t z) d = Some (Thread_cap (peer d) a) \<and>
      request_threads (threads t a) (peer d) = (if running t a then Some (Thread_cap d z) else None)" by blast
next
  fix z d a c assume "H a = Some (d, z)" "request_threads (threads t a) (peer d) = Some c"
  then show "running t a"
    using request_running [OF maps, of a d z c] unfolding req act by (cases "a = w") auto
qed

lemma enter_ok:
  assumes inv: "pairs_inv H s" and t: "t \<in> apps s" and x: "x = top_thread t (chains s t)"
    and op: "{e, peer e} \<subseteq> open_conns s" and cap: "request_threads (threads s x) e = Some (Thread_cap d w)"
    and enter: "enter_request w (peer e) (Thread_cap e x) s = (inserted, s')"
  shows "pairs_inv H (s'\<lparr>chains := (chains s')(t :=
        \<lparr>f_caller = x, f_conn = e, f_exec = w, f_inserted = inserted\<rparr> # chains s' t), ran := (x, e, w) # ran s'\<rparr>)"
    (is "pairs_inv H ?s")
proof -
  let ?f = "\<lparr>f_caller = x, f_conn = e, f_exec = w, f_inserted = inserted\<rparr>"
  have pair: "paired H x e w" using request_sound [OF pairs_invD(2) [OF inv] cap] by blast
  note partner = partner_chain [OF inv t x op pair] and w = entered_thread [OF inv t x op cap]
  have entry: "request_threads (threads s w) (peer e) \<in> {None, Some (Thread_cap e x)}" using partner(1) by simp
  note new = enter_request_threads [OF enter entry]
  have xin: "x \<in> insert t (execs (chains s t))" using x top_thread_in by simp
  have ins: "inserted \<longleftrightarrow> w \<notin> insert t (execs (chains s t))" using new(1) partner(1) by simp
  have chain: "chains ?s = (chains s)(t := ?f # chains s t)" by (simp add: new)
  have act: "running ?s z \<longleftrightarrow> running s z \<or> z = w" for z using running_push [OF chain] by simp
  have "maps_ok H ?s"
    by (rule enter_maps_ok [OF pairs_invD(2) [OF inv] pair entered_home [OF inv t x pair] _ entry _ _ _ act])
      (simp_all add: new)
  moreover have "ended_ok H ?s"
  proof (rule ended_okI [OF pairs_invD(5) [OF inv]])
    show "threads ?s z = no_thread" if "z \<in> ended s" "threads s z = no_thread" for z
      using that w(1) new(7) [of z] by auto
    show "request_threads (threads s z) d = Some (Thread_cap b a) \<or> a \<notin> ended s"
      if "request_threads (threads ?s z) d = Some (Thread_cap b a)" for z d b a
      using that chain_lives [OF inv t xin] by (auto simp: new split: if_splits)
  qed (use w(1) act in \<open>auto simp: new\<close>)
  moreover have "chains_ok H ?s"
    by (rule chain_push_ok [OF pairs_invD(3) [OF inv] t _ _ _ chain]) (use x ins partner(2) w(3) in \<open>auto simp: new\<close>)
  moreover have "threads ?s z = no_thread" if "next_thread s \<le> z" for z
    using that w(2) pairs_invD(4) [OF inv] new(7) [of z] by (auto simp: threads_ok_def)
  then have "threads_ok ?s" using pairs_invD(4) [OF inv] by (simp add: threads_ok_def new)
  moreover have "homes_ok H ?s" using pairs_invD(1) [OF inv] by (simp add: homes_ok_def new)
  ultimately show ?thesis using pairs_invD(6) [OF inv] pair by (auto simp: pairs_inv_def new)
qed

text \<open>What the end of a request does to the thread \<open>w\<close> that ran it.\<close>

lemma leave_request_simps [simp]:
  "request_threads (threads (leave_request w e b s) z) d =
     (if b \<and> z = w \<and> d = e then None else request_threads (threads s z) d)"
  "callback_threads (threads (leave_request w e b s) z) = callback_threads (threads s z)"
  "has_waiter (threads (leave_request w e b s) z) = has_waiter (threads s z)"
  "thread_name (threads (leave_request w e b s) z) = thread_name (threads s z)"
  "loop_thread (threads (leave_request w e b s) z) = loop_thread (threads s z)"
  "z \<noteq> w \<Longrightarrow> threads (leave_request w e b s) z = threads s z"
  "apps (leave_request w e b s) = apps s" "open_conns (leave_request w e b s) = open_conns s"
  "ran (leave_request w e b s) = ran s" "next_thread (leave_request w e b s) = next_thread s"
  "ended (leave_request w e b s) = ended s" "thread_maps (leave_request w e b s) = thread_maps s"
  by (simp_all add: leave_request_def)

lemma leave_maps_ok:
  assumes homes: "homes_ok H s" and maps: "maps_ok H s"
    and home: "f_inserted f \<Longrightarrow> H (f_exec f) = Some (f_conn f, f_caller f)"
    and t: "t = (leave_request (f_exec f) (peer (f_conn f)) (f_inserted f) s)\<lparr>chains := cs\<rparr>"
    and act: "\<And>a. H a \<noteq> None \<Longrightarrow> running t a \<longleftrightarrow> running s a \<and> \<not> (f_inserted f \<and> a = f_exec f)"
  shows "maps_ok H t"
proof (rule maps_okI [OF maps])
  show "callback_threads (threads s z) d = Some c \<or> c = Thread_cap d z"
    if "callback_threads (threads t z) d = Some c" for z d c using that by (simp add: t)
  show "request_threads (threads s z) d = Some (Thread_cap b a) \<or> b = peer d \<and> paired H z d a"
    if "request_threads (threads t z) d = Some (Thread_cap b a)" for z d b a using that by (simp add: t split: if_splits)
next
  fix z d a assume a: "{d, peer d} \<subseteq> open_conns t" "H a = Some (d, z)" "z \<notin> ended t"
  have "{d, peer d} \<subseteq> open_conns s" "z \<notin> ended s" using a(1,3) by (simp_all add: t)
  note entries = home_entries [OF maps this(1) a(2) this(2)]
  have "\<not> (f_inserted f \<and> z = f_exec f \<and> d = peer (f_conn f))"
    using homesD(3) [OF homes, of "f_exec f" "peer (f_conn f)" "f_caller f" a] home a(2) by auto
  then have "request_threads (threads t z) d = Some (Thread_cap (peer d) a)"
    using entries(1) by (simp add: t)
  moreover have "a = f_exec f \<Longrightarrow> f_inserted f \<Longrightarrow> d = f_conn f" using home a(2) by simp
  then have "request_threads (threads t a) (peer d) = (if running t a then Some (Thread_cap d z) else None)"
    using entries(2) act [of a] a(2) by (auto simp: t)
  ultimately show "request_threads (threads t z) d = Some (Thread_cap (peer d) a) \<and>
      request_threads (threads t a) (peer d) = (if running t a then Some (Thread_cap d z) else None)" by blast
next
  fix z d a c assume h: "H a = Some (d, z)" and "request_threads (threads t a) (peer d) = Some c"
  then have a: "\<not> (f_inserted f \<and> a = f_exec f \<and> d = f_conn f)" "request_threads (threads s a) (peer d) = Some c"
    by (simp_all add: t split: if_splits)
  have "a = f_exec f \<Longrightarrow> f_inserted f \<Longrightarrow> d = f_conn f" using home h by simp
  then show "running t a" using act [of a] request_running [OF maps h a(2)] a(1) h by auto
qed

lemma leave_ok:
  assumes inv: "pairs_inv H s" and c: "chains s t = f # fs"
  shows "pairs_inv H ((leave_request (f_exec f) (peer (f_conn f)) (f_inserted f) s)\<lparr>chains := (chains s)(t := fs)\<rparr>)"
    (is "pairs_inv H ?s")
proof -
  note homes = pairs_invD(1) [OF inv] and maps = pairs_invD(2) [OF inv] and chains = pairs_invD(3) [OF inv]
    and ths = pairs_invD(4) [OF inv]
  have t: "t \<in> apps s" using active_app [OF inv, of "f_exec f" t] c by simp
  have ht: "H t = None" using app_no_home [OF homes t] .
  have yin: "f_exec f \<in> insert t (execs (chains s t))" using c by simp
  have home: "H (f_exec f) = Some (f_conn f, f_caller f)" if "f_inserted f"
    using chains c [symmetric] that unfolding chains_ok_def by (metis chain_ok.simps(2))
  have sub: "running s z" if "running ?s z" for z
    using that c unfolding running_def by (auto split: if_splits intro: exI [of _ t])
  have "maps_ok H ?s"
    by (rule leave_maps_ok [OF homes maps home refl running_pop [OF chains ht c]]) simp_all
  moreover have "ended_ok H ?s"
  proof (rule ended_okI [OF pairs_invD(5) [OF inv]])
    show "threads ?s z = no_thread" if "z \<in> ended s" "threads s z = no_thread" for z
      using that chain_lives [OF inv t yin] by (cases "z = f_exec f") auto
  qed (use sub in \<open>auto split: if_splits\<close>)
  moreover have "chains_ok H ?s" by (rule chain_pop_ok [OF chains c]) simp_all
  moreover have "threads ?s z = no_thread" if "next_thread s \<le> z" for z
    using that ths member_below [OF inv t yin] by (cases "z = f_exec f") (auto simp: threads_ok_def)
  then have "threads_ok ?s" using ths by (simp add: threads_ok_def)
  moreover have "homes_ok H ?s" using homes by (simp add: homes_ok_def)
  ultimately show ?thesis using pairs_invD(6) [OF inv] by (auto simp: pairs_inv_def)
qed

section \<open>Starts and ends of threads, ends of connections\<close>

lemma connection_gone_ok:
  assumes "pairs_inv H s"
  shows "pairs_inv H (connection_gone e s)"
proof -
  let ?s = "connection_gone e s"
  note maps = pairs_invD(2) [OF assms]
  have req: "request_threads (threads ?s z) b = (if b = e then None else request_threads (threads s z) b)"
    and cb: "callback_threads (threads ?s z) b = (if b = e then None else callback_threads (threads s z) b)" for z b
    by (simp_all add: connection_gone_def)
  have same: "running ?s = running s" "ended ?s = ended s"
    by (simp_all add: connection_gone_def running_def fun_eq_iff)
  have "maps_ok H ?s"
  proof (rule maps_okI [OF maps])
    fix z a d assume "{d, peer d} \<subseteq> open_conns ?s" and h: "H a = Some (d, z)" and "z \<notin> ended ?s"
    then have op: "{d, peer d} \<subseteq> open_conns s" "d \<noteq> e" "peer d \<noteq> e" "z \<notin> ended s"
      by (auto simp: connection_gone_def)
    then show "request_threads (threads ?s z) d = Some (Thread_cap (peer d) a) \<and>
        request_threads (threads ?s a) (peer d) = (if running ?s a then Some (Thread_cap d z) else None)"
      using home_entries [OF maps op(1) h] by (simp_all add: req same)
  next
    fix z a d c assume "H a = Some (d, z)" "request_threads (threads ?s a) (peer d) = Some c"
    then show "running ?s a" using request_running [OF maps, of a d z c] by (simp add: req same split: if_splits)
  qed (auto simp: req cb split: if_splits)
  moreover have "ended_ok H ?s"
    by (rule ended_okI [OF pairs_invD(5) [OF assms]])
      (auto simp: connection_gone_def no_thread_def running_def fun_eq_iff split: if_splits)
  ultimately show ?thesis
    using assms by (auto simp: connection_gone_def pairs_inv_def homes_ok_def chains_ok_def threads_ok_def no_thread_def)
qed

lemma new_app_ok:
  assumes inv: "pairs_inv H s"
    and s': "s' = s\<lparr>next_thread := Suc (next_thread s), apps := insert (next_thread s) (apps s)\<rparr>"
  shows "pairs_inv H s'"
proof -
  have "homes_ok H s'"
    unfolding homes_ok_def
  proof (intro conjI allI impI)
    fix y e x assume h: "H y = Some (e, x)"
    show "x < y" "y < next_thread s'" "y \<notin> apps s'"
      using homesD(1,4) [OF pairs_invD(1) [OF inv] h] by (auto simp: s')
  qed (use homesD(2,3) [OF pairs_invD(1) [OF inv]] in blast)+
  moreover have "ended_ok H s'"
    unfolding ended_ok_def
  proof (intro conjI allI ballI impI)
    fix z assume "z \<in> ended s'"
    then show "z < next_thread s'" "z \<notin> apps s'" "\<not> running s' z" "threads s' z = no_thread"
      using endedD(1) [OF pairs_invD(5) [OF inv], of z] by (auto simp: s' running_def)
  next
    fix z assume "z < next_thread s'"
    then show "z \<in> apps s' \<union> ended s' \<or> H z \<noteq> None"
      using endedD(4) [OF pairs_invD(5) [OF inv], of z] by (auto simp: s' less_Suc_eq)
  qed (use endedD(2,3) [OF pairs_invD(5) [OF inv]] in \<open>auto simp: s'\<close>)
  ultimately show ?thesis
    using inv by (auto simp: s' pairs_inv_def maps_ok_def chains_ok_def threads_ok_def running_def)
qed

text \<open>The flag of the event loop thread is in no part of the invariant.\<close>

lemma loop_flag_ok:
  assumes inv: "pairs_inv H s" and t: "t \<in> apps s"
  shows "pairs_inv H (s\<lparr>threads := (threads s)(t := (threads s t)\<lparr>loop_thread := b\<rparr>)\<rparr>)" (is "pairs_inv H ?s")
proof -
  have below: "t < next_thread s" and alive: "t \<notin> ended s"
    using pairs_invD(4) [OF inv] endedD(1) [OF pairs_invD(5) [OF inv], of t] t by (auto simp: threads_ok_def)
  have "maps_ok H ?s"
    using pairs_invD(2) [OF inv] by (simp add: maps_ok_def running_def)
  moreover have "ended_ok H ?s"
    using alive by (intro ended_okI [OF pairs_invD(5) [OF inv]]) (auto split: if_splits)
  moreover have "threads_ok ?s"
    using pairs_invD(4) [OF inv] below by (auto simp: threads_ok_def)
  ultimately show ?thesis using inv by (simp add: pairs_inv_def)
qed

lemma loop_entered_ok: "pairs_inv H s \<Longrightarrow> t \<in> apps s \<Longrightarrow> loop_entered t s = Some s' \<Longrightarrow> pairs_inv H s'"
  using loop_flag_ok [of H s t True] by (auto simp: loop_entered_def split: if_splits)

lemma loop_left_ok: "pairs_inv H s \<Longrightarrow> t \<in> apps s \<Longrightarrow> pairs_inv H (loop_left t s)"
  using loop_flag_ok [of H s t False] by (simp add: loop_left_def)

text \<open>A thread that runs nothing and that no maker refers to ends.\<close>

lemma thread_exit_ok:
  assumes inv: "pairs_inv H s" and t: "t < next_thread s" "chains s t = []" "\<not> running s t"
    and unused: "\<And>x e d. H t = Some (e, x) \<Longrightarrow> request_threads (threads s x) e \<noteq> Some (Thread_cap d t)"
  shows "pairs_inv H (thread_exit t s)"
proof -
  let ?s = "thread_exit t s"
  note maps = pairs_invD(2) [OF inv] and gone = pairs_invD(5) [OF inv]
  have ths: "threads ?s z = (if z = t then no_thread else threads s z)" for z by (simp add: thread_exit_def)
  have same: "next_thread ?s = next_thread s" "open_conns ?s = open_conns s" "chains ?s = chains s" "ran ?s = ran s"
    "apps ?s = apps s - {t}" "ended ?s = insert t (ended s)"
    by (simp_all add: thread_exit_def)
  have act: "running ?s = running s" by (simp add: running_def same fun_eq_iff)
  have none: "request_threads no_thread b = None" "callback_threads no_thread b = None" for b
    by (simp_all add: no_thread_def)
  have "maps_ok H ?s"
  proof (rule maps_okI [OF maps])
    fix z d a assume a: "{d, peer d} \<subseteq> open_conns ?s" "H a = Some (d, z)" "z \<notin> ended ?s"
    then have op: "{d, peer d} \<subseteq> open_conns s" "z \<notin> ended s" and z: "z \<noteq> t" by (simp_all add: same)
    note entries = home_entries [OF maps op(1) a(2) op(2)]
    then have "a \<noteq> t" using unused a(2) by blast
    then show "request_threads (threads ?s z) d = Some (Thread_cap (peer d) a) \<and>
        request_threads (threads ?s a) (peer d) = (if running ?s a then Some (Thread_cap d z) else None)"
      using entries z by (simp add: ths act)
  next
    fix z d a c assume "H a = Some (d, z)" "request_threads (threads ?s a) (peer d) = Some c"
    then show "running ?s a"
      using request_running [OF maps, of a d z c] by (simp add: ths act none split: if_splits)
  qed (auto simp: ths none split: if_splits)
  moreover have "ended_ok H ?s"
    unfolding ended_ok_def
  proof (intro conjI allI ballI impI)
    fix z assume "z \<in> ended ?s"
    then show "z < next_thread ?s" "z \<notin> apps ?s" "\<not> running ?s z" "threads ?s z = no_thread"
      using endedD(1) [OF gone, of z] t(1,3) by (auto simp: same act ths)
  next
    fix z a d b assume "H a = Some (d, z) \<and> request_threads (threads ?s z) d = Some (Thread_cap b a)"
    then have "H a = Some (d, z)" "request_threads (threads s z) d = Some (Thread_cap b a)"
      by (simp_all add: ths none split: if_splits)
    then show "a \<notin> ended ?s" using endedD(2) [OF gone] unused by (auto simp: same)
  next
    fix z assume "H z \<noteq> None \<and> z \<notin> ended ?s"
    then show "has_waiter (threads ?s z)" using endedD(3) [OF gone, of z] by (simp add: same ths)
  qed (use endedD(4) [OF gone] in \<open>auto simp: same\<close>)
  moreover have "homes_ok H ?s" using pairs_invD(1) [OF inv] by (auto simp: homes_ok_def same)
  moreover have "chains_ok H ?s" using pairs_invD(3) [OF inv] t(2) by (auto simp: chains_ok_def same)
  moreover have "threads_ok ?s"
    using pairs_invD(4) [OF inv] by (auto simp: threads_ok_def same ths no_thread_def)
  ultimately show ?thesis using pairs_invD(6) [OF inv] by (auto simp: pairs_inv_def same)
qed

lemma app_exit_ok:
  assumes inv: "pairs_inv H s" and t: "t \<in> apps s" "chains s t = []"
  shows "pairs_inv H (thread_exit t s)"
proof (rule thread_exit_ok [OF inv _ t(2)])
  note homes = pairs_invD(1) [OF inv]
  show "t < next_thread s" using member_below [OF inv t(1)] by simp
  show "\<not> running s t"
  proof
    assume "running s t"
    then obtain u where u: "t \<in> execs (chains s u)" by (auto simp: running_def)
    then have "t = u" using one_chain [OF inv t(1) active_app [OF inv u], of t] by simp
    then show False using u t(2) by simp
  qed
qed (use app_no_home [OF pairs_invD(1) [OF inv] t(1)] in simp)

lemma worker_exit_ok:
  assumes inv: "pairs_inv H s" and w: "w < next_thread s" "w \<notin> apps s \<union> ended s" "\<not> running s w" "\<not> worker_used s w"
  shows "pairs_inv H (thread_exit w s)" "worker_exit w s = Some (thread_exit w s)"
proof -
  show "pairs_inv H (thread_exit w s)"
  proof (rule thread_exit_ok [OF inv w(1) _ w(3)])
    show "chains s w = []" using pairs_invD(3) [OF inv] w(2) by (simp add: chains_ok_def)
  qed (use w(4) in \<open>auto simp: worker_used_def\<close>)
  have "has_waiter (threads s w)"
    using endedD(3,4) [OF pairs_invD(5) [OF inv]] w(1,2) by blast
  then show "worker_exit w s = Some (thread_exit w s)" by (simp add: worker_exit_def ProxyServer_dtor_def)
qed

end
