(* ===== verification/ThreadMapProps.thy ===== *)
theory ThreadMapProps
  imports ThreadInv
begin

text \<open>
  Properties of the thread maps: over one connection a thread only ever works with one thread of the
  other side, in both directions, and all threads can end.
\<close>

section \<open>Steps\<close>

text \<open>
  A call by the innermost thread of a chain that is no event loop thread: no assertion fails, the only error
  is that of a missing thread map, and the thread that runs it has the caller as its entry.
\<close>

lemma build_context_broken:
  assumes "build_context name x e s = ((request, callback), s')"
  shows "request = Broken \<longleftrightarrow> request_threads (threads s x) e = Some Broken \<or>
      (request_threads (threads s x) e = None \<and> e \<notin> thread_maps s)"
  using assms
  by (cases "callback_threads (threads s x) e"; cases "request_threads (threads s x) e")
    (auto simp: build_context_def SetThread_def make_request_thread_def makeThread_def Let_def split: if_splits)

lemma begin_call_ok:
  assumes inv: "pairs_inv H s" and t: "t \<in> apps s" and x: "x = top_thread t (chains s t)"
    and op: "{e, peer e} \<subseteq> open_conns s" and wait: "has_waiter (threads s x) \<or> \<not> loop_thread (threads s x)"
  obtains G r s1 where "begin_call name x e s = Some (r, s1)" "apps s1 = apps s" "open_conns s1 = open_conns s"
    "chains s1 = chains s" "ran s1 = ran s"
    "isl r \<longleftrightarrow> request_threads (threads s x) e = Some Broken \<or>
       (request_threads (threads s x) e = None \<and> e \<notin> thread_maps s)"
    "case r of
       Inl error \<Rightarrow> error = ''Called null capability'' \<and> pairs_inv G s1 \<and> request_threads (threads s1 x) e = Some Broken
     | Inr (w, inserted) \<Rightarrow>
         pairs_inv G (s1\<lparr>chains := (chains s1)(t :=
             \<lparr>f_caller = x, f_conn = e, f_exec = w, f_inserted = inserted\<rparr> # chains s1 t), ran := (x, e, w) # ran s1\<rparr>) \<and>
         (inserted \<longleftrightarrow> w \<notin> insert t (execs (chains s t))) \<and>
         request_threads (threads s1 w) (peer e) = Some (Thread_cap e x)"
proof -
  have below: "x < next_thread s" using member_below [OF inv t, of x] top_thread_in x by simp
  obtain th where th: "client_thread (name x) (threads s x) = Some th"
    "pairs_inv H (s\<lparr>threads := (threads s)(x := th)\<rparr>)" "request_threads th = request_threads (threads s x)"
    by (rule client_thread_ok [OF inv below _ wait]) (use chain_lives [OF inv t, of x] x top_thread_in in simp)
  let ?s = "s\<lparr>threads := (threads s)(x := th)\<rparr>"
  have waits: "has_waiter (threads ?s x)"
    using th(1) by (auto simp: client_thread_def split: if_splits)
  obtain request callback s2 where b: "build_context name x e ?s = ((request, callback), s2)"
    by (metis prod.collapse)
  obtain G where G: "pairs_inv G s2" "callback = Thread_cap e x" "request_threads (threads s2 x) e = Some request"
    "apps s2 = apps s" "open_conns s2 = open_conns s" "chains s2 = chains s" "ran s2 = ran s"
    using build_context_ok [OF th(2) _ _ _ waits b] t x op by auto
  have broken: "request = Broken \<longleftrightarrow> request_threads (threads s x) e = Some Broken \<or>
      (request_threads (threads s x) e = None \<and> e \<notin> thread_maps s)"
    using build_context_broken [OF b] th(3) by simp
  have call: "begin_call name x e s =
      Some (case find_thread (peer e) request of
              Inl error \<Rightarrow> (Inl error, s2)
            | Inr w \<Rightarrow> (case enter_request w (peer e) callback s2 of (inserted, s) \<Rightarrow> (Inr (w, inserted), s)))"
    using th(1) b by (simp add: begin_call_def)
  show ?thesis
  proof (cases request)
    case Broken
    then show ?thesis
      using that [of "Inl ''Called null capability''" s2 G] call G broken by (simp add: find_thread_def)
  next
    case (Thread_cap d w)
    have cap: "request_threads (threads s2 x) e = Some (Thread_cap d w)" using G(3) Thread_cap by simp
    have d: "d = peer e" "paired G x e w" using request_sound [OF pairs_invD(2) [OF G(1)] cap] by blast+
    obtain inserted s3 where e: "enter_request w (peer e) (Thread_cap e x) s2 = (inserted, s3)"
      by (metis prod.collapse)
    have t2: "t \<in> apps s2" "x = top_thread t (chains s2 t)" "{e, peer e} \<subseteq> open_conns s2"
      using G t x op by simp_all
    note partner = partner_chain [OF G(1) t2 d(2)]
    have same: "apps s3 = apps s" "open_conns s3 = open_conns s" "chains s3 = chains s" "ran s3 = ran s"
      using e G by (auto simp: enter_request_def SetThread_def split: option.splits)
    have ins: "inserted \<longleftrightarrow> w \<notin> insert t (execs (chains s2 t))"
      and entry: "request_threads (threads s3 w) (peer e) = Some (Thread_cap e x)"
      using e partner(1) by (auto simp: enter_request_def SetThread_def split: option.splits if_splits)
    show ?thesis
      using that [of "Inr (w, inserted)" s3 G] broken call Thread_cap d(1) e G(2,6) same enter_ok [OF G(1) t2 cap e] ins entry
      by (simp add: find_thread_def)
  qed
qed

lemma threads_step_inv:
  assumes "threads_step name s s'" and "\<exists>H. pairs_inv H s"
  shows "\<exists>H. pairs_inv H s'"
proof -
  obtain H where H: "pairs_inv H s" using assms(2) by blast
  show ?thesis
    using assms(1)
  proof cases
    case new_app
    then show ?thesis using new_app_ok [OF H] by blast
  next
    case (get_map e)
    then have "pairs_inv H s'"
      using H by (simp add: pairs_inv_def read_thread_map_def)
    then show ?thesis by blast
  next
    case (call t e x w inserted s1)
    show ?thesis
      by (rule begin_call_ok [OF H call(2,4,3), of name]) (use call in auto)
  next
    case (call_fails t e x error)
    show ?thesis
      by (rule begin_call_ok [OF H call_fails(1,3,2), of name]) (use call_fails in auto)
  next
    case (loop_starts t)
    then show ?thesis using loop_entered_ok [OF H] by blast
  next
    case (loop_ends t)
    then show ?thesis using loop_left_ok [OF H] by blast
  next
    case (return t f fs)
    then show ?thesis using leave_ok [OF H] by blast
  next
    case (thread_ends t)
    then show ?thesis using app_exit_ok [OF H] by blast
  next
    case (worker_ends w)
    then show ?thesis using worker_exit_ok [OF H] by fastforce
  next
    case (disconnect e)
    then show ?thesis using connection_gone_ok [OF H] by blast
  qed
qed

interpretation thread_pairs: transition_invariant "\<lambda>s. s = start_threads" "threads_step name" "\<lambda>s. \<exists>H. pairs_inv H s" for name
proof
  have "pairs_inv (\<lambda>_. None) start_threads"
    by (simp add: start_threads_def pairs_inv_def homes_ok_def maps_ok_def chains_ok_def threads_ok_def ended_ok_def no_thread_def)
  then show "\<exists>H. pairs_inv H s" if "s = start_threads" for s using that by blast
qed (rule threads_step_inv)

section \<open>The end of all threads\<close>

lemma calls_end:
  "\<exists>u. (threads_step name)\<^sup>*\<^sup>* s u \<and> chains u t = [] \<and> apps u = apps s \<and> next_thread u = next_thread s"
proof (induction "chains s t" arbitrary: s)
  case Nil
  then show ?case by (metis rtranclp.rtrancl_refl)
next
  case (Cons f fs)
  let ?u = "(leave_request (f_exec f) (peer (f_conn f)) (f_inserted f) s)\<lparr>chains := (chains s)(t := fs)\<rparr>"
  have step: "threads_step name s ?u" using Cons.hyps(2) by (intro threads_step.return) simp
  have same: "apps ?u = apps s" "next_thread ?u = next_thread s" by (simp_all add: leave_request_def)
  obtain v where "(threads_step name)\<^sup>*\<^sup>* ?u v" "chains v t = []" "apps v = apps ?u" "next_thread v = next_thread ?u"
    using Cons.hyps(1) [of ?u] by auto
  then show ?case using same converse_rtranclp_into_rtranclp [where r = "threads_step name", OF step] by (intro exI [of _ v]) simp
qed

lemma apps_end:
  assumes "finite (apps s)"
  shows "\<exists>u. (threads_step name)\<^sup>*\<^sup>* s u \<and> apps u = {} \<and> next_thread u = next_thread s"
  using assms
proof (induction "card (apps s)" arbitrary: s)
  case 0
  then show ?case by auto
next
  case (Suc n)
  obtain t where t: "t \<in> apps s" using Suc.hyps(2) by (metis card.empty equals0I nat.distinct(1))
  obtain s1 where s1: "(threads_step name)\<^sup>*\<^sup>* s s1" "chains s1 t = []" "apps s1 = apps s" "next_thread s1 = next_thread s"
    using calls_end by blast
  obtain u where u: "(threads_step name)\<^sup>*\<^sup>* s u" "chains u t = []" "apps u = apps s" "next_thread u = next_thread s"
    "\<not> loop_thread (threads u t)"
  proof (cases "loop_thread (threads s1 t)")
    case True
    then have "threads_step name s1 (loop_left t s1)" using t s1(3) by (intro threads_step.loop_ends) simp_all
    then show ?thesis
      using rtranclp.rtrancl_into_rtrancl [OF s1(1)] s1(2-4) by (intro that [of "loop_left t s1"]) (simp_all add: loop_left_def)
  qed (use that s1 in blast)
  have step: "threads_step name u (thread_exit t u)" using t u by (intro threads_step.thread_ends) simp_all
  have same: "apps (thread_exit t u) = apps s - {t}" "next_thread (thread_exit t u) = next_thread s"
    using u by (simp_all add: thread_exit_def)
  then have "n = card (apps (thread_exit t u))" "finite (apps (thread_exit t u))"
    using Suc.hyps(2) Suc.prems t by simp_all
  from Suc.hyps(1) [OF this] obtain v where v: "(threads_step name)\<^sup>*\<^sup>* (thread_exit t u) v" "apps v = {}"
    "next_thread v = next_thread s" using same by auto
  have "(threads_step name)\<^sup>*\<^sup>* s v"
    using u(1) converse_rtranclp_into_rtranclp [where r = "threads_step name", OF step v(1)] by (rule rtranclp_trans)
  then show ?case using v by blast
qed

text \<open>Without threads of the program, the worker that was made first can end.\<close>

lemma first_worker:
  assumes inv: "pairs_inv H s" and none: "apps s = {}" and w: "w < next_thread s" "w \<notin> ended s"
    and first: "\<And>x. x < w \<Longrightarrow> x \<in> ended s"
  shows "\<not> running s w" "\<not> worker_used s w"
proof -
  have idle: "\<not> running s z" for z
    using pairs_invD(3) [OF inv] none by (simp add: running_def chains_ok_def)
  then show "\<not> running s w" .
  show "\<not> worker_used s w"
  proof
    assume "worker_used s w"
    then obtain z d b where entry: "request_threads (threads s z) d = Some (Thread_cap b w)"
      by (auto simp: worker_used_def)
    then have b: "b = peer d" "paired H z d w" using request_sound [OF pairs_invD(2) [OF inv]] by blast+
    from b(2) consider "H w = Some (d, z)" | "H z = Some (peer d, w)" by (auto simp: paired_def)
    then show False
    proof cases
      case 1
      then have "z < w" by (rule homesD(4) [OF pairs_invD(1) [OF inv]])
      then have "threads s z = no_thread" using first endedD(1) [OF pairs_invD(5) [OF inv]] by blast
      then show False using entry by (simp add: no_thread_def)
    next
      case 2
      then have "running s z" using request_running [OF pairs_invD(2) [OF inv] 2] entry by simp
      then show False using idle by simp
    qed
  qed
qed

lemma workers_end:
  assumes "\<exists>H. pairs_inv H s" "apps s = {}"
  shows "\<exists>u. (threads_step name)\<^sup>*\<^sup>* s u \<and> ended u = {..<next_thread u} \<and> next_thread u = next_thread s"
  using assms
proof (induction "card ({..<next_thread s} - ended s)" arbitrary: s)
  case 0
  then obtain H where "pairs_inv H s" by blast
  then have "ended s \<subseteq> {..<next_thread s}" using endedD(1) [OF pairs_invD(5)] by blast
  moreover have "{..<next_thread s} \<subseteq> ended s" using 0 by simp
  ultimately show ?case by blast
next
  case (Suc n)
  obtain H where H: "pairs_inv H s" using Suc.prems(1) by blast
  define w where "w = (LEAST w. w < next_thread s \<and> w \<notin> ended s)"
  have "{..<next_thread s} - ended s \<noteq> {}" using Suc.hyps(2) by (metis card.empty nat.distinct(1))
  then obtain z where "z < next_thread s \<and> z \<notin> ended s" by blast
  then have w: "w < next_thread s" "w \<notin> ended s" unfolding w_def by (metis (mono_tags, lifting) LeastI)+
  have first: "x \<in> ended s" if "x < w" for x
    using not_less_Least [of x "\<lambda>w. w < next_thread s \<and> w \<notin> ended s"] that w(1) unfolding w_def [symmetric] by simp
  note end_ok = first_worker [OF H Suc.prems(2) w first]
  have exit: "worker_exit w s = Some (thread_exit w s)" and inv: "\<exists>H. pairs_inv H (thread_exit w s)"
    using worker_exit_ok [OF H w(1) _ end_ok] w(2) Suc.prems(2) by auto
  have step: "threads_step name s (thread_exit w s)"
    by (rule threads_step.worker_ends [OF w(1) _ end_ok exit]) (use w(2) Suc.prems(2) in simp)
  have same: "next_thread (thread_exit w s) = next_thread s" "ended (thread_exit w s) = insert w (ended s)"
    "apps (thread_exit w s) = {}" using Suc.prems(2) by (simp_all add: thread_exit_def)
  have "{..<next_thread s} - insert w (ended s) = ({..<next_thread s} - ended s) - {w}" by blast
  then have "n = card ({..<next_thread (thread_exit w s)} - ended (thread_exit w s))"
    using Suc.hyps(2) w unfolding same by simp
  from Suc.hyps(1) [OF this inv same(3)] same obtain u where
    "(threads_step name)\<^sup>*\<^sup>* (thread_exit w s) u" "ended u = {..<next_thread u}" "next_thread u = next_thread s" by auto
  then show ?case using converse_rtranclp_into_rtranclp [where r = "threads_step name", OF step] by blast
qed

section \<open>Properties\<close>

text \<open>
  C6. Threads work in pairs: over one connection, all calls of a thread that have a \<open>Context\<close> are run by one
  thread of the other side, and the calls that this thread makes over the connection are run by the
  first one, as they would be on one local stack.
\<close>

theorem threads_paired:
  assumes "(threads_step name)\<^sup>*\<^sup>* start_threads s" and "(x, e, y) \<in> set (ran s)"
  shows "((x, e, z) \<in> set (ran s) \<longrightarrow> z = y) \<and> ((y, peer e, z) \<in> set (ran s) \<longrightarrow> z = x)"
proof -
  obtain H where H: "pairs_inv H s" using thread_pairs.reachable_inv [OF refl assms(1)] by blast
  note homes = pairs_invD(1) [OF H]
  have p: "paired H a d b" if "(a, d, b) \<in> set (ran s)" for a d b using pairs_invD(6) [OF H that] .
  have fwd: "z = y" if z: "paired H x e z" "paired H x e y" for x e y z
    using z homesD(2) [OF homes, of y "(e, x)" z] homesD(3) [OF homes, of x e]
    by (auto simp: paired_def)
  have sym: "paired H y (peer e) x" using p [OF assms(2)] by (auto simp: paired_def)
  show ?thesis
  proof (intro conjI impI)
    assume "(x, e, z) \<in> set (ran s)"
    then show "z = y" by (rule fwd [OF p p [OF assms(2)]])
  next
    assume "(y, peer e, z) \<in> set (ran s)"
    then show "z = x" by (rule fwd [OF p sym])
  qed
qed

text \<open>
  C21. A call with a \<open>Context\<close> over an open connection, at any moment. An assertion fails exactly when the
  caller is an event loop thread without a waiter. Otherwise the call fails exactly when the caller has kept a
  broken entry, or has no entry and the thread map of the other side is missing, and it leaves a broken entry; in all
  other cases some thread runs it and has the thread of the caller as its partner for callbacks. That thread makes
  an entry for it exactly when it is not already part of the chain of calls; otherwise its entry is already the caller.
\<close>

theorem context_threads:
  assumes "(threads_step name)\<^sup>*\<^sup>* start_threads s" and "t \<in> apps s" and "{e, peer e} \<subseteq> open_conns s"
    and "x = top_thread t (chains s t)"
  shows "(begin_call name x e s = None \<longleftrightarrow> loop_thread (threads s x) \<and> \<not> has_waiter (threads s x)) \<and>
    (\<forall>r s'. begin_call name x e s = Some (r, s') \<longrightarrow>
    (isl r \<longleftrightarrow> request_threads (threads s x) e = Some Broken \<or>
       (request_threads (threads s x) e = None \<and> e \<notin> thread_maps s)) \<and>
    (case r of
       Inl error \<Rightarrow> error = ''Called null capability'' \<and> request_threads (threads s' x) e = Some Broken
     | Inr (w, inserted) \<Rightarrow>
         request_threads (threads s' w) (peer e) = Some (Thread_cap e x) \<and>
         (inserted \<longleftrightarrow> w \<notin> insert t (f_exec ` set (chains s t)))))"
proof -
  obtain H where H: "pairs_inv H s" using thread_pairs.reachable_inv [OF refl assms(1)] by blast
  show ?thesis
  proof (cases "loop_thread (threads s x) \<and> \<not> has_waiter (threads s x)")
    case True
    then have "begin_call name x e s = None"
      using client_thread_fails [OF H, of "name x" x] by (simp add: begin_call_def)
    then show ?thesis using True by simp
  next
    case False
    then have wait: "has_waiter (threads s x) \<or> \<not> loop_thread (threads s x)" by blast
    show ?thesis
      by (rule begin_call_ok [OF H assms(2,4,3) wait, of name]) (use False in \<open>auto split: sum.splits\<close>)
  qed
qed

text \<open>
  C22. No thread is kept for ever: from any moment, calls can return, the threads of the program can end, and
  then all worker threads that were made for them, on all sides, the ones made first before the ones that
  these made. No assertion in the destructors of their servers fails.
\<close>

theorem threads_end:
  assumes "(threads_step name)\<^sup>*\<^sup>* start_threads s"
  shows "\<exists>t. (threads_step name)\<^sup>*\<^sup>* s t \<and> ended t = {..<next_thread s} \<and> next_thread t = next_thread s"
proof -
  obtain H where H: "pairs_inv H s" using thread_pairs.reachable_inv [OF refl assms] by blast
  have "apps s \<subseteq> {..<next_thread s}" using pairs_invD(4) [OF H] by (auto simp: threads_ok_def)
  then have "finite (apps s)" by (rule finite_subset) simp
  then obtain u where u: "(threads_step name)\<^sup>*\<^sup>* s u" "apps u = {}" "next_thread u = next_thread s"
    using apps_end by blast
  have "\<exists>H. pairs_inv H u" using thread_pairs.reachable_inv [OF refl rtranclp_trans [OF assms u(1)]] .
  from workers_end [OF this u(2)] obtain t where "(threads_step name)\<^sup>*\<^sup>* u t" "ended t = {..<next_thread t}"
    "next_thread t = next_thread u" by blast
  then show ?thesis using u rtranclp_trans [OF u(1)] by (intro exI [of _ t]) simp
qed

text \<open>
  A thread that makes a call before the thread map of the other side has arrived gets an error, and
  keeps the broken capability: all its later calls over the connection fail in the same way, also after
  the thread map has arrived.
\<close>

theorem missing_thread_map_sticks:
  assumes "has_waiter (threads s x)" and "e \<notin> thread_maps s" and "request_threads (threads s x) e = None"
  shows "\<exists>s'. begin_call name x e s = Some (Inl ''Called null capability'', s') \<and>
    (\<forall>ms. \<exists>s''. begin_call name x e (s'\<lparr>thread_maps := ms\<rparr>) = Some (Inl ''Called null capability'', s''))"
  using assms
  by (cases "callback_threads (threads s x) e")
    (simp_all add: begin_call_def client_thread_def build_context_def SetThread_def make_request_thread_def find_thread_def)

section \<open>Examples\<close>

text \<open>A thread calls; the worker calls back; the callback calls again.\<close>

definition next_call :: "(nat \<Rightarrow> string) \<Rightarrow> nat \<Rightarrow> conn \<Rightarrow> threads_state \<Rightarrow> threads_state" where
  "next_call name t e s =
     (let x = top_thread t (chains s t)
      in case begin_call name x e s of
           Some (Inr (w, inserted), s') \<Rightarrow>
             s'\<lparr>chains := (chains s')(t := \<lparr>f_caller = x, f_conn = e, f_exec = w, f_inserted = inserted\<rparr> # chains s' t),
                ran := (x, e, w) # ran s'\<rparr>
         | _ \<Rightarrow> s)"

definition call_runs :: "(nat \<Rightarrow> string) \<Rightarrow> nat \<Rightarrow> conn \<Rightarrow> threads_state \<Rightarrow> bool" where
  "call_runs name t e s =
     (case begin_call name (top_thread t (chains s t)) e s of Some (Inr _, _) \<Rightarrow> True | _ \<Rightarrow> False)"

lemma next_call_step:
  assumes "(threads_step name)\<^sup>*\<^sup>* start_threads s" "t \<in> apps s" "{e, peer e} \<subseteq> open_conns s" "call_runs name t e s"
    "\<not> loop_thread (threads s (top_thread t (chains s t)))"
  shows "(threads_step name)\<^sup>*\<^sup>* start_threads (next_call name t e s)"
proof -
  obtain w inserted s' where c: "begin_call name (top_thread t (chains s t)) e s = Some (Inr (w, inserted), s')"
    using assms(4) by (auto simp: call_runs_def split: option.splits sum.splits prod.splits)
  have "threads_step name s (next_call name t e s)"
    using threads_step.call [OF assms(2,3) refl assms(5) c] by (simp add: next_call_def c Let_def)
  then show ?thesis using assms(1) by (rule rtranclp.rtrancl_into_rtrancl [rotated])
qed

definition threads_ready :: threads_state where
  "threads_ready = start_threads\<lparr>next_thread := 1, apps := {0}, thread_maps := {Side 0 False}\<rparr>"

lemma threads_ready_reachable: "(threads_step name)\<^sup>*\<^sup>* start_threads threads_ready"
proof -
  have "threads_step name start_threads (start_threads\<lparr>next_thread := 1, apps := {0}\<rparr>)"
    using threads_step.new_app [of name start_threads] by (simp add: start_threads_def)
  moreover have "threads_step name (start_threads\<lparr>next_thread := 1, apps := {0}\<rparr>) threads_ready"
    using threads_step.get_map [of name "start_threads\<lparr>next_thread := 1, apps := {0}\<rparr>" "Side 0 False"]
    by (simp add: start_threads_def threads_ready_def read_thread_map_def)
  ultimately show ?thesis by simp
qed

abbreviation sample_name :: "nat \<Rightarrow> string" where "sample_name \<equiv> \<lambda>_. ''t''"

definition threads_nested :: threads_state where
  "threads_nested = next_call sample_name 0 (Side 0 False) (next_call sample_name 0 (Side 0 True)
     (next_call sample_name 0 (Side 0 False) threads_ready))"

lemmas run_defs = call_runs_def next_call_def threads_ready_def threads_nested_def start_threads_def
  no_thread_def begin_call_def client_thread_def build_context_def SetThread_def make_request_thread_def
  makeThread_def find_thread_def enter_request_def top_thread_def Let_def

lemma threads_nested_reachable: "(threads_step sample_name)\<^sup>*\<^sup>* start_threads threads_nested"
  unfolding threads_nested_def
  by (intro next_call_step threads_ready_reachable) (simp_all add: run_defs)

lemma ran_nested: "ran threads_nested = [(0, Side 0 False, 1), (1, Side 0 True, 0), (0, Side 0 False, 1)]"
  by (simp add: run_defs)

theorem threads_paired_witness:
  "{z. (0, Side 0 False, z) \<in> set (ran threads_nested)} = {1} \<and>
   {z. (1, Side 0 True, z) \<in> set (ran threads_nested)} = {0}"
proof -
  have *: "(0, Side 0 False, 1) \<in> set (ran threads_nested)" "(1, Side 0 True, 0) \<in> set (ran threads_nested)"
    by (simp_all add: ran_nested)
  show ?thesis
    using threads_paired [OF threads_nested_reachable *(1)] * by (auto simp del: One_nat_def)
qed

text \<open>
  In the nested state the worker calls back and the thread of the program gets the call without a new entry; a thread
  that runs the event loop and makes a first call fails the assertion.
\<close>

theorem context_threads_witness:
  "\<exists>s'. begin_call sample_name 1 (Side 0 True) threads_nested = Some (Inr (0, False), s') \<and>
     request_threads (threads s' 0) (Side 0 False) = Some (Thread_cap (Side 0 True) 1)"
proof -
  have "\<exists>s'. begin_call sample_name 1 (Side 0 True) threads_nested = Some (Inr (0, False), s')"
    by (simp add: run_defs)
  then show ?thesis
    using context_threads [OF threads_nested_reachable, of 0 "Side 0 True" 1] by (auto simp: run_defs)
qed

lemma loop_thread_call_fails:
  "map_option (\<lambda>s. begin_call sample_name 0 (Side 0 False) s) (loop_entered 0 threads_ready) = Some None"
  by (simp add: run_defs loop_entered_def)

theorem threads_end_witness:
  "\<exists>t. (threads_step sample_name)\<^sup>*\<^sup>* threads_nested t \<and> ended t = {0, 1}"
proof -
  have "next_thread threads_nested = 2" by (simp add: run_defs)
  moreover have "{..<2 :: nat} = {0, 1}" by auto
  ultimately show ?thesis using threads_end [OF threads_nested_reachable] by auto
qed

theorem missing_thread_map_sticks_witness:
  "\<exists>s'. begin_call sample_name 1 (Side 1 True) threads_nested = Some (Inl ''Called null capability'', s')"
  using missing_thread_map_sticks [of threads_nested 1 "Side 1 True" sample_name] by (auto simp: run_defs)

end
