(* ===== verification/Interfaces.thy ===== *)
theory Interfaces
  imports Prelude
begin

text \<open>
  Objects that are passed as interfaces: the field handlers of \<open>include/mp/type-interface.h\<close> and
  \<open>include/mp/type-function.h\<close>, the server objects that hold the implementations and the client
  objects that refer to them. What is destroyed, when, and how often.
\<close>

section \<open>State\<close>

text \<open>
  Objects, servers and clients have numbers. \<open>uniques\<close> are the \<open>unique_ptr\<close> variables that are not
  null, \<open>handles\<close> the \<open>shared_ptr\<close> variables, one entry for each; a server has the pointer \<open>m_impl\<close>, with a flag that says whether
  its deleter destroys the object. \<open>messages\<close> are the servers that messages refer to, \<open>proxies\<close> the
  client objects with the server behind them, \<open>calls\<close> the servers that requests in execution keep,
  \<open>jobs\<close> the pointers that were handed to the asynchronous thread. \<open>gone\<close> records the objects that were destroyed, in order.
\<close>

record interfaces =
  live :: "nat set"
  uniques :: "nat list"
  handles :: "nat list"
  servers :: "(nat \<times> (nat \<times> bool) option) list"
  messages :: "nat list"
  proxies :: "(nat \<times> nat) list"
  calls :: "nat list"
  jobs :: "(nat \<times> bool) list"
  gone :: "nat list"
  next_id :: nat

definition no_interfaces :: interfaces where
  "no_interfaces = \<lparr>live = {}, uniques = [], handles = [], servers = [], messages = [], proxies = [], calls = [], jobs = [],
     gone = [], next_id = 0\<rparr>"

text \<open>
  The owners of an object; without any, it is destroyed. Those that share it (\<open>std::shared_ptr\<close>) count each
  other, a \<open>unique_ptr\<close> counts nobody.
\<close>

definition shared_owned :: "nat \<Rightarrow> interfaces \<Rightarrow> bool" where
  "shared_owned i s \<longleftrightarrow> i \<in> set (handles s) \<or> Some (i, True) \<in> set (map snd (servers s)) \<or> (i, True) \<in> set (jobs s)"

definition owned :: "nat \<Rightarrow> interfaces \<Rightarrow> bool" where
  "owned i s \<longleftrightarrow> i \<in> set (uniques s) \<or> shared_owned i s"

definition settle :: "nat \<Rightarrow> interfaces \<Rightarrow> interfaces" where
  "settle i s = (if owned i s \<or> i \<notin> live s then s else s\<lparr>live := live s - {i}, gone := gone s @ [i]\<rparr>)"

definition new_object :: "interfaces \<Rightarrow> nat \<times> interfaces" where
  "new_object s =
     (let i = next_id s in (i, s\<lparr>live := insert i (live s), uniques := i # uniques s, next_id := Suc i\<rparr>))"

definition drop_unique :: "nat \<Rightarrow> interfaces \<Rightarrow> interfaces" where
  "drop_unique i s = settle i (s\<lparr>uniques := remove1 i (uniques s)\<rparr>)"

text \<open>A \<open>shared_ptr\<close> made from a \<open>unique_ptr\<close>.\<close>

definition share :: "nat \<Rightarrow> interfaces \<Rightarrow> interfaces" where
  "share i s = s\<lparr>uniques := remove1 i (uniques s), handles := i # handles s\<rparr>"

definition drop_handle :: "nat \<Rightarrow> interfaces \<Rightarrow> interfaces" where
  "drop_handle i s = settle i (s\<lparr>handles := remove1 i (handles s)\<rparr>)"

section \<open>Building fields\<close>

text \<open>A new server object, set as the capability of a field of a message.\<close>

definition MakeProxyServer :: "nat \<Rightarrow> bool \<Rightarrow> interfaces \<Rightarrow> nat \<times> interfaces" where
  "MakeProxyServer i owns s =
     (let k = next_id s
      in (k, s\<lparr>servers := (k, Some (i, owns)) # servers s, messages := k # messages s, next_id := Suc k\<rparr>))"

text \<open>
  The handlers return what the field is set to, if it is, and the variable afterwards. A \<open>unique_ptr\<close>
  is released; a \<open>shared_ptr\<close> is moved when it is an rvalue, and copied when it is an lvalue (which only compiles
  when its type has to be converted).
\<close>

definition build_unique_ptr :: "nat option \<Rightarrow> interfaces \<Rightarrow> (nat option \<times> nat option) \<times> interfaces" where
  "build_unique_ptr value s =
     (case value of
        None \<Rightarrow> ((None, None), s)
      | Some i \<Rightarrow>
          (case MakeProxyServer i True (s\<lparr>uniques := remove1 i (uniques s)\<rparr>) of
             (k, s) \<Rightarrow> ((Some k, None), s)))"

definition build_shared_ptr ::
  "bool \<Rightarrow> nat option \<Rightarrow> interfaces \<Rightarrow> (nat option \<times> nat option) \<times> interfaces" where
  "build_shared_ptr rvalue value s =
     (case value of
        None \<Rightarrow> ((None, None), s)
      | Some i \<Rightarrow>
          (case MakeProxyServer i True (if rvalue then s\<lparr>handles := remove1 i (handles s)\<rparr> else s) of
             (k, s) \<Rightarrow> ((Some k, if rvalue then None else Some i), s)))"

definition build_reference :: "nat \<Rightarrow> interfaces \<Rightarrow> nat \<times> interfaces" where
  "build_reference i s = MakeProxyServer i False s"

text \<open>A \<open>std::function\<close> that is not empty is copied into a new \<open>ProxyCallbackImpl\<close>.\<close>

definition build_function :: "bool \<Rightarrow> interfaces \<Rightarrow> nat option \<times> interfaces" where
  "build_function callable s =
     (if callable
      then (case new_object s of (i, s) \<Rightarrow>
              (case MakeProxyServer i True (s\<lparr>uniques := remove1 i (uniques s)\<rparr>) of (k, s) \<Rightarrow> (Some k, s)))
      else (None, s))"

section \<open>Reading fields\<close>

definition MakeProxyClient :: "nat \<Rightarrow> interfaces \<Rightarrow> nat \<times> interfaces" where
  "MakeProxyClient k s =
     (let c = next_id s in (c, s\<lparr>proxies := (c, k) # proxies s, next_id := Suc c\<rparr>))"

text \<open>The same code reads \<open>unique_ptr\<close>, \<open>shared_ptr\<close> and, inside a \<open>ProxyCallFn\<close>, \<open>std::function\<close>.\<close>

definition read_interface :: "nat option \<Rightarrow> interfaces \<Rightarrow> nat option \<times> interfaces" where
  "read_interface field s =
     (case field of
        None \<Rightarrow> (None, s)
      | Some k \<Rightarrow> (case MakeProxyClient k s of (c, s) \<Rightarrow> (Some c, s)))"

section \<open>Destruction\<close>

text \<open>
  The destructor of a server, which runs when nothing refers to it, hands its implementation to the
  asynchronous thread; \<open>invokeDestroy\<close> resets it at once.
\<close>

definition impl_of :: "nat \<Rightarrow> interfaces \<Rightarrow> (nat \<times> bool) option" where
  "impl_of k s = (case map_of (servers s) k of Some (Some p) \<Rightarrow> Some p | _ \<Rightarrow> None)"

definition server_dtor :: "nat \<Rightarrow> interfaces \<Rightarrow> interfaces" where
  "server_dtor k s =
     s\<lparr>servers := filter (\<lambda>x. fst x \<noteq> k) (servers s),
       jobs := jobs s @ (case impl_of k s of None \<Rightarrow> [] | Some p \<Rightarrow> [p])\<rparr>"

definition referenced :: "nat \<Rightarrow> interfaces \<Rightarrow> bool" where
  "referenced k s \<longleftrightarrow> k \<in> set (messages s) \<or> k \<in> snd ` set (proxies s) \<or> k \<in> set (calls s)"

definition release_server :: "nat \<Rightarrow> interfaces \<Rightarrow> interfaces" where
  "release_server k s = (if referenced k s then s else server_dtor k s)"

definition message_freed :: "nat \<Rightarrow> interfaces \<Rightarrow> interfaces" where
  "message_freed k s = release_server k (s\<lparr>messages := remove1 k (messages s)\<rparr>)"

definition reset_impl :: "nat \<times> bool \<Rightarrow> interfaces \<Rightarrow> interfaces" where
  "reset_impl p s = (if snd p then settle (fst p) s else s)"

definition invoke_destroy :: "nat \<Rightarrow> interfaces \<Rightarrow> interfaces" where
  "invoke_destroy k s =
     (case impl_of k s of
        None \<Rightarrow> s
      | Some p \<Rightarrow> reset_impl p (s\<lparr>servers := map (\<lambda>x. if fst x = k then (k, None) else x) (servers s)\<rparr>))"

definition run_job :: "interfaces \<Rightarrow> interfaces" where
  "run_job s = (case jobs s of [] \<Rightarrow> s | p # ps \<Rightarrow> reset_impl p (s\<lparr>jobs := ps\<rparr>))"

text \<open>
  The destructor of a client calls the \<open>destroy\<close> method, when the interface defines one, and drops its
  capability. A client that has lost its connection has none.
\<close>

definition client_destroyed :: "bool \<Rightarrow> nat \<Rightarrow> interfaces \<Rightarrow> interfaces" where
  "client_destroyed has_destroy c s =
     (case map_of (proxies s) c of
        None \<Rightarrow> s
      | Some k \<Rightarrow>
          release_server k ((if has_destroy then invoke_destroy k s else s)\<lparr>
            proxies := filter (\<lambda>x. fst x \<noteq> c) (proxies s)\<rparr>))"

text \<open>
  A request that runs on a worker thread keeps its server, \<open>self\<close>, and drops it on the event loop
  when it is done. A disconnect drops all other references, and the servers that are not kept.
\<close>

definition call_started :: "nat \<Rightarrow> interfaces \<Rightarrow> interfaces" where
  "call_started k s = s\<lparr>calls := k # calls s\<rparr>"

definition call_ended :: "nat \<Rightarrow> interfaces \<Rightarrow> interfaces" where
  "call_ended k s = release_server k (s\<lparr>calls := remove1 k (calls s)\<rparr>)"

definition interfaces_lost :: "interfaces \<Rightarrow> interfaces" where
  "interfaces_lost s =
     s\<lparr>messages := [], proxies := [], servers := filter (\<lambda>x. fst x \<in> set (calls s)) (servers s),
       jobs := jobs s @ concat (map (\<lambda>x. case snd x of None \<Rightarrow> [] | Some p \<Rightarrow> [p])
         (filter (\<lambda>x. fst x \<notin> set (calls s)) (servers s)))\<rparr>"

text \<open>
  \<open>PassField\<close> of an argument that is a reference to an interface: a temporary client, which goes when the
  method has returned or thrown.
\<close>

definition PassField_interface ::
  "bool \<Rightarrow> nat \<Rightarrow> (nat \<Rightarrow> interfaces \<Rightarrow> 'r \<times> interfaces) \<Rightarrow> interfaces \<Rightarrow> 'r \<times> interfaces" where
  "PassField_interface has_destroy k fn_invoke s =
     (case MakeProxyClient k s of
        (c, s) \<Rightarrow> (case fn_invoke c s of (r, s) \<Rightarrow> (r, client_destroyed has_destroy c s)))"

section \<open>Steps\<close>

text \<open>Only pointers that the program has are built into fields, and only live servers are read.\<close>

inductive interface_step :: "interfaces \<Rightarrow> interfaces \<Rightarrow> bool" where
  new: "interface_step s (snd (new_object s))"
| lend: "i \<in> set (uniques s) \<Longrightarrow> interface_step s (share i s)"
| drop_one: "i \<in> set (uniques s) \<Longrightarrow> interface_step s (drop_unique i s)"
| copy: "i \<in> set (handles s) \<Longrightarrow> interface_step s (s\<lparr>handles := i # handles s\<rparr>)"
| drop: "i \<in> set (handles s) \<Longrightarrow> interface_step s (drop_handle i s)"
| unique: "i \<in> set (uniques s) \<Longrightarrow> interface_step s (snd (build_unique_ptr (Some i) s))"
| shared: "i \<in> set (handles s) \<Longrightarrow> interface_step s (snd (build_shared_ptr rvalue (Some i) s))"
| reference: "i \<in> set (uniques s) \<union> set (handles s) \<Longrightarrow> interface_step s (snd (build_reference i s))"
| callback: "interface_step s (snd (build_function callable s))"
| read: "k \<in> set (messages s) \<Longrightarrow> interface_step s (snd (read_interface (Some k) s))"
| freed: "k \<in> set (messages s) \<Longrightarrow> interface_step s (message_freed k s)"
| destroyed: "interface_step s (client_destroyed has_destroy c s)"
| destroy_call: "interface_step s (invoke_destroy k s)"
| call_start: "referenced k s \<Longrightarrow> interface_step s (call_started k s)"
| call_end: "k \<in> set (calls s) \<Longrightarrow> interface_step s (call_ended k s)"
| job: "interface_step s (run_job s)"
| lost: "interface_step s (interfaces_lost s)"

inductive_cases interface_stepE: "interface_step s t"

section \<open>The invariant\<close>

text \<open>An object is alive exactly as long as it has an owner, and is not destroyed before.\<close>

definition owners_inv :: "interfaces \<Rightarrow> bool" where
  "owners_inv s \<longleftrightarrow>
     (\<forall>i. i \<in> live s \<longleftrightarrow> owned i s) \<and> distinct (gone s) \<and> live s \<inter> set (gone s) = {} \<and>
     (\<forall>i \<in> live s \<union> set (gone s) \<union> fst ` set (servers s). i < next_id s) \<and> distinct (map fst (servers s))"

text \<open>An owner of \<open>i\<close> may have gone.\<close>

definition owners_but :: "nat \<Rightarrow> interfaces \<Rightarrow> bool" where
  "owners_but i s \<longleftrightarrow>
     (\<forall>j. owned j s \<longrightarrow> j \<in> live s) \<and> (\<forall>j. j \<in> live s \<longrightarrow> owned j s \<or> j = i) \<and>
     distinct (gone s) \<and> live s \<inter> set (gone s) = {} \<and>
     (\<forall>i \<in> live s \<union> set (gone s) \<union> fst ` set (servers s). i < next_id s) \<and> distinct (map fst (servers s))"

lemmas owned_defs = owned_def shared_owned_def

lemma owned_upd [simp]:
  "owned i (s\<lparr>live := l\<rparr>) = owned i s" "owned i (s\<lparr>gone := g\<rparr>) = owned i s"
  "owned i (s\<lparr>messages := ms\<rparr>) = owned i s" "owned i (s\<lparr>proxies := ps\<rparr>) = owned i s"
  "owned i (s\<lparr>next_id := n\<rparr>) = owned i s" "owned i (s\<lparr>calls := cs\<rparr>) = owned i s"
  by (simp_all add: owned_defs)

lemma settle_ok: "owners_but i s \<Longrightarrow> owners_inv (settle i s)"
  by (auto simp: owners_but_def owners_inv_def settle_def)

lemma owners_inv_but: "owners_inv s \<Longrightarrow> owners_but i s"
  by (auto simp: owners_but_def owners_inv_def)

lemma owners_cong:
  assumes "owners_inv s" "\<And>i. owned i t = owned i s" "live t = live s" "gone t = gone s"
    "next_id s \<le> next_id t" "fst ` set (servers t) \<subseteq> fst ` set (servers s)" "distinct (map fst (servers t))"
  shows "owners_inv t"
proof -
  have "i < next_id t" if "i \<in> live t \<union> set (gone t) \<union> fst ` set (servers t)" for i
  proof -
    have "i \<in> live s \<union> set (gone s) \<union> fst ` set (servers s)" using that assms(6) unfolding assms(3,4) by blast
    then have "i < next_id s" using assms(1) by (simp add: owners_inv_def)
    then show ?thesis using assms(5) by simp
  qed
  then show ?thesis using assms(1-4,7) by (simp add: owners_inv_def)
qed

lemma new_object_ok:
  assumes "owners_inv s"
  shows "owners_inv (snd (new_object s))"
proof -
  let ?t = "s\<lparr>live := insert (next_id s) (live s), uniques := next_id s # uniques s, next_id := Suc (next_id s)\<rparr>"
  have "owned j ?t \<longleftrightarrow> owned j s \<or> j = next_id s" for j by (auto simp: owned_defs)
  moreover have "next_id s \<notin> set (gone s)" using assms unfolding owners_inv_def by blast
  ultimately have "owners_inv ?t"
    using assms by (auto simp: owners_inv_def less_SucI)
  then show ?thesis by (simp add: new_object_def Let_def)
qed

lemma MakeProxyServer_ok:
  assumes inv: "owners_inv s" and o: "\<And>j. owned j s' \<or> (owns \<and> j = i) \<longleftrightarrow> owned j s"
    and same: "live s' = live s" "gone s' = gone s" "servers s' = servers s" "next_id s' = next_id s"
  shows "owners_inv (snd (MakeProxyServer i owns s'))"
proof -
  define t where "t = snd (MakeProxyServer i owns s')"
  have t: "t = s'\<lparr>servers := (next_id s, Some (i, owns)) # servers s, messages := next_id s # messages s',
      next_id := Suc (next_id s)\<rparr>"
    using same by (simp add: t_def MakeProxyServer_def Let_def)
  have "owned j t \<longleftrightarrow> owned j s' \<or> (owns \<and> j = i)" for j
    using same(3) by (auto simp: t owned_defs)
  then have "owned j t \<longleftrightarrow> owned j s" for j using o by simp
  moreover have "next_id s \<notin> fst ` set (servers s)"
    using inv unfolding owners_inv_def by blast
  ultimately have "owners_inv t"
    using inv same by (simp add: owners_inv_def t less_SucI)
  then show ?thesis by (simp add: t_def)
qed

lemma owned_move:
  "i \<in> set (handles s) \<Longrightarrow> owned j (s\<lparr>handles := remove1 i (handles s)\<rparr>) \<or> (True \<and> j = i) \<longleftrightarrow> owned j s"
  "i \<in> set (uniques s) \<Longrightarrow> owned j (s\<lparr>uniques := remove1 i (uniques s)\<rparr>) \<or> (True \<and> j = i) \<longleftrightarrow> owned j s"
  by (cases "j = i"; auto simp: owned_defs in_set_remove1)+

lemma build_unique_ptr_ok:
  assumes "owners_inv s" "i \<in> set (uniques s)"
  shows "owners_inv (snd (build_unique_ptr (Some i) s))"
  using MakeProxyServer_ok [OF assms(1) owned_move(2) [OF assms(2)]]
  by (simp add: build_unique_ptr_def case_prod_beta)

lemma build_shared_ptr_ok:
  assumes "owners_inv s" "i \<in> set (handles s)"
  shows "owners_inv (snd (build_shared_ptr rvalue (Some i) s))"
proof -
  have "owned j s \<or> True \<and> j = i \<longleftrightarrow> owned j s" for j
    using assms(2) by (auto simp: owned_defs)
  from MakeProxyServer_ok [OF assms(1) this] MakeProxyServer_ok [OF assms(1) owned_move(1) [OF assms(2)]]
  show ?thesis by (simp add: build_shared_ptr_def case_prod_beta)
qed

lemma build_reference_ok:
  assumes "owners_inv s"
  shows "owners_inv (snd (build_reference i s))"
  using MakeProxyServer_ok [OF assms, of s False i] by (simp add: build_reference_def)

lemma build_function_ok:
  assumes "owners_inv s"
  shows "owners_inv (snd (build_function callable s))"
proof (cases callable)
  case True
  obtain i t where t: "new_object s = (i, t)" by (metis prod.collapse)
  then have "i \<in> set (uniques t)" by (auto simp: new_object_def Let_def)
  moreover have "owners_inv t" using new_object_ok [OF assms] t by simp
  ultimately show ?thesis
    using build_unique_ptr_ok [of t i] True t by (simp add: build_function_def build_unique_ptr_def split: prod.splits)
qed (simp add: build_function_def assms)

lemma impl_of_iff:
  assumes "distinct (map fst (servers s))"
  shows "impl_of k s = Some p \<longleftrightarrow> (k, Some p) \<in> set (servers s)"
  using map_of_eq_Some_iff [OF assms, of k "Some p"]
  by (auto simp: impl_of_def split: option.splits)

lemma owned_alt:
  "owned i s \<longleftrightarrow>
     i \<in> set (uniques s) \<or> i \<in> set (handles s) \<or> (\<exists>k. (k, Some (i, True)) \<in> set (servers s)) \<or> (i, True) \<in> set (jobs s)"
  by (force simp: owned_defs)

lemma server_dtor_ok:
  assumes "owners_inv s"
  shows "owners_inv (server_dtor k s)"
proof (rule owners_cong [OF assms])
  have d: "distinct (map fst (servers s))" using assms by (simp add: owners_inv_def)
  show "owned i (server_dtor k s) = owned i s" for i
    using impl_of_iff [OF d, of k "(i, True)"]
    by (cases "impl_of k s"; cases "impl_of k s = Some (i, True)") (auto simp: owned_alt server_dtor_def)
  show "distinct (map fst (servers (server_dtor k s)))"
    using d by (simp add: server_dtor_def distinct_map_filter)
qed (auto simp: server_dtor_def)

lemma release_server_ok: "owners_inv s \<Longrightarrow> owners_inv (release_server k s)"
  by (simp add: release_server_def server_dtor_ok)

lemma owners_inv_refs [simp]:
  "owners_inv (s\<lparr>messages := ms\<rparr>) = owners_inv s" "owners_inv (s\<lparr>proxies := ps\<rparr>) = owners_inv s"
  "owners_inv (s\<lparr>calls := cs\<rparr>) = owners_inv s"
  by (simp_all add: owners_inv_def)

lemma reset_impl_ok:
  assumes "snd p \<Longrightarrow> owners_but (fst p) s" "\<not> snd p \<Longrightarrow> owners_inv s"
  shows "owners_inv (reset_impl p s)"
  using assms settle_ok by (simp add: reset_impl_def)

lemma invoke_destroy_ok:
  assumes "owners_inv s"
  shows "owners_inv (invoke_destroy k s)"
proof (cases "impl_of k s")
  case (Some p)
  have d: "distinct (map fst (servers s))" using assms by (simp add: owners_inv_def)
  define t where "t = s\<lparr>servers := map (\<lambda>x. if fst x = k then (k, None) else x) (servers s)\<rparr>"
  have fsts: "map fst (servers t) = map fst (servers s)" by (simp add: t_def comp_def if_distrib)
  have in_t: "(l, Some q) \<in> set (servers t) \<longleftrightarrow> l \<noteq> k \<and> (l, Some q) \<in> set (servers s)" for l q
    unfolding t_def by force
  have same: "uniques t = uniques s" "handles t = handles s" "jobs t = jobs s" "live t = live s" "gone t = gone s" "next_id t = next_id s"
    by (simp_all add: t_def)
  have o1: "owned j s" if "owned j t" for j
    using that unfolding owned_alt in_t same by blast
  have o2: "owned j t \<or> (j = fst p \<and> snd p)" if "owned j s" for j
  proof (cases "p = (j, True)")
    case False
    then have "(k, Some (j, True)) \<notin> set (servers s)" using impl_of_iff [OF d, of k] Some by auto
    then show ?thesis using that unfolding owned_alt in_t same by metis
  qed simp
  have ids: "fst ` set (servers t) = fst ` set (servers s)" using fsts by (metis set_map)
  have "owners_inv (reset_impl p t)"
  proof (rule reset_impl_ok)
    show "owners_but (fst p) t"
      using assms o1 o2 unfolding owners_but_def owners_inv_def same ids fsts by blast
    show "owners_inv t" if "\<not> snd p"
      using assms o1 o2 that unfolding owners_inv_def same ids fsts by blast
  qed
  then show ?thesis using Some by (simp add: invoke_destroy_def t_def)
qed (simp add: invoke_destroy_def assms)

lemma run_job_ok:
  assumes "owners_inv s"
  shows "owners_inv (run_job s)"
proof (cases "jobs s")
  case (Cons p ps)
  let ?t = "s\<lparr>jobs := ps\<rparr>"
  have o: "owned j ?t \<Longrightarrow> owned j s" "owned j s \<Longrightarrow> owned j ?t \<or> (j = fst p \<and> snd p)" for j
    using Cons by (auto simp: owned_defs)
  have "owners_inv (reset_impl p ?t)"
  proof (rule reset_impl_ok)
    show "owners_but (fst p) ?t"
      using assms o unfolding owners_but_def owners_inv_def by auto
    show "owners_inv ?t" if "\<not> snd p"
      using assms o that unfolding owners_inv_def by auto
  qed
  then show ?thesis using Cons by (simp add: run_job_def)
qed (simp add: run_job_def assms)

lemma client_destroyed_ok: "owners_inv s \<Longrightarrow> owners_inv (client_destroyed has_destroy c s)"
  by (auto simp: client_destroyed_def invoke_destroy_ok intro!: release_server_ok split: option.splits)

lemma interfaces_lost_ok:
  assumes "owners_inv s"
  shows "owners_inv (interfaces_lost s)"
proof (rule owners_cong [OF assms])
  show "owned i (interfaces_lost s) = owned i s" for i
    by (force simp: interfaces_lost_def owned_alt split: option.splits)
  show "distinct (map fst (servers (interfaces_lost s)))"
    using assms by (simp add: interfaces_lost_def owners_inv_def distinct_map_filter)
qed (auto simp: interfaces_lost_def)

lemma drop_ok:
  assumes "owners_inv s"
  shows "owners_inv (drop_handle i s)" "owners_inv (drop_unique i s)"
proof -
  have "owned j (s\<lparr>handles := remove1 i (handles s)\<rparr>) \<Longrightarrow> owned j s"
    "owned j s \<Longrightarrow> owned j (s\<lparr>handles := remove1 i (handles s)\<rparr>) \<or> j = i"
    "owned j (s\<lparr>uniques := remove1 i (uniques s)\<rparr>) \<Longrightarrow> owned j s"
    "owned j s \<Longrightarrow> owned j (s\<lparr>uniques := remove1 i (uniques s)\<rparr>) \<or> j = i" for j
    by (auto simp: owned_defs dest: notin_set_remove1 set_remove1_subset [THEN subsetD])
  then have "owners_but i (s\<lparr>handles := remove1 i (handles s)\<rparr>)" "owners_but i (s\<lparr>uniques := remove1 i (uniques s)\<rparr>)"
    using assms unfolding owners_but_def owners_inv_def by auto
  then show "owners_inv (drop_handle i s)" "owners_inv (drop_unique i s)"
    by (simp_all add: drop_handle_def drop_unique_def settle_ok)
qed

lemma interface_step_inv:
  assumes "interface_step s t" and "owners_inv s"
  shows "owners_inv t"
  using assms(1)
proof cases
  case new
  then show ?thesis using new_object_ok [OF assms(2)] by simp
next
  case (lend i)
  then have "owned j t = owned j s" for j by (cases "j = i") (auto simp: owned_defs share_def in_set_remove1)
  then show ?thesis using assms(2) lend by (simp add: owners_inv_def share_def)
next
  case (drop_one i)
  then show ?thesis using drop_ok [OF assms(2)] by simp
next
  case (copy i)
  then have "owned j t = owned j s" for j by (auto simp: owned_defs)
  then show ?thesis using assms(2) copy by (simp add: owners_inv_def)
next
  case (drop i)
  then show ?thesis using drop_ok [OF assms(2)] by simp
next
  case (unique i)
  then show ?thesis using build_unique_ptr_ok [OF assms(2)] by simp
next
  case (shared i rvalue)
  then show ?thesis using build_shared_ptr_ok [OF assms(2)] by simp
next
  case (reference i)
  then show ?thesis using build_reference_ok [OF assms(2)] by simp
next
  case (callback callable)
  then show ?thesis using build_function_ok [OF assms(2)] by simp
next
  case (read k)
  then show ?thesis
    using assms(2) by (intro owners_cong [OF assms(2)])
      (simp_all add: read_interface_def MakeProxyClient_def Let_def owners_inv_def)
next
  case (freed k)
  then show ?thesis using assms(2) by (simp add: message_freed_def release_server_ok)
next
  case (destroyed has_destroy c)
  then show ?thesis using client_destroyed_ok [OF assms(2)] by simp
next
  case (destroy_call k)
  then show ?thesis using invoke_destroy_ok [OF assms(2)] by simp
next
  case (call_start k)
  then show ?thesis using assms(2) by (simp add: call_started_def)
next
  case (call_end k)
  then show ?thesis using assms(2) by (simp add: call_ended_def release_server_ok)
next
  case job
  then show ?thesis using run_job_ok [OF assms(2)] by simp
next
  case lost
  then show ?thesis using interfaces_lost_ok [OF assms(2)] by simp
qed

text \<open>A \<open>unique_ptr\<close> is the only owner of its object.\<close>

definition unique_inv :: "interfaces \<Rightarrow> bool" where
  "unique_inv s \<longleftrightarrow> distinct (uniques s) \<and> (\<forall>i \<in> set (uniques s). \<not> shared_owned i s)"

lemma unique_invI:
  assumes "unique_inv s" "distinct (uniques t)" "set (uniques t) \<subseteq> set (uniques s)"
    "\<And>i. i \<in> set (uniques t) \<Longrightarrow> shared_owned i t \<Longrightarrow> shared_owned i s"
  shows "unique_inv t"
  using assms unfolding unique_inv_def by blast

lemma unique_same:
  assumes "unique_inv s" "uniques t = uniques s" "\<And>i. shared_owned i t \<Longrightarrow> shared_owned i s"
  shows "unique_inv t"
proof (rule unique_invI [OF assms(1)])
  show "distinct (uniques t)" using assms(1,2) by (simp add: unique_inv_def)
qed (use assms(2,3) in simp_all)

lemma shared_alt:
  "shared_owned i s \<longleftrightarrow> i \<in> set (handles s) \<or> (\<exists>k. (k, Some (i, True)) \<in> set (servers s)) \<or> (i, True) \<in> set (jobs s)"
  by (force simp: shared_owned_def)

lemma unique_upd [simp]:
  "shared_owned i (s\<lparr>uniques := us\<rparr>) = shared_owned i s" "shared_owned i (s\<lparr>live := l\<rparr>) = shared_owned i s"
  "shared_owned i (s\<lparr>gone := g\<rparr>) = shared_owned i s" "shared_owned i (s\<lparr>messages := ms\<rparr>) = shared_owned i s"
  "shared_owned i (s\<lparr>proxies := ps\<rparr>) = shared_owned i s" "shared_owned i (s\<lparr>next_id := n\<rparr>) = shared_owned i s"
  "shared_owned i (s\<lparr>calls := cs\<rparr>) = shared_owned i s"
  by (simp_all add: shared_owned_def)

lemma owners_same [simp]:
  "handles (settle i s) = handles s" "servers (settle i s) = servers s" "jobs (settle i s) = jobs s"
  "handles (reset_impl p s) = handles s" "servers (reset_impl p s) = servers s" "jobs (reset_impl p s) = jobs s"
  by (simp_all add: settle_def reset_impl_def)

lemma uniques_same [simp]:
  "uniques (settle i s) = uniques s" "shared_owned j (settle i s) = shared_owned j s"
  "uniques (server_dtor k s) = uniques s" "uniques (release_server k s) = uniques s"
  "uniques (reset_impl p s) = uniques s" "shared_owned j (reset_impl p s) = shared_owned j s"
  "uniques (run_job s) = uniques s" "uniques (invoke_destroy k s) = uniques s"
  by (simp_all add: settle_def server_dtor_def release_server_def reset_impl_def run_job_def invoke_destroy_def
      split: list.split option.split)

lemma impl_of_mem: "impl_of k s = Some p \<Longrightarrow> (k, Some p) \<in> set (servers s)"
  by (auto simp: impl_of_def dest: map_of_SomeD split: option.splits)

lemma shared_dtor: "shared_owned i (server_dtor k s) \<Longrightarrow> shared_owned i s"
  by (auto simp: shared_alt server_dtor_def split: option.splits dest!: impl_of_mem [OF sym])

lemma shared_release: "shared_owned i (release_server k s) \<Longrightarrow> shared_owned i s"
  by (auto simp: release_server_def dest: shared_dtor split: if_splits)

lemma shared_destroy: "shared_owned i (invoke_destroy k s) \<Longrightarrow> shared_owned i s"
  by (auto simp: invoke_destroy_def shared_alt split: option.splits if_splits)

lemma shared_job: "shared_owned i (run_job s) \<Longrightarrow> shared_owned i s"
  by (auto simp: run_job_def shared_owned_def split: list.splits)

lemma shared_server:
  "shared_owned j (snd (MakeProxyServer i owns s)) \<longleftrightarrow> shared_owned j s \<or> (owns \<and> j = i)"
  "uniques (snd (MakeProxyServer i owns s)) = uniques s"
  by (auto simp: shared_owned_def MakeProxyServer_def Let_def)

lemma new_object_unique:
  assumes "unique_inv s" "owners_inv s"
  shows "unique_inv (snd (new_object s))"
proof -
  have "\<not> owned (next_id s) s" using assms(2) unfolding owners_inv_def by blast
  then show ?thesis
    using assms(1) by (simp add: unique_inv_def new_object_def Let_def owned_def)
qed

lemma take_unique:
  assumes "unique_inv s"
  shows "unique_inv (snd (MakeProxyServer i True (s\<lparr>uniques := remove1 i (uniques s)\<rparr>)))"
  using assms by (auto simp: unique_inv_def shared_server)

lemma unique_step:
  assumes "interface_step s t" "unique_inv s" "owners_inv s"
  shows "unique_inv t"
  using assms(1)
proof cases
  case new
  then show ?thesis using new_object_unique assms by simp
next
  case (lend i)
  then show ?thesis using assms(2) by (auto simp: unique_inv_def share_def shared_owned_def)
next
  case (drop_one i)
  then show ?thesis
    using assms(2) by (auto simp: unique_inv_def drop_unique_def)
next
  case (copy i)
  then show ?thesis by (intro unique_same [OF assms(2)]) (auto simp: shared_owned_def)
next
  case (drop i)
  then show ?thesis
    by (intro unique_same [OF assms(2)])
      (auto simp: shared_owned_def drop_handle_def dest: set_remove1_subset [THEN subsetD])
next
  case (unique i)
  then show ?thesis using take_unique [OF assms(2)] by (simp add: build_unique_ptr_def case_prod_beta)
next
  case (shared i rvalue)
  let ?s = "if rvalue then s\<lparr>handles := remove1 i (handles s)\<rparr> else s"
  have "shared_owned j ?s \<Longrightarrow> shared_owned j s" for j
    by (auto simp: shared_owned_def dest: set_remove1_subset [THEN subsetD] split: if_splits)
  moreover have "shared_owned i s" "uniques ?s = uniques s" using shared by (simp_all add: shared_owned_def)
  ultimately show ?thesis
    using shared by (intro unique_same [OF assms(2)]) (auto simp: build_shared_ptr_def case_prod_beta shared_server)
next
  case (reference i)
  then show ?thesis by (intro unique_same [OF assms(2)]) (simp_all add: build_reference_def shared_server)
next
  case (callback callable)
  then show ?thesis
    using take_unique [OF new_object_unique [OF assms(2,3)]] assms(2) by (simp add: build_function_def case_prod_beta)
next
  case (read k)
  then show ?thesis
    by (intro unique_same [OF assms(2)]) (simp_all add: read_interface_def MakeProxyClient_def Let_def)
next
  case (freed k)
  then show ?thesis
    by (intro unique_same [OF assms(2)]) (auto simp: message_freed_def dest: shared_release)
next
  case (destroyed has_destroy c)
  then show ?thesis
    by (intro unique_same [OF assms(2)])
      (auto simp: client_destroyed_def dest!: shared_release shared_destroy split: option.splits if_splits)
next
  case (destroy_call k)
  then show ?thesis by (intro unique_same [OF assms(2)]) (auto dest: shared_destroy)
next
  case (call_start k)
  then show ?thesis by (intro unique_same [OF assms(2)]) (auto simp: call_started_def)
next
  case (call_end k)
  then show ?thesis
    by (intro unique_same [OF assms(2)]) (auto simp: call_ended_def dest: shared_release)
next
  case job
  then show ?thesis by (intro unique_same [OF assms(2)]) (auto dest: shared_job)
next
  case lost
  then show ?thesis
    by (intro unique_same [OF assms(2)]) (auto simp: interfaces_lost_def shared_alt split: option.splits)
qed

text \<open>A server that something refers to is there; clients have numbers that were given out.\<close>

definition refs_inv :: "interfaces \<Rightarrow> bool" where
  "refs_inv s \<longleftrightarrow> (\<forall>k. referenced k s \<longrightarrow> k \<in> fst ` set (servers s)) \<and> (\<forall>c k. (c, k) \<in> set (proxies s) \<longrightarrow> c < next_id s)"

lemma refs_invI:
  assumes "refs_inv s" "\<And>k. referenced k t \<Longrightarrow> k \<notin> fst ` set (servers t) \<Longrightarrow> referenced k s"
    "\<And>k. k \<in> fst ` set (servers s) \<Longrightarrow> referenced k t \<Longrightarrow> k \<in> fst ` set (servers t)"
    "set (proxies t) \<subseteq> set (proxies s)" "next_id s \<le> next_id t"
  shows "refs_inv t"
  using assms unfolding refs_inv_def by (meson less_le_trans subsetD)

lemma refs_settle [simp]:
  "messages (settle i s) = messages s" "proxies (settle i s) = proxies s" "next_id (settle i s) = next_id s"
  "calls (settle i s) = calls s"
  by (simp_all add: settle_def)

lemma refs_reset [simp]:
  "messages (reset_impl p s) = messages s" "proxies (reset_impl p s) = proxies s" "next_id (reset_impl p s) = next_id s"
  "calls (reset_impl p s) = calls s"
  by (simp_all add: reset_impl_def)

lemma refs_destroy [simp]:
  "messages (invoke_destroy k s) = messages s" "proxies (invoke_destroy k s) = proxies s"
  "next_id (invoke_destroy k s) = next_id s" "calls (invoke_destroy k s) = calls s"
  by (auto simp: invoke_destroy_def split: option.splits)

lemma destroy_servers [simp]: "fst ` set (servers (invoke_destroy k s)) = fst ` set (servers s)"
proof (cases "impl_of k s")
  case (Some p)
  then have "set (servers (invoke_destroy k s)) = (\<lambda>x. if fst x = k then (k, None) else x) ` set (servers s)"
    by (cases p) (simp add: invoke_destroy_def)
  then show ?thesis by (simp only: image_image) (rule image_cong, simp_all)
qed (simp add: invoke_destroy_def)

lemma referenced_cong:
  "messages t = messages s \<Longrightarrow> proxies t = proxies s \<Longrightarrow> calls t = calls s \<Longrightarrow> referenced k t = referenced k s"
  by (simp add: referenced_def)

lemma refs_same:
  assumes "refs_inv s" "messages t = messages s" "proxies t = proxies s" "calls t = calls s"
    "fst ` set (servers t) = fst ` set (servers s)" "next_id s \<le> next_id t"
  shows "refs_inv t"
  using assms by (intro refs_invI [OF assms(1)]) (simp_all add: referenced_cong [of t s])

text \<open>Fewer references, and then the release of one server.\<close>

lemma release_refs:
  assumes "refs_inv s" "set (messages t) \<subseteq> set (messages s)" "set (proxies t) \<subseteq> set (proxies s)"
    "set (calls t) \<subseteq> set (calls s)" "fst ` set (servers t) = fst ` set (servers s)" "next_id s \<le> next_id t"
  shows "refs_inv (release_server k t)"
proof -
  have sub: "referenced j t \<Longrightarrow> referenced j s" for j
    using assms(2-4) by (auto simp: referenced_def)
  then have t: "refs_inv t"
    using assms by (intro refs_invI [OF assms(1)]) auto
  show ?thesis
  proof (cases "referenced k t")
    case True
    then show ?thesis using t by (simp add: release_server_def)
  next
    case False
    have "referenced j (server_dtor k t) = referenced j t" for j
      by (rule referenced_cong) (simp_all add: server_dtor_def)
    then show ?thesis
      using t False by (intro refs_invI [OF t]) (auto simp: release_server_def server_dtor_def image_iff)
  qed
qed

lemma new_object_refs: "refs_inv s \<Longrightarrow> refs_inv (snd (new_object s))"
  by (erule refs_same) (simp_all add: new_object_def Let_def)

lemma MakeProxyServer_refs: "refs_inv s \<Longrightarrow> refs_inv (snd (MakeProxyServer i owns s))"
  by (auto simp: refs_inv_def referenced_def MakeProxyServer_def Let_def intro: less_SucI)

lemma refs_handles [simp]: "refs_inv (s\<lparr>handles := hs\<rparr>) = refs_inv s" "refs_inv (s\<lparr>uniques := us\<rparr>) = refs_inv s"
  by (simp_all add: refs_inv_def referenced_def)

lemma build_refs:
  "refs_inv s \<Longrightarrow> refs_inv (snd (build_unique_ptr value s))"
  "refs_inv s \<Longrightarrow> refs_inv (snd (build_shared_ptr rvalue value s))"
  "refs_inv s \<Longrightarrow> refs_inv (snd (build_reference i s))"
  using MakeProxyServer_refs [of "s\<lparr>uniques := remove1 i (uniques s)\<rparr>" i True for i]
    MakeProxyServer_refs [of "s\<lparr>handles := remove1 i (handles s)\<rparr>" i True for i]
    MakeProxyServer_refs [of s i True for i] MakeProxyServer_refs [of s i False]
  by (simp_all add: build_unique_ptr_def build_shared_ptr_def build_reference_def case_prod_beta split: option.split)

lemma build_function_refs: "refs_inv s \<Longrightarrow> refs_inv (snd (build_function callable s))"
  using MakeProxyServer_refs new_object_refs
  by (simp add: build_function_def case_prod_beta)

lemma refs_step: "interface_step s t \<Longrightarrow> refs_inv s \<Longrightarrow> refs_inv t"
proof (induction rule: interface_step.induct)
  case (new s)
  then show ?case by (rule new_object_refs)
next
  case (lend i s)
  then show ?case by (simp add: share_def)
next
  case (drop_one i s)
  from drop_one(2) show ?case by (rule refs_same) (simp_all add: drop_unique_def)
next
  case (copy i s)
  then show ?case by simp
next
  case (drop i s)
  from drop(2) show ?case by (rule refs_same) (simp_all add: drop_handle_def)
next
  case (unique i s)
  then show ?case by (simp add: build_refs)
next
  case (shared i s rvalue)
  then show ?case by (simp add: build_refs)
next
  case (reference i s)
  then show ?case by (simp add: build_refs)
next
  case (callback s callable)
  then show ?case by (rule build_function_refs)
next
  case (read k s)
  then show ?case
    by (auto simp: refs_inv_def referenced_def read_interface_def MakeProxyClient_def Let_def intro: less_SucI)
next
  case (freed k s)
  from freed(2) show ?case
    unfolding message_freed_def by (rule release_refs) (simp_all add: set_remove1_subset)
next
  case (destroyed s has_destroy c)
  show ?case
  proof (cases "map_of (proxies s) c")
    case (Some k)
    have "set (filter (\<lambda>p. fst p \<noteq> c) (proxies s)) \<subseteq> set (proxies s)" by (rule filter_is_subset)
    then show ?thesis
      unfolding client_destroyed_def Some option.case
      by (intro release_refs [OF destroyed]) simp_all
  qed (simp add: client_destroyed_def destroyed)
next
  case (destroy_call s k)
  then show ?case by (rule refs_same) simp_all
next
  case (call_start k s)
  then show ?case by (auto simp: refs_inv_def referenced_def call_started_def)
next
  case (call_end k s)
  from call_end(2) show ?case
    unfolding call_ended_def by (rule release_refs) (simp_all add: set_remove1_subset)
next
  case (job s)
  then show ?case by (rule refs_same) (simp_all add: run_job_def split: list.split)
next
  case (lost s)
  then show ?case by (force simp: refs_inv_def referenced_def interfaces_lost_def)
qed

interpretation interface_objects: transition_invariant "\<lambda>s. s = no_interfaces" interface_step
  "\<lambda>s. owners_inv s \<and> refs_inv s \<and> unique_inv s"
proof
  show "owners_inv s \<and> refs_inv s \<and> unique_inv s" if "s = no_interfaces" for s
    using that by (simp add: no_interfaces_def owners_inv_def owned_defs refs_inv_def referenced_def unique_inv_def)
qed (blast intro: interface_step_inv refs_step unique_step)

section \<open>Properties\<close>

text \<open>
  C14. However objects are passed and dropped, over any connection that lasts or not, none is destroyed twice or
  while a pointer of the program owns it or a server that owns it is there; the object of a
  \<open>unique_ptr\<close> has no other owner. A server is there while a client, a message or a running request
  refers to it. An object passed as a reference is not owned by its server.
\<close>

theorem objects_destroyed_once:
  assumes "interface_step\<^sup>*\<^sup>* no_interfaces s"
  shows "distinct (gone s) \<and> set (gone s) \<inter> live s = {} \<and> set (uniques s) \<union> set (handles s) \<subseteq> live s \<and>
    {i. \<exists>k. impl_of k s = Some (i, True)} \<subseteq> live s \<and> {k. referenced k s} \<subseteq> fst ` set (servers s) \<and>
    distinct (uniques s) \<and> set (uniques s) \<inter> (set (handles s) \<union> {i. \<exists>k. impl_of k s = Some (i, True)}) = {}"
proof -
  have inv: "owners_inv s" and refs: "refs_inv s" and unique: "unique_inv s"
    using interface_objects.reachable_inv [OF refl assms] by simp_all
  then have d: "distinct (map fst (servers s))" by (simp add: owners_inv_def)
  have "i \<in> live s" if "impl_of k s = Some (i, True)" for i k
    using inv that unfolding impl_of_iff [OF d] owners_inv_def owned_alt by blast
  moreover have "i \<in> live s" if "i \<in> set (uniques s) \<union> set (handles s)" for i
    using inv that unfolding owners_inv_def owned_alt by blast
  moreover have "{k. referenced k s} \<subseteq> fst ` set (servers s)" using refs by (auto simp: refs_inv_def)
  moreover have "distinct (uniques s)" "set (uniques s) \<inter> (set (handles s) \<union> {i. \<exists>k. impl_of k s = Some (i, True)}) = {}"
    using unique unfolding unique_inv_def shared_alt impl_of_iff [OF d] by blast+
  ultimately show ?thesis using inv by (auto simp: owners_inv_def)
qed

lemma run_job_mono:
  "jobs (run_job s) = tl (jobs s)" "uniques (run_job s) = uniques s" "handles (run_job s) = handles s" "servers (run_job s) = servers s"
  "live s \<union> set (gone s) \<subseteq> live (run_job s) \<union> set (gone (run_job s))"
  by (auto simp: run_job_def reset_impl_def settle_def split: list.splits)

lemma run_jobs_mono:
  "jobs ((run_job ^^ n) s) = drop n (jobs s) \<and> uniques ((run_job ^^ n) s) = uniques s \<and> handles ((run_job ^^ n) s) = handles s \<and>
   servers ((run_job ^^ n) s) = servers s \<and> live s \<union> set (gone s) \<subseteq> live ((run_job ^^ n) s) \<union> set (gone ((run_job ^^ n) s))"
  by (induction n) (use run_job_mono in \<open>force simp: drop_Suc drop_tl\<close>)+

lemma run_jobs_inv: "owners_inv s \<Longrightarrow> owners_inv ((run_job ^^ n) s)"
  by (induction n) (simp_all add: run_job_ok)

text \<open>The state after an object was moved into a message, read on the other side, and the message freed.\<close>

definition moved_to_client :: "nat \<Rightarrow> interfaces \<Rightarrow> interfaces" where
  "moved_to_client i s =
     s\<lparr>uniques := remove1 i (uniques s), servers := (next_id s, Some (i, True)) # servers s,
       proxies := (Suc (next_id s), next_id s) # proxies s, next_id := Suc (Suc (next_id s))\<rparr>"

lemma fresh_ids:
  assumes "owners_inv s" "refs_inv s"
  shows "next_id s \<notin> fst ` set (servers s)" "\<not> referenced (next_id s) s" "Suc (next_id s) \<notin> fst ` set (proxies s)"
proof -
  show *: "next_id s \<notin> fst ` set (servers s)"
    using assms(1) unfolding owners_inv_def by blast
  then show "\<not> referenced (next_id s) s"
    using assms(2) unfolding refs_inv_def by blast
  show "Suc (next_id s) \<notin> fst ` set (proxies s)"
    using assms(2) unfolding refs_inv_def by (metis Suc_n_not_le_n imageE less_imp_le prod.collapse)
qed

lemma moved_state:
  assumes "owners_inv s" "refs_inv s"
    and "build_unique_ptr (Some i) s = ((field, var), s1)" "read_interface field s1 = (Some c, s2)"
  shows "var = None \<and> c = Suc (next_id s) \<and> message_freed (the field) s2 = moved_to_client i s"
  using assms(3,4) fresh_ids [OF assms(1,2)]
  by (auto simp: build_unique_ptr_def MakeProxyServer_def read_interface_def MakeProxyClient_def
      message_freed_def release_server_def referenced_def moved_to_client_def Let_def)

lemma moved_inv:
  assumes "owners_inv s" "refs_inv s" "i \<in> set (uniques s)"
  shows "owners_inv (moved_to_client i s)"
proof -
  let ?s1 = "snd (build_unique_ptr (Some i) s)"
  let ?s2 = "snd (read_interface (Some (next_id s)) ?s1)"
  have "next_id s \<in> set (messages ?s1)" "next_id s \<in> set (messages ?s2)"
    by (simp_all add: build_unique_ptr_def MakeProxyServer_def read_interface_def MakeProxyClient_def Let_def)
  then have "interface_step ?s1 ?s2" "interface_step ?s2 (message_freed (next_id s) ?s2)"
    by (auto intro: interface_step.intros)
  then have "owners_inv (message_freed (next_id s) ?s2)"
    using build_unique_ptr_ok [OF assms(1,3)] by (blast intro: interface_step_inv)
  moreover have "message_freed (next_id s) ?s2 = moved_to_client i s"
    using fresh_ids [OF assms(1,2)]
    by (simp add: build_unique_ptr_def MakeProxyServer_def read_interface_def MakeProxyClient_def
        message_freed_def release_server_def referenced_def moved_to_client_def Let_def)
  ultimately show ?thesis by simp
qed

lemma impl_of_moved: "impl_of (next_id s) (moved_to_client i s) = Some (i, True)"
  by (simp add: impl_of_def moved_to_client_def)

lemma moved_destroyed_sync:
  assumes "owners_inv s" "refs_inv s" "i \<in> live s" "\<not> owned i (s\<lparr>uniques := remove1 i (uniques s)\<rparr>)"
  shows "i \<in> set (gone (client_destroyed True (Suc (next_id s)) (moved_to_client i s)))"
proof -
  let ?k = "next_id s"
  let ?t = "(moved_to_client i s)\<lparr>servers := (?k, None) # servers s\<rparr>"
  have "map (\<lambda>x. if fst x = ?k then (?k, None) else x) (servers s) = servers s"
    using fresh_ids(1) [OF assms(1,2)] by (force intro!: map_idI)
  then have "invoke_destroy ?k (moved_to_client i s) = settle i ?t"
    using impl_of_moved by (simp add: invoke_destroy_def reset_impl_def moved_to_client_def)
  moreover have "\<not> owned i ?t" "i \<in> live ?t"
    using assms(3,4) by (simp_all add: owned_defs moved_to_client_def)
  ultimately have "i \<in> set (gone (invoke_destroy ?k (moved_to_client i s)))"
    by (simp add: settle_def)
  moreover have "gone (release_server k t) = gone t" for k t
    by (simp add: release_server_def server_dtor_def)
  ultimately show ?thesis
    by (simp add: client_destroyed_def moved_to_client_def)
qed

lemma moved_destroyed_async:
  assumes "owners_inv s" "refs_inv s"
  shows "client_destroyed False (Suc (next_id s)) (moved_to_client i s) =
    s\<lparr>uniques := remove1 i (uniques s), jobs := jobs s @ [(i, True)], next_id := Suc (Suc (next_id s))\<rparr>"
proof -
  have "filter (\<lambda>x. fst x \<noteq> Suc (next_id s)) (proxies s) = proxies s"
    "filter (\<lambda>x. fst x \<noteq> next_id s) (servers s) = servers s"
    using fresh_ids [OF assms] by (force intro!: filter_True)+
  then show ?thesis
    using fresh_ids(2) [OF assms] impl_of_moved [of s i]
    by (simp add: client_destroyed_def release_server_def referenced_def server_dtor_def moved_to_client_def impl_of_def)
qed

text \<open>
  C18. An object that is moved to the other side lives as long as the client object there: when that is
  destroyed and the interface has a \<open>destroy\<close> method, the object is destroyed before the destructor of
  the client returns; otherwise it is destroyed by the asynchronous thread once it has worked off its
  jobs.
\<close>

theorem moved_object_ends:
  assumes "interface_step\<^sup>*\<^sup>* no_interfaces s"
    and "i \<in> set (uniques s)" and "build_unique_ptr (Some i) s = ((field, var), s1)"
    and "read_interface field s1 = (Some c, s2)"
    and "s3 = message_freed (the field) s2"
  shows "var = None \<and> i \<in> live s3 \<and>
    i \<in> set (gone (client_destroyed True c s3)) \<and>
    i \<in> live (client_destroyed False c s3) \<and>
    i \<in> set (gone ((run_job ^^ Suc (length (jobs s))) (client_destroyed False c s3)))"
proof -
  have inv: "owners_inv s" "refs_inv s" and unique: "unique_inv s"
    using interface_objects.reachable_inv [OF refl assms(1)] by simp_all
  have only: "\<not> owned i (s\<lparr>uniques := remove1 i (uniques s)\<rparr>)"
    using unique assms(2) by (simp add: unique_inv_def owned_def)
  have s3: "var = None" "c = Suc (next_id s)" "s3 = moved_to_client i s"
    using moved_state [OF inv assms(3,4)] assms(5) by simp_all
  have live: "i \<in> live s" using inv(1) assms(2) by (simp add: owners_inv_def owned_def)
  note sync = moved_destroyed_sync [OF inv live only]
  let ?async = "client_destroyed False c s3"
  let ?after = "(run_job ^^ Suc (length (jobs s))) ?async"
  have async: "?async = s\<lparr>uniques := remove1 i (uniques s), jobs := jobs s @ [(i, True)], next_id := Suc (Suc (next_id s))\<rparr>"
    using moved_destroyed_async [OF inv, of i] s3 by simp
  have "owners_inv ?after"
    using moved_inv [OF inv assms(2)] s3 by (simp add: run_jobs_inv client_destroyed_ok del: funpow.simps)
  moreover have "\<not> owned i ?after"
    using run_jobs_mono [of "Suc (length (jobs s))" ?async] only by (simp add: owned_defs async del: funpow.simps)
  moreover have "i \<in> live ?after \<union> set (gone ?after)"
    using run_jobs_mono [of "Suc (length (jobs s))" ?async] live by (auto simp: async simp del: funpow.simps)
  ultimately have "i \<in> set (gone ?after)" unfolding owners_inv_def by blast
  moreover have "i \<in> live s3" using live by (simp add: s3 moved_to_client_def)
  moreover have "i \<in> live ?async" using live unfolding async by simp
  ultimately show ?thesis using sync s3 by blast
qed

text \<open>An object that another one keeps: two objects, the second is passed while the first waits to be destroyed.\<close>

definition sample_interfaces :: interfaces where
  "sample_interfaces =
     \<lparr>live = {0, 1}, uniques = [1], handles = [], servers = [], messages = [], proxies = [], calls = [],
      jobs = [(0, True)], gone = [], next_id = 3\<rparr>"

lemma sample_interfaces_reachable: "interface_step\<^sup>*\<^sup>* no_interfaces sample_interfaces"
proof -
  have "interface_step no_interfaces (snd (new_object no_interfaces))" by (rule interface_step.new)
  also have "interface_step\<^sup>*\<^sup>* \<dots> (snd (new_object (snd (new_object no_interfaces))))"
    by (rule r_into_rtranclp) (rule interface_step.new)
  also have "interface_step\<^sup>*\<^sup>* \<dots> (snd (build_unique_ptr (Some 0) (snd (new_object (snd (new_object no_interfaces))))))"
    by (rule r_into_rtranclp, rule interface_step.unique) (simp add: new_object_def no_interfaces_def Let_def)
  also have "interface_step\<^sup>*\<^sup>* \<dots> sample_interfaces"
    by (rule r_into_rtranclp) (use interface_step.freed [of 2 "snd (build_unique_ptr (Some 0) (snd (new_object (snd (new_object no_interfaces)))))"]
      in \<open>simp add: new_object_def no_interfaces_def Let_def build_unique_ptr_def MakeProxyServer_def message_freed_def
        release_server_def referenced_def server_dtor_def impl_of_def sample_interfaces_def insert_commute numeral_3_eq_3\<close>)
  finally show ?thesis .
qed

theorem objects_destroyed_once_witness: "distinct (gone sample_interfaces) \<and> set (uniques sample_interfaces) \<subseteq> {0, 1}"
  using objects_destroyed_once [OF sample_interfaces_reachable] by (simp add: sample_interfaces_def)

theorem moved_object_ends_witness:
  "1 \<in> set (gone (client_destroyed True 4 (message_freed 3 (snd (read_interface (Some 3)
     (snd (build_unique_ptr (Some 1) sample_interfaces)))))))"
proof -
  have "build_unique_ptr (Some 1) sample_interfaces = ((Some 3, None), snd (build_unique_ptr (Some 1) sample_interfaces))"
    and "read_interface (Some 3) (snd (build_unique_ptr (Some 1) sample_interfaces)) =
      (Some 4, snd (read_interface (Some 3) (snd (build_unique_ptr (Some 1) sample_interfaces))))"
    by (simp_all add: build_unique_ptr_def MakeProxyServer_def read_interface_def MakeProxyClient_def
        sample_interfaces_def Let_def)
  from moved_object_ends [OF sample_interfaces_reachable _ this refl] show ?thesis
    by (simp add: sample_interfaces_def owned_def)
qed

end
