(* ===== verification/ClientCalls.thy ===== *)
theory ClientCalls
  imports Waiter
begin

text \<open>
  How a thread waits for its calls: the part of \<open>clientInvoke\<close> (\<open>include/mp/proxy-types.h\<close>) between the
  thread, its \<open>Waiter\<close> and the event loop. The functions that run on the loop use the local variables of the
  call by reference. Calls nest: a call that waits runs callbacks, which make calls of their own.
\<close>

section \<open>State\<close>

text \<open>
  A call is in \<open>loop->sync\<close> with its function not run yet; its request was sent; its response was
  received and its results read; \<open>done\<close> is set; or an exception was thrown in the function.
\<close>

datatype call_phase = Call_new | Call_sent | Call_received | Call_done | Call_thrown

text \<open>
  The calls of one thread by number. \<open>syncing\<close> is the call that blocks in \<open>loop->sync\<close>. The flags \<open>done\<close> are
  the predicates of the waiter. \<open>finished\<close> records the calls that returned; \<open>dangling\<close>, whether the loop
  used variables of a call that is not there.
\<close>

record client_calls =
  call_waiter :: Waiter
  syncing :: "nat option"
  call_phases :: "nat \<Rightarrow> call_phase"
  calls_made :: nat
  finished :: "nat list"
  dangling :: bool

definition no_calls :: client_calls where
  "no_calls = \<lparr>call_waiter = new_waiter, syncing = None, call_phases = (\<lambda>_. Call_new), calls_made = 0, finished = [],
     dangling = False\<rparr>"

text \<open>The calls whose variables exist.\<close>

definition frames :: "client_calls \<Rightarrow> nat set" where
  "frames s = {k. F_Wait k \<in> set (stack (call_waiter s)) \<or> syncing s = Some k}"

section \<open>Operations\<close>

subsection \<open>On the thread\<close>

definition call_sync :: "client_calls \<Rightarrow> client_calls" where
  "call_sync s = s\<lparr>syncing := Some (calls_made s), calls_made := Suc (calls_made s)\<rparr>"

definition sync_returned :: "nat \<Rightarrow> client_calls \<Rightarrow> client_calls" where
  "sync_returned k s = s\<lparr>syncing := None, call_waiter := wait_call k (call_waiter s)\<rparr>"

text \<open>A look at the waiter, with which the innermost call returns if it is done.\<close>

definition wait_look :: "client_calls \<Rightarrow> client_calls" where
  "wait_look s =
     (let w = wait_check (call_waiter s)
      in s\<lparr>call_waiter := w,
           finished := (case stack (call_waiter s) of
                          F_Wait k # below \<Rightarrow> if stack w = below then finished s @ [k] else finished s
                        | _ \<Rightarrow> finished s)\<rparr>)"

definition callback_returned :: "client_calls \<Rightarrow> client_calls" where
  "callback_returned s = s\<lparr>call_waiter := fn_return (call_waiter s)\<rparr>"

subsection \<open>On the event loop\<close>

text \<open>
  The function given to \<open>sync\<close>: without a connection the call is done at once; otherwise the request is built
  and sent. What the function throws, \<open>EventLoop::loop\<close> logs, and \<open>post\<close> returns.
\<close>

definition touch :: "nat \<Rightarrow> client_calls \<Rightarrow> client_calls" where
  "touch k s = s\<lparr>dangling := dangling s \<or> k \<notin> frames s\<rparr>"

definition set_phase :: "nat \<Rightarrow> call_phase \<Rightarrow> client_calls \<Rightarrow> client_calls" where
  "set_phase k p s = s\<lparr>call_phases := (call_phases s)(k := p)\<rparr>"

definition call_done :: "nat \<Rightarrow> client_calls \<Rightarrow> client_calls" where
  "call_done k s = set_phase k Call_done ((touch k s)\<lparr>call_waiter := set_done k (call_waiter s)\<rparr>)"

definition send_request :: "bool \<Rightarrow> bool \<Rightarrow> nat \<Rightarrow> client_calls \<Rightarrow> client_calls" where
  "send_request connected throws k s =
     (if \<not> connected then call_done k s
      else set_phase k (if throws then Call_thrown else Call_sent) (touch k s))"

text \<open>
  The continuations of \<open>request.send()\<close>: the first reads the results, or keeps the exception of reading them, the
  second keeps the error text; then both set \<open>done\<close>.
\<close>

definition response_read :: "nat \<Rightarrow> client_calls \<Rightarrow> client_calls" where
  "response_read k s = set_phase k Call_received (touch k s)"

definition post_callback :: "nat \<Rightarrow> client_calls \<Rightarrow> client_calls" where
  "post_callback j s = s\<lparr>call_waiter := snd (Waiter_post j (call_waiter s))\<rparr>"

section \<open>Steps\<close>

text \<open>A thread makes a call when it runs code of its own: outside all calls, or in a callback.\<close>

inductive call_step :: "client_calls \<Rightarrow> client_calls \<Rightarrow> bool" where
  call: "syncing s = None \<Longrightarrow> \<not> in_wait (call_waiter s) \<Longrightarrow> call_step s (call_sync s)"
| send: "syncing s = Some k \<Longrightarrow> call_phases s k = Call_new \<Longrightarrow> call_step s (send_request connected throws k s)"
| synced: "syncing s = Some k \<Longrightarrow> call_phases s k \<noteq> Call_new \<Longrightarrow> call_step s (sync_returned k s)"
| response: "call_phases s k = Call_sent \<Longrightarrow> call_step s (response_read k s)"
| set_done: "call_phases s k = Call_received \<Longrightarrow> call_step s (call_done k s)"
| callback: "call_step s (post_callback j s)"
| look: "syncing s = None \<Longrightarrow> in_wait (call_waiter s) \<Longrightarrow> \<not> asleep (call_waiter s) \<Longrightarrow> call_step s (wait_look s)"
| return: "syncing s = None \<Longrightarrow> stack (call_waiter s) = F_Run j # below \<Longrightarrow> call_step s (callback_returned s)"

inductive_cases call_stepE: "call_step s t"

section \<open>The invariant\<close>

text \<open>The numbers of the calls in \<open>wait\<close>, from the innermost.\<close>

definition waits :: "frame list \<Rightarrow> nat list" where
  "waits fs = List.map_filter (\<lambda>f. case f of F_Wait k \<Rightarrow> Some k | F_Run _ \<Rightarrow> None) fs"

lemma waits_simps [simp]:
  "waits [] = []" "waits (F_Wait k # fs) = k # waits fs" "waits (F_Run j # fs) = waits fs"
  by (simp_all add: waits_def List.map_filter_simps)

lemma waits_iff: "F_Wait k \<in> set fs \<longleftrightarrow> k \<in> set (waits fs)"
  by (induction fs) (auto simp: waits_def List.map_filter_simps split: frame.splits)

lemma frames_eq: "frames s = set (waits (stack (call_waiter s))) \<union> set_option (syncing s)"
  by (auto simp: frames_def waits_iff)

definition calls_inv :: "client_calls \<Rightarrow> bool" where
  "calls_inv s \<longleftrightarrow>
     waiter_inv (call_waiter s) \<and> sat (call_waiter s) = {k. call_phases s k = Call_done} \<and>
     distinct (waits (stack (call_waiter s)) @ finished s) \<and>
     (\<forall>k \<in> frames s \<union> set (finished s). k < calls_made s) \<and>
     (\<forall>k. syncing s = Some k \<longrightarrow> k \<notin> set (waits (stack (call_waiter s))) \<union> set (finished s) \<and> \<not> in_wait (call_waiter s)) \<and>
     (\<forall>k \<in> set (waits (stack (call_waiter s))). call_phases s k \<noteq> Call_new) \<and>
     (\<forall>k. call_phases s k \<in> {Call_sent, Call_received, Call_thrown} \<longrightarrow> k \<in> frames s) \<and>
     (\<forall>k. calls_made s \<le> k \<longrightarrow> call_phases s k = Call_new) \<and>
     (\<forall>k \<in> set (finished s). call_phases s k = Call_done) \<and> \<not> dangling s"

lemma calls_invD:
  assumes "calls_inv s"
  shows "waiter_inv (call_waiter s)" "sat (call_waiter s) = {k. call_phases s k = Call_done}"
    "distinct (waits (stack (call_waiter s)) @ finished s)"
    "\<And>k. k \<in> frames s \<union> set (finished s) \<Longrightarrow> k < calls_made s"
    "\<And>k. syncing s = Some k \<Longrightarrow>
      k \<notin> set (waits (stack (call_waiter s))) \<union> set (finished s) \<and> \<not> in_wait (call_waiter s)"
    "\<And>k. k \<in> set (waits (stack (call_waiter s))) \<Longrightarrow> call_phases s k \<noteq> Call_new"
    "\<And>k. call_phases s k \<in> {Call_sent, Call_received, Call_thrown} \<Longrightarrow> k \<in> frames s"
    "\<And>k. calls_made s \<le> k \<Longrightarrow> call_phases s k = Call_new"
    "\<And>k. k \<in> set (finished s) \<Longrightarrow> call_phases s k = Call_done" "\<not> dangling s"
  using assms unfolding calls_inv_def by blast+

lemma frames_upd [simp]:
  "frames (touch k s) = frames s" "frames (set_phase k p s) = frames s"
  "frames (s\<lparr>call_waiter := set_done k (call_waiter s)\<rparr>) = frames s"
  by (simp_all add: frames_def touch_def set_phase_def set_done_def)

text \<open>A phase changes for a call that is there: nothing dangles.\<close>

lemma phase_change:
  assumes inv: "calls_inv s" and k: "k \<in> frames s" and p: "p \<noteq> Call_new" "p = Call_done \<or> call_phases s k \<noteq> Call_done"
    and t: "call_phases t = (call_phases s)(k := p)" "stack (call_waiter t) = stack (call_waiter s)"
      "waiter_inv (call_waiter t)" "sat (call_waiter t) = {j. call_phases t j = Call_done}"
      "syncing t = syncing s" "calls_made t = calls_made s" "finished t = finished s" "\<not> dangling t"
  shows "calls_inv t"
proof -
  note inv = calls_invD [OF inv]
  have fr: "frames t = frames s" by (simp add: frames_def t)
  have "k < calls_made s" using inv(4) k by blast
  have "call_phases t j = Call_new" if "calls_made t \<le> j" for j
    using inv(8) that \<open>k < calls_made s\<close> by (auto simp: t(1,6))
  moreover have "call_phases t j = Call_done" if "j \<in> set (finished t)" for j
    using inv(9) that p(2) by (auto simp: t(1,7))
  moreover have "j \<in> frames t" if "call_phases t j \<in> {Call_sent, Call_received, Call_thrown}" for j
    using inv(7) [of j] k that unfolding fr t(1) by (cases "j = k") auto
  moreover have "call_phases t j \<noteq> Call_new" if "j \<in> set (waits (stack (call_waiter t)))" for j
    using inv(6) that p(1) by (simp add: t(1,2))
  moreover have "in_wait (call_waiter t) = in_wait (call_waiter s)" by (simp add: in_wait_def t(2))
  ultimately show ?thesis
    using inv(3,4,5) t(3,4,8) unfolding calls_inv_def fr t(2,5,6,7) by simp
qed

lemma phase_ok:
  assumes "calls_inv s" "k \<in> frames s" "p \<notin> {Call_new, Call_done}" "call_phases s k \<noteq> Call_done"
  shows "calls_inv (set_phase k p (touch k s))"
proof (rule phase_change [OF assms(1,2)])
  show "sat (call_waiter (set_phase k p (touch k s))) = {j. call_phases (set_phase k p (touch k s)) j = Call_done}"
    using calls_invD(2) [OF assms(1)] assms(3,4) by (auto simp: set_phase_def touch_def)
qed (use assms calls_invD(1,10) [OF assms(1)] in \<open>simp_all add: set_phase_def touch_def\<close>)

lemma done_ok:
  assumes "calls_inv s" "k \<in> frames s"
  shows "calls_inv (call_done k s)"
proof (rule phase_change [OF assms])
  show "waiter_inv (call_waiter (call_done k s))"
    using waiter_inv_set_done [OF calls_invD(1) [OF assms(1)]] by (simp add: call_done_def set_phase_def)
  show "sat (call_waiter (call_done k s)) = {j. call_phases (call_done k s) j = Call_done}"
    using calls_invD(2) [OF assms(1)] by (auto simp: call_done_def set_phase_def set_done_def touch_def)
qed (use assms calls_invD(10) [OF assms(1)] in \<open>simp_all add: call_done_def set_phase_def touch_def set_done_def\<close>)

text \<open>Steps of the thread that leave the phases and the calls in \<open>wait\<close> alone.\<close>

lemma same_calls:
  assumes inv: "calls_inv s"
    and t: "waiter_inv (call_waiter t)" "sat (call_waiter t) = sat (call_waiter s)"
      "waits (stack (call_waiter t)) = waits (stack (call_waiter s))" "syncing s \<noteq> None \<Longrightarrow> \<not> in_wait (call_waiter t)"
      "call_phases t = call_phases s" "syncing t = syncing s" "calls_made t = calls_made s" "finished t = finished s"
      "dangling t = dangling s"
  shows "calls_inv t"
proof -
  have "frames t = frames s" by (simp add: frames_eq t)
  then show ?thesis using inv t(1,2,4) unfolding calls_inv_def t(3,5-9) by auto
qed

lemma call_sync_ok:
  assumes "calls_inv s" "syncing s = None" "\<not> in_wait (call_waiter s)"
  shows "calls_inv (call_sync s)"
proof -
  note inv = calls_invD [OF assms(1)]
  have fr: "frames (call_sync s) = insert (calls_made s) (frames s)" by (auto simp: frames_def call_sync_def assms(2))
  have new: "calls_made s \<notin> set (waits (stack (call_waiter s))) \<union> set (finished s)"
    using inv(4) [of "calls_made s"] by (auto simp: frames_eq)
  have "k < calls_made (call_sync s)" if "k \<in> frames (call_sync s) \<union> set (finished (call_sync s))" for k
    using that inv(4) [of k] unfolding fr by (auto simp: call_sync_def)
  moreover have "k \<in> frames (call_sync s)" if "call_phases (call_sync s) k \<in> {Call_sent, Call_received, Call_thrown}" for k
    using that inv(7) [of k] unfolding fr by (simp add: call_sync_def)
  ultimately show ?thesis
    using inv(1,2,3,6,8,9,10) new assms(3) unfolding calls_inv_def by (simp add: call_sync_def)
qed

lemma sync_returned_ok:
  assumes "calls_inv s" "syncing s = Some k" "call_phases s k \<noteq> Call_new"
  shows "calls_inv (sync_returned k s)"
proof -
  note inv = calls_invD [OF assms(1)]
  have w: "sat (wait_call k w) = sat w" "stack (wait_call k w) = F_Wait k # stack w" for w
    by (simp_all add: wait_call_def)
  have fr: "frames (sync_returned k s) = frames s" by (auto simp: frames_eq sync_returned_def assms(2) w)
  have "waiter_inv (wait_call k (call_waiter s))" using waiter_inv_call inv(1,5) assms(2) by blast
  then show ?thesis
    using inv(2,3,4,6-10) inv(5) [OF assms(2)] assms(3) unfolding calls_inv_def fr by (simp add: sync_returned_def w)
qed

lemma not_above: "x # y # xs \<noteq> xs"
proof
  assume "x # y # xs = xs"
  then have "length (x # y # xs) = length xs" by metis
  then show False by simp
qed

lemma wait_look_cases:
  assumes "in_wait (call_waiter s)"
  obtains
    (run) k j below where "stack (call_waiter s) = F_Wait k # below" "m_fn (call_waiter s) = Some j"
      "wait_look s = s\<lparr>call_waiter := (call_waiter s)\<lparr>m_fn := None, stack := F_Run j # F_Wait k # below,
        started := started (call_waiter s) @ [j]\<rparr>\<rparr>"
  | (returns) k below where "stack (call_waiter s) = F_Wait k # below" "m_fn (call_waiter s) = None"
      "k \<in> sat (call_waiter s)"
      "wait_look s = s\<lparr>call_waiter := (call_waiter s)\<lparr>stack := below\<rparr>, finished := finished s @ [k]\<rparr>"
  | (sleeps) k below where "stack (call_waiter s) = F_Wait k # below" "m_fn (call_waiter s) = None"
      "k \<notin> sat (call_waiter s)" "wait_look s = s\<lparr>call_waiter := (call_waiter s)\<lparr>asleep := True\<rparr>\<rparr>"
proof -
  obtain k below where top: "stack (call_waiter s) = F_Wait k # below" using assms by (rule in_waitE)
  show thesis
  proof (cases "m_fn (call_waiter s)")
    case (Some j)
    then show ?thesis using run top by (simp add: wait_look_def wait_check_def not_above)
  next
    case None
    then show ?thesis
      using returns sleeps top by (cases "k \<in> sat (call_waiter s)") (simp_all add: wait_look_def wait_check_def)
  qed
qed

lemma wait_look_ok:
  assumes "calls_inv s" "syncing s = None" "in_wait (call_waiter s)" "\<not> asleep (call_waiter s)"
  shows "calls_inv (wait_look s)"
proof -
  note inv = calls_invD [OF assms(1)]
  have w: "waiter_inv (call_waiter (wait_look s))"
    using waiter_inv_check [OF inv(1) assms(3,4)] by (simp add: wait_look_def Let_def)
  from assms(3) show ?thesis
  proof (cases rule: wait_look_cases)
    case (run k j below)
    then show ?thesis using w assms(2) by (intro same_calls [OF assms(1)]) simp_all
  next
    case (returns k below)
    have fr: "frames s = insert k (frames (wait_look s))" "k \<notin> set (waits below)" "k \<notin> set (finished s)"
      using inv(3) returns assms(2) by (auto simp: frames_eq)
    have k: "call_phases s k = Call_done" "k < calls_made s" using inv(2,4) returns(3) fr(1) by auto
    have "j \<in> frames (wait_look s)" if "call_phases s j \<in> {Call_sent, Call_received, Call_thrown}" for j
      using inv(7) [OF that] that k(1) fr(1) by auto
    moreover have "frames (wait_look s) \<subseteq> frames s" using fr(1) by blast
    ultimately show ?thesis
      using w inv returns(1) fr(2,3) k assms(2) unfolding calls_inv_def by (auto simp: returns(4))
  next
    case (sleeps k below)
    then show ?thesis using w assms(2) by (intro same_calls [OF assms(1)]) simp_all
  qed
qed

lemma call_step_inv:
  assumes "call_step s t" "calls_inv s"
  shows "calls_inv t"
  using assms(1)
proof cases
  case call
  then show ?thesis using call_sync_ok assms(2) by simp
next
  case (send k connected throws)
  then have "k \<in> frames s" by (simp add: frames_def)
  then show ?thesis
    using send assms(2) done_ok phase_ok [of s k] by (simp add: send_request_def)
next
  case (synced k)
  then show ?thesis using sync_returned_ok assms(2) by simp
next
  case (response k)
  then show ?thesis
    using phase_ok [of s k] calls_invD(7) [OF assms(2), of k] assms(2) by (simp add: response_read_def)
next
  case (set_done k)
  then show ?thesis using done_ok assms(2) calls_invD(7) [OF assms(2), of k] by simp
next
  case (callback j)
  have "sat (snd (Waiter_post j w)) = sat w" "stack (snd (Waiter_post j w)) = stack w" for w
    by (simp_all add: Waiter_post_def)
  then show ?thesis
    using callback waiter_inv_post [OF calls_invD(1) [OF assms(2)]] calls_invD(5) [OF assms(2)]
    by (intro same_calls [OF assms(2)]) (auto simp: post_callback_def in_wait_def)
next
  case look
  then show ?thesis using wait_look_ok assms(2) by simp
next
  case (return j below)
  then show ?thesis
    using waiter_inv_return [OF calls_invD(1) [OF assms(2)] return(3)]
    by (intro same_calls [OF assms(2)]) (simp_all add: callback_returned_def fn_return_def)
qed

lemma calls_inv_start: "calls_inv no_calls"
  by (simp add: calls_inv_def no_calls_def frames_def waiter_inv_new) (simp add: new_waiter_def)

interpretation client_calls: transition_invariant "\<lambda>s. s = no_calls" call_step calls_inv
  by unfold_locales (use calls_inv_start call_step_inv in auto)

section \<open>The waiter\<close>

text \<open>What the calls of a thread do with its waiter are steps of \<open>Waiter\<close>.\<close>

lemma call_step_waiter:
  assumes "call_step s t" "calls_inv s"
  shows "call_waiter t = call_waiter s \<or> waiter_step (call_waiter s) (call_waiter t)"
  using assms(1)
proof cases
  case (send k connected throws)
  then show ?thesis
    using waiter_step.set_done [of "call_waiter s" k]
    by (simp add: send_request_def call_done_def set_phase_def touch_def)
next
  case (synced k)
  then show ?thesis
    using waiter_step.call [of "call_waiter s" k] calls_invD(5) [OF assms(2), of k] by (simp add: sync_returned_def)
next
  case (set_done k)
  then show ?thesis
    using waiter_step.set_done [of "call_waiter s" k] by (simp add: call_done_def set_phase_def touch_def)
next
  case (callback j)
  then show ?thesis using waiter_step.post [of "call_waiter s" j] by (simp add: post_callback_def)
next
  case look
  then show ?thesis using waiter_step.check [of "call_waiter s"] by (simp add: wait_look_def Let_def)
next
  case (return j below)
  then show ?thesis using waiter_step.return [of "call_waiter s" j below] by (simp add: callback_returned_def)
qed (simp_all add: call_sync_def response_read_def set_phase_def touch_def)

lemma calls_waiter_run:
  assumes "call_step\<^sup>*\<^sup>* no_calls s"
  shows "waiter_step\<^sup>*\<^sup>* new_waiter (call_waiter s)"
  using assms
proof (induction rule: rtranclp_induct)
  case base
  then show ?case by (simp add: no_calls_def)
next
  case (step s t)
  have "calls_inv s" using client_calls.reachable_inv [OF refl step(1)] .
  from call_step_waiter [OF step(2) this] step.IH show ?case
    by (metis rtranclp.rtrancl_into_rtrancl)
qed

section \<open>Unwinding\<close>

text \<open>
  The innermost call can always return: the thread runs the callback that is in the slot, the loop
  handles the response, the thread looks.
\<close>

lemma drain_slot:
  assumes "calls_inv s" "syncing s = None" "stack (call_waiter s) = F_Wait k # below"
  obtains u where "call_step\<^sup>*\<^sup>* s u" "call_phases u = call_phases s" "stack (call_waiter u) = F_Wait k # below"
    "m_fn (call_waiter u) = None" "syncing u = None" "finished u = finished s"
proof (cases "m_fn (call_waiter s)")
  case None
  then show ?thesis using that [of s] assms by simp
next
  case (Some j)
  let ?t = "wait_look s"
  have wait: "in_wait (call_waiter s)" using assms(3) by (simp add: in_wait_def)
  have "\<not> asleep (call_waiter s)" using calls_invD(1) [OF assms(1)] Some by (auto simp: waiter_inv_def)
  then have 1: "call_step s ?t" by (intro call_step.look assms wait)
  have t: "?t = s\<lparr>call_waiter := (call_waiter s)\<lparr>m_fn := None, stack := F_Run j # F_Wait k # below,
      started := started (call_waiter s) @ [j]\<rparr>\<rparr>"
    using wait Some assms(3) by (cases rule: wait_look_cases) auto
  have 2: "call_step ?t (callback_returned ?t)"
    by (rule call_step.return [where j = j and below = "F_Wait k # below"]) (simp_all add: t assms(2))
  show ?thesis
  proof (rule that)
    show "call_step\<^sup>*\<^sup>* s (callback_returned ?t)" using 1 2 by (meson r_into_rtranclp rtranclp.rtrancl_into_rtrancl)
  qed (simp_all add: t callback_returned_def fn_return_def assms(2))
qed

lemma answer_call:
  assumes "calls_inv s" "syncing s = None" "stack (call_waiter s) = F_Wait k # below" "call_phases s k \<noteq> Call_thrown"
  obtains u where "call_step\<^sup>*\<^sup>* s u" "call_phases u = (call_phases s)(k := Call_done)"
    "stack (call_waiter u) = F_Wait k # below" "m_fn (call_waiter u) = m_fn (call_waiter s)" "\<not> asleep (call_waiter u)"
    "syncing u = None" "finished u = finished s"
proof -
  let ?done = "\<lambda>s. call_done k s"
  have set: "call_phases (?done t) = (call_phases t)(k := Call_done)" "stack (call_waiter (?done t)) = stack (call_waiter t)"
    "m_fn (call_waiter (?done t)) = m_fn (call_waiter t)" "\<not> asleep (call_waiter (?done t))"
    "syncing (?done t) = syncing t" "finished (?done t) = finished t" for t
    by (simp_all add: call_done_def set_phase_def touch_def set_done_def)
  have read: "call_phases (response_read k s) = (call_phases s)(k := Call_received)" "call_waiter (response_read k s) = call_waiter s"
    "syncing (response_read k s) = syncing s" "finished (response_read k s) = finished s"
    by (simp_all add: response_read_def set_phase_def touch_def)
  have not_new: "call_phases s k \<noteq> Call_new" using calls_invD(6) [OF assms(1), of k] assms(3) by simp
  consider "call_phases s k = Call_sent" | "call_phases s k = Call_received" | "call_phases s k = Call_done"
    using not_new assms(4) by (cases "call_phases s k") auto
  then show ?thesis
  proof cases
    case 1
    have "call_step s (response_read k s)" "call_step (response_read k s) (?done (response_read k s))"
      using 1 by (auto intro!: call_step.response call_step.set_done simp: read)
    then have "call_step\<^sup>*\<^sup>* s (?done (response_read k s))" by (meson r_into_rtranclp rtranclp.rtrancl_into_rtrancl)
    then show ?thesis using that set read assms(2,3) by simp
  next
    case 2
    then have "call_step s (?done s)" by (rule call_step.set_done)
    then show ?thesis using that [OF r_into_rtranclp, of "?done s"] set assms(2,3) by simp
  next
    case 3
    then have "k \<in> sat (call_waiter s)" using calls_invD(2) [OF assms(1)] by simp
    then have "\<not> asleep (call_waiter s)" using calls_invD(1) [OF assms(1)] assms(3) by (auto simp: waiter_inv_def)
    moreover have "call_phases s = (call_phases s)(k := Call_done)" using 3 by auto
    ultimately show ?thesis using that [of s] assms(2,3) by simp
  qed
qed

lemma innermost_returns:
  assumes "calls_inv s" "syncing s = None" "stack (call_waiter s) = F_Wait k # below" "call_phases s k \<noteq> Call_thrown"
  obtains u where "call_step\<^sup>*\<^sup>* s u" "call_phases u = (call_phases s)(k := Call_done)"
    "stack (call_waiter u) = below" "syncing u = None" "finished u = finished s @ [k]"
proof -
  obtain t where t: "call_step\<^sup>*\<^sup>* s t" "call_phases t = call_phases s" "stack (call_waiter t) = F_Wait k # below"
    "m_fn (call_waiter t) = None" "syncing t = None" "finished t = finished s"
    using drain_slot [OF assms(1-3)] by blast
  have "calls_inv t" using client_calls.run_inv [OF t(1) assms(1)] .
  then obtain u where u: "call_step\<^sup>*\<^sup>* t u" "call_phases u = (call_phases t)(k := Call_done)"
    "stack (call_waiter u) = F_Wait k # below" "m_fn (call_waiter u) = m_fn (call_waiter t)" "\<not> asleep (call_waiter u)"
    "syncing u = None" "finished u = finished t"
    using answer_call [of t k below] t assms(4) by metis
  have "calls_inv u" using client_calls.run_inv [OF u(1) \<open>calls_inv t\<close>] .
  then have "k \<in> sat (call_waiter u)" using calls_invD(2) u(2) by fastforce
  moreover have wait: "in_wait (call_waiter u)" using u(3) by (simp add: in_wait_def)
  ultimately have look: "wait_look u = u\<lparr>call_waiter := (call_waiter u)\<lparr>stack := below\<rparr>, finished := finished u @ [k]\<rparr>"
    using u(3,4) t(4) by (auto elim!: wait_look_cases)
  have "call_step u (wait_look u)" by (intro call_step.look u wait)
  then have "call_step\<^sup>*\<^sup>* s (wait_look u)" using t(1) u(1) by (meson rtranclp_trans r_into_rtranclp)
  then show ?thesis using that [of "wait_look u"] t u look by simp
qed

lemma unwind:
  assumes "calls_inv s" "syncing s = None" "\<forall>k \<in> set (waits (stack (call_waiter s))). call_phases s k \<noteq> Call_thrown"
  shows "\<exists>t. call_step\<^sup>*\<^sup>* s t \<and> stack (call_waiter t) = [] \<and> syncing t = None \<and>
    finished t = finished s @ waits (stack (call_waiter s))"
  using assms
proof (induction "stack (call_waiter s)" arbitrary: s)
  case Nil
  then show ?case by (metis append_Nil2 rtranclp.rtrancl_refl waits_simps(1))
next
  case (Cons f below)
  have "\<exists>u. call_step\<^sup>*\<^sup>* s u \<and> stack (call_waiter u) = below \<and> syncing u = None \<and>
    finished u @ waits below = finished s @ waits (f # below) \<and> (\<forall>k \<in> set (waits below). call_phases u k \<noteq> Call_thrown)"
  proof (cases f)
    case (F_Run j)
    let ?u = "callback_returned s"
    have "call_step s ?u"
      by (rule call_step.return [OF Cons.prems(2), of j below]) (simp add: Cons.hyps(2) [symmetric] F_Run)
    then have "call_step\<^sup>*\<^sup>* s ?u" by blast
    moreover have "stack (call_waiter ?u) = below" "syncing ?u = None" "finished ?u = finished s" "call_phases ?u = call_phases s"
      using Cons.prems(2) Cons.hyps(2) [symmetric] by (simp_all add: callback_returned_def fn_return_def)
    ultimately show ?thesis using Cons.prems(3) F_Run by (simp add: Cons.hyps(2) [symmetric]) metis
  next
    case (F_Wait k)
    have stk: "stack (call_waiter s) = F_Wait k # below" using Cons.hyps(2) F_Wait by simp
    then have "call_phases s k \<noteq> Call_thrown" using Cons.prems(3) by simp
    from innermost_returns [OF Cons.prems(1,2) stk this]
    obtain u where u: "call_step\<^sup>*\<^sup>* s u" "call_phases u = (call_phases s)(k := Call_done)"
      "stack (call_waiter u) = below" "syncing u = None" "finished u = finished s @ [k]" .
    moreover have "call_phases u j \<noteq> Call_thrown" if "j \<in> set (waits below)" for j
      using Cons.prems(3) that u(2) stk by simp
    ultimately show ?thesis using F_Wait by auto
  qed
  then obtain u where u: "call_step\<^sup>*\<^sup>* s u" "stack (call_waiter u) = below" "syncing u = None"
    "finished u @ waits below = finished s @ waits (f # below)" "\<forall>k \<in> set (waits below). call_phases u k \<noteq> Call_thrown"
    by blast
  have "calls_inv u" using client_calls.run_inv [OF u(1) Cons.prems(1)] .
  from Cons.hyps(1) [OF u(2) [symmetric] this u(3)] u(5)
  obtain t where "call_step\<^sup>*\<^sup>* u t" "stack (call_waiter t) = []" "syncing t = None" "finished t = finished u @ waits below"
    unfolding u(2) by blast
  then show ?case using u(1,4) Cons.hyps(2) by (metis rtranclp_trans)
qed

section \<open>Properties\<close>

text \<open>
  C9. The event loop uses the variables of a call only while the call waits: a request that was sent, or whose
  response is being read, belongs to a call that has not returned. A call returns once, and only after the
  loop is done with it. All this is a run of the thread's waiter; the thread sleeps only when no callback is
  there and its innermost call is not done.
\<close>

theorem client_call_safe:
  assumes "call_step\<^sup>*\<^sup>* no_calls s"
  shows "\<not> dangling s \<and> {k. call_phases s k \<in> {Call_sent, Call_received}} \<subseteq> frames s \<and>
    distinct (finished s) \<and> set (finished s) \<inter> frames s = {} \<and> call_phases s ` set (finished s) \<subseteq> {Call_done} \<and>
    waiter_step\<^sup>*\<^sup>* new_waiter (call_waiter s) \<and>
    (asleep (call_waiter s) \<longrightarrow> m_fn (call_waiter s) = None \<and>
       (\<exists>k below. stack (call_waiter s) = F_Wait k # below \<and> call_phases s k \<noteq> Call_done))"
proof -
  note inv = calls_invD [OF client_calls.reachable_inv [OF refl assms]]
  have "set (finished s) \<inter> frames s = {}"
    using inv(3,5) by (auto simp: frames_eq)
  moreover have "m_fn (call_waiter s) = None \<and>
      (\<exists>k below. stack (call_waiter s) = F_Wait k # below \<and> call_phases s k \<noteq> Call_done)" if "asleep (call_waiter s)"
    using inv(1,2) that by (auto simp: waiter_inv_def)
  ultimately show ?thesis using inv(3,7,9,10) calls_waiter_run [OF assms] by auto
qed

text \<open>
  C5. Calls return: at any moment, whatever calls and callbacks are nested, the thread can return from all its
  calls, the inner ones first, unless the request of one of them could not be built. The wait for
  one call never blocks another.
\<close>

theorem client_calls_return:
  assumes "call_step\<^sup>*\<^sup>* no_calls s" and "Call_thrown \<notin> call_phases s ` frames s"
  shows "\<exists>t. call_step\<^sup>*\<^sup>* s t \<and> frames t = {} \<and>
    finished t = finished s @ (case syncing s of None \<Rightarrow> [] | Some k \<Rightarrow> [k]) @ waits (stack (call_waiter s))"
proof -
  have inv: "calls_inv s" using client_calls.reachable_inv [OF refl assms(1)] .
  have ok: "call_phases s k \<noteq> Call_thrown" if "k \<in> frames s" for k using assms(2) that by (metis imageI)
  obtain u where u: "call_step\<^sup>*\<^sup>* s u" "syncing u = None" "finished u = finished s"
    "waits (stack (call_waiter u)) = (case syncing s of None \<Rightarrow> [] | Some k \<Rightarrow> [k]) @ waits (stack (call_waiter s))"
    "\<forall>k \<in> set (waits (stack (call_waiter u))). call_phases u k \<noteq> Call_thrown"
  proof (cases "syncing s")
    case None
    then show ?thesis using that [of s] ok by (auto simp: frames_eq)
  next
    case (Some k)
    define v where "v = (if call_phases s k = Call_new then send_request True False k s else s)"
    have v: "call_step\<^sup>*\<^sup>* s v" "syncing v = Some k" "call_phases v k \<notin> {Call_new, Call_thrown}" "finished v = finished s"
      "call_waiter v = call_waiter s" "\<And>j. j \<noteq> k \<Longrightarrow> call_phases v j = call_phases s j"
      using Some ok [of k] call_step.send [of s k True False]
      by (auto simp: v_def send_request_def set_phase_def touch_def frames_def)
    have "call_step v (sync_returned k v)" using call_step.synced v(2,3) by simp
    then have "call_step\<^sup>*\<^sup>* s (sync_returned k v)" using v(1) by (rule rtranclp.rtrancl_into_rtrancl [rotated])
    moreover have "call_phases v j \<noteq> Call_thrown" if "j \<in> set (waits (stack (call_waiter s)))" for j
      using v(3,6) ok [of j] that by (cases "j = k") (auto simp: frames_eq)
    ultimately show ?thesis
      using v that [of "sync_returned k v"] Some by (simp add: sync_returned_def wait_call_def)
  qed
  have "calls_inv u" using client_calls.run_inv [OF u(1) inv] .
  from unwind [OF this u(2,5)] obtain t where t: "call_step\<^sup>*\<^sup>* u t" "stack (call_waiter t) = []" "syncing t = None"
    "finished t = finished u @ waits (stack (call_waiter u))" by blast
  then have "frames t = {}" "call_step\<^sup>*\<^sup>* s t" using u(1) by (simp_all add: frames_eq)
  then show ?thesis using t(4) u(3,4) by auto
qed

text \<open>
  When the function that builds and sends the request throws, the loop logs the exception, \<open>post\<close> returns
  without an error, and the call waits for ever for a \<open>done\<close> that nobody sets.
\<close>

theorem failed_send_hangs:
  assumes "call_step\<^sup>*\<^sup>* no_calls s" "call_phases s k = Call_thrown" "call_step\<^sup>*\<^sup>* s t"
  shows "k \<in> frames t \<and> k \<notin> set (finished t)"
proof -
  have "call_phases t k = Call_thrown"
    using assms(3,2)
  proof (induction rule: rtranclp_induct)
    case (step u v)
    then have "call_phases u k = Call_thrown" by simp
    with step(2) show ?case
      by cases (auto simp: call_sync_def send_request_def call_done_def set_phase_def touch_def sync_returned_def
          response_read_def post_callback_def wait_look_def callback_returned_def Let_def)
  qed
  moreover note inv = calls_invD [OF client_calls.reachable_inv [OF refl rtranclp_trans [OF assms(1,3)]]]
  ultimately show ?thesis using inv(7) [of k] inv(9) [of k] by auto
qed

section \<open>Examples\<close>

text \<open>A call, in its wait a callback, in the callback a second call; both requests are sent.\<close>

definition callback_calls :: client_calls where
  "callback_calls =
     \<lparr>call_waiter = \<lparr>m_fn = None, stack = [F_Run 7, F_Wait 0], asleep = False, sat = {}, posted = [7], started = [7]\<rparr>,
      syncing = Some 1, call_phases = (\<lambda>_. Call_new)(0 := Call_sent, 1 := Call_sent), calls_made = 2, finished = [],
      dangling = False\<rparr>"

definition send_fails :: client_calls where
  "send_fails = send_request True True 0 (call_sync no_calls)"

lemmas call_defs = no_calls_def new_waiter_def call_sync_def send_request_def set_phase_def touch_def frames_def
  sync_returned_def wait_call_def wait_look_def wait_check_def post_callback_def Waiter_post_def in_wait_def Let_def

lemma send_fails_reachable: "call_step\<^sup>*\<^sup>* no_calls send_fails"
proof -
  have "call_step no_calls (call_sync no_calls)" by (rule call_step.call) (simp_all add: call_defs)
  moreover have "call_step (call_sync no_calls) send_fails"
    unfolding send_fails_def by (rule call_step.send) (simp_all add: call_defs)
  ultimately show ?thesis by simp
qed

lemma callback_calls_reachable: "call_step\<^sup>*\<^sup>* no_calls callback_calls"
proof -
  let ?a = "call_sync no_calls"
  let ?b = "send_request True False 0 ?a"
  let ?c = "sync_returned 0 ?b"
  let ?d = "post_callback 7 ?c"
  let ?e = "wait_look ?d"
  let ?f = "call_sync ?e"
  let ?g = "send_request True False 1 ?f"
  have "call_step no_calls ?a" by (rule call_step.call) (simp_all add: call_defs)
  also have "call_step\<^sup>*\<^sup>* \<dots> ?b" by (rule r_into_rtranclp, rule call_step.send) (simp_all add: call_defs)
  also have "call_step\<^sup>*\<^sup>* \<dots> ?c" by (rule r_into_rtranclp, rule call_step.synced) (simp_all add: call_defs)
  also have "call_step\<^sup>*\<^sup>* \<dots> ?d" by (rule r_into_rtranclp, rule call_step.callback)
  also have "call_step\<^sup>*\<^sup>* \<dots> ?e" by (rule r_into_rtranclp, rule call_step.look) (simp_all add: call_defs)
  also have "call_step\<^sup>*\<^sup>* \<dots> ?f" by (rule r_into_rtranclp, rule call_step.call) (simp_all add: call_defs)
  also have "call_step\<^sup>*\<^sup>* \<dots> ?g" by (rule r_into_rtranclp, rule call_step.send) (simp_all add: call_defs)
  also have "?g = callback_calls" by (simp add: call_defs callback_calls_def numeral_2_eq_2)
  finally show ?thesis .
qed

theorem client_call_safe_witness: "{0, 1} \<subseteq> frames callback_calls \<and> \<not> dangling callback_calls"
  using client_call_safe [OF callback_calls_reachable] by (auto simp: callback_calls_def)

theorem client_calls_return_witness:
  "\<exists>t. call_step\<^sup>*\<^sup>* callback_calls t \<and> frames t = {} \<and> finished t = [1, 0]"
proof -
  have "Call_thrown \<notin> call_phases callback_calls ` frames callback_calls"
    by (auto simp: callback_calls_def frames_def)
  from client_calls_return [OF callback_calls_reachable this] show ?thesis
    by (simp add: callback_calls_def)
qed

theorem failed_send_hangs_witness: "0 \<notin> set (finished (sync_returned 0 send_fails))"
proof -
  have "call_step send_fails (sync_returned 0 send_fails)"
    by (rule call_step.synced) (simp_all add: send_fails_def call_defs)
  then show ?thesis
    using failed_send_hangs [OF send_fails_reachable _ r_into_rtranclp, of 0] by (simp add: send_fails_def call_defs)
qed

end
