(* ===== verification/Callbacks.thy ===== *)
theory Callbacks
  imports CallProps
begin

text \<open>
  Functions as arguments (\<open>include/mp/type-function.h\<close>): how a \<open>std::function\<close> that was passed to the
  other side is called there, and what a method that is passed functions amounts to.
\<close>

section \<open>The client method\<close>

text \<open>
  A function or method as its caller sees it: it gets variables, and leaves them changed. \<open>None\<close>
  is a call that does not return.
\<close>

type_synonym ('v, 'x, 's) callable =
  "'v var list \<Rightarrow> 's \<Rightarrow> (('x exn + 'v option) \<times> 'v var list \<times> 's) option"

text \<open>
  The method of the client class that the generator writes: a variable for the result, \<open>clientInvoke\<close>
  on the parameters and this variable, and its value. The state is that of the calling process and that of the other.
\<close>

definition client_env :: "('v, 'm) field_type \<Rightarrow> 'v var list \<Rightarrow> nat \<Rightarrow> 'v var" where
  "client_env cr args k = (if k < length args then args ! k else Val (default_value cr))"

definition result_value :: "'v var \<Rightarrow> 'v option" where
  "result_value x = (case x of Val v \<Rightarrow> Some v | Ptr y \<Rightarrow> None)"

definition client_method ::
  "('x, 'm, 'c) overloads \<Rightarrow> ('c, 'x exn) LogOptions \<Rightarrow> bool \<Rightarrow> ('v, 'm) field_type \<Rightarrow>
   ('v, 'm) method_field list \<Rightarrow> 'm message \<Rightarrow> ('m message \<Rightarrow> 'w \<Rightarrow> ('m response \<times> 'w) option) \<Rightarrow>
   ('v, 'x, 'c \<times> 'w) callable" where
  "client_method ov opts connected cr fs request0 send args s =
     map_option
       (\<lambda>(r, env, st, w).
          (bind_res r (\<lambda>_. Inr (if has_ret fs then result_value (env (length args)) else None)),
           map env [0..<length args], st, w))
       (clientInvoke ov opts connected (client_fields 0 fs) (Fields_of cr fs) request0 send
          (client_env cr args) (fst s) (snd s))"

section \<open>Functions that are passed\<close>

text \<open>
  \<open>ProxyCallbackImpl\<close> is the implementation behind the callback interface, in the process that
  passed the function; \<open>ProxyCallFn\<close> is the function object that the other process gets.
\<close>

definition ProxyCallbackImpl_call :: "('v, 'x, 'w) cpp_method \<Rightarrow> ('v, 'x, 'w) cpp_method" where
  "ProxyCallbackImpl_call m_fn args w = m_fn args w"

text \<open>The declarations of a callback interface, as both processes have them.\<close>

record ('v, 'x, 'm, 'c, 'w) callback_interface =
  client_overloads :: "('x, 'm, 'c) overloads"
  server_overloads :: "('x, 'm, 'w) overloads"
  client_options :: "('c, 'x exn) LogOptions"
  exn_text :: "'x exn \<Rightarrow> string"
  return_type :: "('v, 'm) field_type"
  callback_fields :: "('v, 'm) method_field list"
  request_message :: "'m message"
  results_message :: "'m message"

definition callback_server ::
  "('v, 'x, 'm, 'c, 'w) callback_interface \<Rightarrow> ('v, 'x, 'w) cpp_method \<Rightarrow> 'm message \<Rightarrow> 'w \<Rightarrow>
   ('m response \<times> 'w) option" where
  "callback_server d impl =
     serverInvoke (server_overloads d) (return_type d) (ServerCall (server_overloads d) impl False) (exn_text d)
       (server_layers (callback_fields d)) (Params (callback_fields d)) (results_message d)"

definition ProxyCallFn ::
  "('v, 'x, 'm, 'c, 'w) callback_interface \<Rightarrow> bool \<Rightarrow> ('m message \<Rightarrow> 'w \<Rightarrow> ('m response \<times> 'w) option) \<Rightarrow>
   ('v, 'x, 'c \<times> 'w) callable" where
  "ProxyCallFn d connected m_proxy params =
     client_method (client_overloads d) (client_options d) connected (return_type d) (callback_fields d)
       (request_message d) m_proxy params"

text \<open>
  Building and reading the field: an empty function leaves it unset, an unset field is read as an
  empty function.
\<close>

definition build_function_field ::
  "('v, 'x, 'm, 'c, 'w) callback_interface \<Rightarrow> ('v, 'x, 'w) cpp_method option \<Rightarrow>
   ('m message \<Rightarrow> 'w \<Rightarrow> ('m response \<times> 'w) option) option" where
  "build_function_field d fn =
     (case fn of
        None \<Rightarrow> None
      | Some f \<Rightarrow> Some (callback_server d (ProxyCallbackImpl_call f)))"

definition read_function_field ::
  "('v, 'x, 'm, 'c, 'w) callback_interface \<Rightarrow> bool \<Rightarrow>
   ('m message \<Rightarrow> 'w \<Rightarrow> ('m response \<times> 'w) option) option \<Rightarrow> ('v, 'x, 'c \<times> 'w) callable option" where
  "read_function_field d connected input =
     (case input of
        None \<Rightarrow> None
      | Some cap \<Rightarrow> Some (ProxyCallFn d connected cap))"

definition passed_function ::
  "('v, 'x, 'm, 'c, 'w) callback_interface \<Rightarrow> ('v, 'x, 'w) cpp_method option \<Rightarrow>
   ('v, 'x, 'c \<times> 'w) callable option" where
  "passed_function d fn = read_function_field d True (build_function_field d fn)"

text \<open>A call of a \<open>std::function\<close>; an empty one throws. \<open>bad\<close> is the value of the exception.\<close>

definition call_function :: "'x \<Rightarrow> ('v, 'x, 's) callable option \<Rightarrow> ('v, 'x, 's) callable" where
  "call_function bad fn args s =
     (case fn of
        None \<Rightarrow> Some (Inl (Exn ''std::bad_function_call'' bad), args, s)
      | Some f \<Rightarrow> f args s)"

section \<open>Methods that are passed functions\<close>

text \<open>
  The same function called where it was made: by-value parameters are copies of the
  caller's variables.
\<close>

fun pass_back :: "('v, 'm) cpp_type list \<Rightarrow> 'v var list \<Rightarrow> 'v var list \<Rightarrow> 'v var list" where
  "pass_back (By_value c # ts) (x # xs) (y # ys) = x # pass_back ts xs ys"
| "pass_back (_ # ts) (x # xs) (y # ys) = y # pass_back ts xs ys"
| "pass_back _ xs ys = []"

definition direct_call ::
  "('v, 'm) cpp_type list \<Rightarrow> ('v, 'x, 'w) cpp_method \<Rightarrow> ('v, 'x, 'c \<times> 'w) callable" where
  "direct_call types f args s =
     (case f args (snd s) of (r, args', w) \<Rightarrow> Some (r, pass_back types args args', fst s, w))"

definition direct_function ::
  "('v, 'x, 'm, 'c, 'w) callback_interface \<Rightarrow> ('v, 'x, 'w) cpp_method option \<Rightarrow>
   ('v, 'x, 'c \<times> 'w) callable option" where
  "direct_function d fn = map_option (direct_call (Params (callback_fields d))) fn"

text \<open>
  The body of a method with functions among its arguments: it ends with a result and the
  variables it leaves, does something in its own process, or calls one of the functions and goes on with what
  came of it.
\<close>

datatype (dead 'v, dead 'x, dead 'c) body =
    Finish "'x exn + 'v option" "'v var list"
  | Local "'c \<Rightarrow> 'c" "'c \<Rightarrow> ('v, 'x, 'c) body"
  | Invoke nat "'v var list" "'x exn + 'v option \<Rightarrow> 'v var list \<Rightarrow> ('v, 'x, 'c) body"

primrec run_body ::
  "'x \<Rightarrow> (nat \<Rightarrow> ('v, 'x, 'c \<times> 'w) callable option) \<Rightarrow> ('v, 'x, 'c) body \<Rightarrow> 'c \<times> 'w \<Rightarrow>
   (('x exn + 'v option) \<times> 'v var list \<times> 'c \<times> 'w) option" where
  "run_body bad fns (Finish r args) = (\<lambda>s. Some (r, args, s))"
| "run_body bad fns (Local f k) = (\<lambda>s. run_body bad fns (k (fst s)) (f (fst s), snd s))"
| "run_body bad fns (Invoke i args k) =
     (\<lambda>s. case call_function bad (fns i) args s of
        None \<Rightarrow> None
      | Some (r, args', s') \<Rightarrow> run_body bad fns (k r args') s')"

text \<open>A condition on every call that is made.\<close>

primrec every_call ::
  "'x \<Rightarrow> (nat \<Rightarrow> ('v, 'x, 'c \<times> 'w) callable option) \<Rightarrow> (nat \<Rightarrow> 'v var list \<Rightarrow> 'c \<times> 'w \<Rightarrow> bool) \<Rightarrow>
   ('v, 'x, 'c) body \<Rightarrow> 'c \<times> 'w \<Rightarrow> bool" where
  "every_call bad fns P (Finish r args) = (\<lambda>s. True)"
| "every_call bad fns P (Local f k) = (\<lambda>s. every_call bad fns P (k (fst s)) (f (fst s), snd s))"
| "every_call bad fns P (Invoke i args k) =
     (\<lambda>s. P i args s \<and>
        (case call_function bad (fns i) args s of
           None \<Rightarrow> True
         | Some (r, args', s') \<Rightarrow> every_call bad fns P (k r args') s'))"

text \<open>
  Functions that behave alike on the calls they are good for can replace each other.
\<close>

locale replaceable =
  fixes fns gns :: "nat \<Rightarrow> ('v, 'x, 'c \<times> 'w) callable option"
    and good :: "nat \<Rightarrow> 'v var list \<Rightarrow> 'c \<times> 'w \<Rightarrow> bool"
  assumes same_emptiness: "(fns i = None) = (gns i = None)"
    and same_calls: "fns i = Some f \<Longrightarrow> gns i = Some g \<Longrightarrow> good i args s \<Longrightarrow> f args s = g args s"
begin

lemma call_same: "good i args s \<Longrightarrow> call_function bad (fns i) args s = call_function bad (gns i) args s"
  using same_emptiness [of i] same_calls [of i] by (cases "fns i"; cases "gns i") (simp_all add: call_function_def)

lemma run_same: "every_call bad gns good b s \<Longrightarrow> run_body bad fns b s = run_body bad gns b s"
proof (induction b arbitrary: s)
  case (Invoke i args k)
  show ?case
    using Invoke.prems Invoke.IH [OF rangeI rangeI] by (auto simp: call_same split: option.splits)
qed auto

end

section \<open>What a callback needs\<close>

text \<open>
  All parameters are sent, and what is not a result is not changed: a reference or pointer to \<open>const\<close>.
\<close>

fun args_sent :: "('v, 'm) method_field list \<Rightarrow> bool" where
  "args_sent [] = True"
| "args_sent (Arg a t # fs) = (acc_in (snd a) \<and> args_sent fs)"
| "args_sent (_ # fs) = args_sent fs"

fun consts_kept :: "('v, 'm) method_field list \<Rightarrow> 'v var list \<Rightarrow> 'v var list \<Rightarrow> bool" where
  "consts_kept [] old new = True"
| "consts_kept (Arg a (By_value c) # fs) old new = consts_kept fs (tl old) (tl new)"
| "consts_kept (Arg a t # fs) old new = ((acc_out (snd a) \<or> hd old = hd new) \<and> consts_kept fs (tl old) (tl new))"
| "consts_kept (_ # fs) old new = consts_kept fs old new"

text \<open>
  A result that can be sent back; an exception that is declared by its own type, which no handler
  further in catches.
\<close>

definition result_ok :: "('v, 'x, 'm, 'c, 'w) callback_interface \<Rightarrow> 'v option \<Rightarrow> bool" where
  "result_ok d ret \<longleftrightarrow>
     (if has_ret (callback_fields d)
      then (\<forall>a. Ret a \<in> set (callback_fields d) \<longrightarrow> (\<exists>v. ret = Some v \<and> travels (return_type d) (snd a) v))
      else ret = None)"

definition exception_ok :: "('v, 'x, 'm, 'c, 'w) callback_interface \<Rightarrow> string \<Rightarrow> 'x \<Rightarrow> bool" where
  "exception_ok d t x \<longleftrightarrow>
     (\<exists>gs a hs. callback_fields d = gs @ Exc t a # hs \<and> t \<noteq> ''std::exception'' \<and>
        is_a (server_overloads d) t t \<and> \<not> catches (is_a (server_overloads d)) t hs \<and>
        unset (exn_field (client_overloads d) t) (results_message d (fst a)) \<and>
        travels (exn_field (client_overloads d) t) (snd a) x \<and>
        CustomHasField (exn_field (client_overloads d) t) (Member (snd a))
          (BuildField (exn_field (client_overloads d) t) (Member (snd a)) x (results_message d (fst a))))"

definition callback_ok ::
  "('v, 'x, 'm, 'c, 'w) callback_interface \<Rightarrow> ('v, 'x, 'w) cpp_method \<Rightarrow> 'v var list \<Rightarrow> 'w \<Rightarrow> bool" where
  "callback_ok d f args w \<longleftrightarrow>
     call_ok (client_overloads d) (server_overloads d) (return_type d) (callback_fields d)
       (client_env (return_type d) args) (request_message d) (results_message d) \<and>
     length args = length (Params (callback_fields d)) \<and> args_sent (callback_fields d) \<and>
     (case f args w of (r, args', w') \<Rightarrow>
        list_all2 same_shape args args' \<and> consts_kept (callback_fields d) args args' \<and>
        answerable_args (callback_fields d) args' \<and>
        (case r of Inr ret \<Rightarrow> result_ok d ret | Inl (Exn t x) \<Rightarrow> exception_ok d t x))"

section \<open>A callback is a call\<close>

lemma passed_args_sent:
  assumes "sendable_args env k fs" "args_sent fs" "\<forall>i < length (Params fs). env (k + i) = args ! i"
    "length args = length (Params fs)"
  shows "passed_args env k fs = args"
  using assms
proof (induction env k fs arbitrary: args rule: sendable_args.induct)
  case (2 env k a t fs)
  obtain x xs where args: "args = x # xs" using 2(5) by (cases args) auto
  have x: "env k = x" using 2(4) args by fastforce
  have "env (Suc k + i) = xs ! i" if "i < length (Params fs)" for i
    using 2(4) [rule_format, of "Suc i"] that args by simp
  then have "passed_args env (Suc k) fs = xs" using 2 args by simp
  moreover have "passed (snd a) t x = x"
    using 2(2,3) x by (cases t; cases x) (auto split: option.splits)
  ultimately show ?case using x args by simp
qed simp_all

lemma final_env_other: "j < k \<Longrightarrow> final_env env k fs args ret j = env j"
  by (induction env k fs args ret rule: final_env.induct) auto

lemma passed_back:
  assumes "sendable_args env k fs" "args_sent fs" "\<forall>i < length (Params fs). env (k + i) = args ! i"
    "length args = length (Params fs)" "list_all2 same_shape args args'" "consts_kept fs args args'"
    "well_ordered fs"
  shows "map (final_env env k fs args' ret) [k..<k + length (Params fs)] = pass_back (Params fs) args args'"
  using assms
proof (induction env k fs args' ret arbitrary: args rule: final_env.induct)
  case (2 env k a t fs args' ret)
  obtain x xs y ys where args: "args = x # xs" "args' = y # ys" "same_shape x y"
    using 2(5,6) by (cases args; cases args') auto
  have x: "env k = x" using 2(4) args by fastforce
  let ?env = "env(k := returned (snd a) t (env k) y)"
  have "\<forall>i < length (Params fs). ?env (Suc k + i) = xs ! i"
  proof (intro allI impI)
    fix i assume "i < length (Params fs)"
    then show "?env (Suc k + i) = xs ! i" using 2(4) [rule_format, of "Suc i"] args by simp
  qed
  moreover have "sendable_args ?env (Suc k) fs" using 2(2) by (simp add: env_upd)
  moreover have "consts_kept fs xs ys" using 2(7) args by (cases t) simp_all
  ultimately have "map (final_env ?env (Suc k) fs ys ret) [Suc k..<Suc k + length (Params fs)] =
      pass_back (Params fs) xs ys"
    using 2(1) [of xs] 2(3,5,6,8) args by (simp add: fun_upd_def del: upt_Suc)
  moreover have "final_env ?env (Suc k) fs ys ret k = ?env k" by (rule final_env_other) simp
  moreover have "[k..<k + length (Params (Arg a t # fs))] = k # [Suc k..<Suc k + length (Params fs)]"
    by (simp add: upt_conv_Cons del: upt_Suc)
  ultimately have all: "map (final_env env k (Arg a t # fs) args' ret) [k..<k + length (Params (Arg a t # fs))] =
      returned (snd a) t x y # pass_back (Params fs) xs ys"
    using x args by (simp add: fun_upd_def del: upt_Suc)
  have "returned (snd a) t x y # pass_back (Params fs) xs ys = pass_back (t # Params fs) (x # xs) (y # ys)"
    using 2(2,7) x args by (cases t; cases x; cases y) (auto split: option.splits)
  then show ?case using all args by simp
qed auto

lemma prefix_sent:
  "args_sent (gs @ hs) \<Longrightarrow> args_sent gs"
  "consts_kept (gs @ hs) old new \<Longrightarrow> consts_kept gs old new"
proof -
  show "args_sent (gs @ hs) \<Longrightarrow> args_sent gs"
    by (induction gs rule: args_sent.induct) auto
  show "consts_kept (gs @ hs) old new \<Longrightarrow> consts_kept gs old new"
    by (induction gs old new rule: consts_kept.induct) auto
qed

lemma exception_last:
  assumes "well_ordered (gs @ Exc t a # hs)"
  shows "Params hs = []" "\<not> has_ret gs"
proof -
  have "Params hs = [] \<and> \<not> has_ret gs"
    using assms
  proof (induction gs)
    case (Cons g gs)
    then show ?case by (cases g) auto
  qed simp
  then show "Params hs = []" "\<not> has_ret gs" by blast+
qed

lemma callback_okD:
  assumes "callback_ok d f args w" "f args w = (r, args', w')"
  shows "call_ok (client_overloads d) (server_overloads d) (return_type d) (callback_fields d)
      (client_env (return_type d) args) (request_message d) (results_message d)"
    and "length args = length (Params (callback_fields d))" "args_sent (callback_fields d)"
    and "list_all2 same_shape args args'" "consts_kept (callback_fields d) args args'"
    and "answerable_args (callback_fields d) args'"
    and "sendable_args (client_env (return_type d) args) 0 (callback_fields d)" "well_ordered (callback_fields d)"
    and "case r of Inr ret \<Rightarrow> result_ok d ret | Inl (Exn t x) \<Rightarrow> exception_ok d t x"
  using assms by (auto simp: callback_ok_def call_ok_def)

lemma client_env_args: "i < length args \<Longrightarrow> client_env cr args i = args ! i"
  by (simp add: client_env_def)

lemma callback_args:
  assumes "callback_ok d f args w"
  shows "passed_args (client_env (return_type d) args) 0 (callback_fields d) = args"
proof -
  obtain r args' w' where "f args w = (r, args', w')" by (cases "f args w") auto
  note ok = callback_okD [OF assms this]
  show ?thesis
    by (rule passed_args_sent [OF ok(7,3) _ ok(2)]) (simp add: client_env_args ok(2))
qed

text \<open>What the variables of the client method hold at its end, also when an exception field ends the reading.\<close>

lemma callback_env:
  assumes "callback_ok d f args w" "f args w = (r, args', w')" "callback_fields d = gs @ hs" "Params hs = []"
  shows "map (final_env (client_env (return_type d) args) 0 gs args' ret) [0..<length args] =
    pass_back (Params (callback_fields d)) args args'"
proof -
  note ok = callback_okD [OF assms(1,2)]
  have same: "Params (callback_fields d) = Params gs" using assms(3,4) by (simp add: Params_append)
  have "map (final_env (client_env (return_type d) args) 0 gs args' ret) [0..<0 + length (Params gs)] =
      pass_back (Params gs) args args'"
    using ok(2-5,7,8) unfolding same assms(3)
    by (intro passed_back) (auto simp: client_env_args Params_append assms(4) intro: prefix_simps prefix_sent)
  then show ?thesis using ok(2) same by simp
qed

lemma client_method_receives:
  assumes "callback_ok d f args w" "f args w = (r, args', w')"
    and "callback_server d (ProxyCallbackImpl_call f)
      (request_of (client_overloads d) (client_env (return_type d) args) 0 (callback_fields d) (request_message d)) w =
      Some (response, w')"
    and "receive (client_overloads d) (client_fields 0 (callback_fields d)) (Fields_of (return_type d) (callback_fields d))
      response (client_env (return_type d) args, c) = Some (res, env, c)"
    and "client_return (client_options d) res c = (q, c)"
    and "map env [0..<length args] = pass_back (Params (callback_fields d)) args args'"
    and "bind_res q (\<lambda>_. Inr (if has_ret (callback_fields d) then result_value (env (length args)) else None)) = r"
  shows "ProxyCallFn d True (callback_server d (ProxyCallbackImpl_call f)) args (c, w) =
    direct_call (Params (callback_fields d)) f args (c, w)"
  using clientInvoke_sent [where opts = "client_options d" and send = "callback_server d (ProxyCallbackImpl_call f)",
      OF callback_okD(1) [OF assms(1,2)] assms(3,4)] assms(2,5-7)
  by (simp add: ProxyCallFn_def client_method_def direct_call_def)

lemma callback_serves:
  assumes "callback_ok d f args w" "f args w = (r, args', w')"
  shows "callback_server d (ProxyCallbackImpl_call f)
      (request_of (client_overloads d) (client_env (return_type d) args) 0 (callback_fields d) (request_message d)) w =
    Some (case outcome (is_a (server_overloads d)) (callback_fields d) r of
            Inl e \<Rightarrow> Kj_failed (exn_text d e)
          | Inr _ \<Rightarrow> Response (answers (server_overloads d) (return_type d) (callback_fields d) args' r (results_message d)), w')"
proof -
  note ok = callback_okD [OF assms]
  have "has_ret (callback_fields d) \<longrightarrow> r \<noteq> Inr None"
    using ok(9) has_ret_member [of "callback_fields d"] by (auto simp: result_ok_def)
  then show ?thesis
    unfolding callback_server_def using ok(4) assms(2)
    by (intro serverInvoke_run [OF ok(1)]) (simp_all add: callback_args [OF assms(1)] ProxyCallbackImpl_call_def)
qed

lemma has_ret_iff: "has_ret fs \<longleftrightarrow> (\<exists>a. Ret a \<in> set fs)"
  by (induction fs rule: has_ret.induct) auto

lemma callback_result:
  assumes "callback_ok d f args w" "f args w = (Inr ret, args', w')"
  shows "(if has_ret (callback_fields d)
      then result_value (final_env (client_env (return_type d) args) 0 (callback_fields d) args' ret (length args))
      else None) = ret"
proof (cases "has_ret (callback_fields d)")
  case True
  note ok = callback_okD [OF assms]
  obtain gs a where gs: "callback_fields d = gs @ [Ret a]" "\<not> has_ret gs"
    using ret_split [OF ok(8) True] by blast
  have "length args' = length (Params gs)"
    using ok(2,4) gs(1) by (simp add: Params_append list_all2_lengthD)
  moreover have "length args = length args'" using ok(4) by (simp add: list_all2_lengthD)
  moreover have "\<exists>v. ret = Some v" 
  proof -
    have "Ret a \<in> set (callback_fields d)" using gs(1) by simp
    then show ?thesis using ok(9) True unfolding result_ok_def sum.case by metis
  qed
  ultimately show ?thesis using True gs by (auto simp: final_env_append result_value_def)
next
  case False
  then show ?thesis using callback_okD(9) [OF assms] by (simp add: result_ok_def)
qed

lemma callback_returns:
  assumes "callback_ok d f args w" "f args w = (Inr ret, args', w')"
  shows "ProxyCallFn d True (callback_server d (ProxyCallbackImpl_call f)) args (c, w) =
    direct_call (Params (callback_fields d)) f args (c, w)"
proof -
  note ok = callback_okD [OF assms]
  have ret: "\<exists>v. ret = Some v \<and> travels (return_type d) (snd a) v" if "Ret a \<in> set (callback_fields d)" for a
  proof -
    have "has_ret (callback_fields d)" using that has_ret_iff by blast
    then show ?thesis using ok(9) that unfolding result_ok_def sum.case by metis
  qed
  have args: "list_all2 same_shape (passed_args (client_env (return_type d) args) 0 (callback_fields d)) args'"
    using ok(4) by (simp add: callback_args [OF assms(1)])
  have serves: "callback_server d (ProxyCallbackImpl_call f)
      (request_of (client_overloads d) (client_env (return_type d) args) 0 (callback_fields d) (request_message d)) w =
      Some (Response (answers (server_overloads d) (return_type d) (callback_fields d) args' (Inr ret) (results_message d)), w')"
    using callback_serves [OF assms] by (simp add: outcome_returned)
  show ?thesis
    by (rule client_method_receives [OF assms serves receive_returned [OF ok(1) args ok(6) ret] no_result_returns])
      (use callback_env [OF assms, of "callback_fields d" "[]" ret] callback_result [OF assms] in simp_all)
qed

lemma callback_throws:
  assumes "callback_ok d f args w" "f args w = (Inl (Exn t x), args', w')"
  shows "ProxyCallFn d True (callback_server d (ProxyCallbackImpl_call f)) args (c, w) =
    direct_call (Params (callback_fields d)) f args (c, w)"
proof -
  note ok = callback_okD [OF assms]
  obtain gs a hs where exn: "callback_fields d = gs @ Exc t a # hs" "t \<noteq> ''std::exception''"
      "is_a (server_overloads d) t t" "\<not> catches (is_a (server_overloads d)) t hs"
      "unset (exn_field (client_overloads d) t) (results_message d (fst a))"
      "travels (exn_field (client_overloads d) t) (snd a) x"
      "CustomHasField (exn_field (client_overloads d) t) (Member (snd a))
        (BuildField (exn_field (client_overloads d) t) (Member (snd a)) x (results_message d (fst a)))"
    using ok(9) by (auto simp: exception_ok_def)
  let ?r = "Inl (Exn t x)"
  have hs: "outcome (is_a (server_overloads d)) hs ?r = Inl (Exn t x)" by (rule outcome_uncaught [OF exn(4)])
  then have "outcome (is_a (server_overloads d)) (Exc t a # hs) ?r = Inr None" using exn(3) by simp
  then obtain y where "outcome (is_a (server_overloads d)) (callback_fields d) ?r = Inr y"
    using outcome_Inr [of "is_a (server_overloads d)" "Exc t a # hs" ?r None gs] exn(1) by auto
  then have serves: "callback_server d (ProxyCallbackImpl_call f)
      (request_of (client_overloads d) (client_env (return_type d) args) 0 (callback_fields d) (request_message d)) w =
      Some (Response (answers (server_overloads d) (return_type d) (callback_fields d) args' ?r (results_message d)), w')"
    using callback_serves [OF assms] by simp
  have args: "list_all2 same_shape (passed_args (client_env (return_type d) args) 0 (callback_fields d)) args'"
    using ok(4) by (simp add: callback_args [OF assms(1)])
  have last: "Params (Exc t a # hs) = []" using exception_last(1) [of gs t a hs] ok(8) exn(1) by simp
  have throw: "ThrowField (client_overloads d) t (snd a)
      (BuildField (exn_field (client_overloads d) t) (Member (snd a)) x (results_message d (fst a))) = Exn t x"
    using travelsD [OF exn(6,5)] exn(2) by (simp add: ThrowField_def)
  show ?thesis
    by (rule client_method_receives [where q = "Inl (Exn t x)", OF assms serves receive_exception [OF ok(1) exn(1) hs exn(3) args ok(6) exn(7)]])
      (use callback_env [OF assms exn(1) last] throw in \<open>simp_all add: client_return_def no_result_def\<close>)
qed

lemma callback_is_call:
  assumes "callback_ok d f args w"
  shows "ProxyCallFn d True (callback_server d (ProxyCallbackImpl_call f)) args (c, w) =
    direct_call (Params (callback_fields d)) f args (c, w)"
proof -
  obtain r args' w' where run: "f args w = (r, args', w')" by (cases "f args w") auto
  then show ?thesis
    using callback_returns [OF assms] callback_throws [OF assms] by (cases r; cases "projl r") auto
qed

text \<open>After a disconnect a callback ends with what the log callback throws, and the function is not called.\<close>

lemma callback_disconnected:
  assumes "log_fn (client_options d) = Some f"
    and "f \<lparr>message = ''IPC client method called after disconnect.'', level = Raise\<rparr> c = (Inl e, c')"
  shows "ProxyCallFn d False cap args (c, w) = Some (Inl e, args, c', w)"
proof -
  have "MP_LOGPLAIN (client_options d) Raise [m] st = f \<lparr>message = m, level = Raise\<rparr> st" for m st
    using assms(1) by (cases "log_level (client_options d)")
      (simp_all add: MP_LOGPLAIN_def enabled_def new_logger_def put_def Logger_dtor_def less_eq_Log_def)
  moreover have "map (client_env (return_type d) args) [0..<length args] = args"
    by (rule nth_equalityI) (simp_all add: client_env_args)
  ultimately show ?thesis
    using assms(2) by (simp add: ProxyCallFn_def client_method_def clientInvoke_def client_return_def no_result_def)
qed

section \<open>Methods with callbacks\<close>

definition good_calls ::
  "(nat \<Rightarrow> ('v, 'x, 'm, 'c, 'w) callback_interface) \<Rightarrow> (nat \<Rightarrow> ('v, 'x, 'w) cpp_method option) \<Rightarrow>
   nat \<Rightarrow> 'v var list \<Rightarrow> 'c \<times> 'w \<Rightarrow> bool" where
  "good_calls d fn i args s = (case fn i of None \<Rightarrow> True | Some f \<Rightarrow> callback_ok (d i) f args (snd s))"

lemma passed_function_eq:
  "passed_function d fn = map_option (\<lambda>f. ProxyCallFn d True (callback_server d (ProxyCallbackImpl_call f))) fn"
  by (simp add: passed_function_def read_function_field_def build_function_field_def split: option.splits)

interpretation callbacks: replaceable "\<lambda>i. passed_function (d i) (fn i)" "\<lambda>i. direct_function (d i) (fn i)"
  "good_calls d fn" for d fn
proof
  fix i
  show "(passed_function (d i) (fn i) = None) = (direct_function (d i) (fn i) = None)"
    by (simp add: passed_function_eq direct_function_def)
next
  fix i f g args s
  assume "passed_function (d i) (fn i) = Some f" "direct_function (d i) (fn i) = Some g" "good_calls d fn i args s"
  then show "f args s = g args s"
    by (cases s) (auto simp: passed_function_eq direct_function_def good_calls_def callback_is_call)
qed

text \<open>
  C11. Cn. Callbacks are transparent: a method that is called with functions as arguments, and calls the
  objects that stand for them on its side, ends with the results, the caller's variables and the state of both
  processes that it has when it calls the functions themselves, for any number of calls that depend on
  each other, exceptions of the functions and empty functions included.
\<close>

theorem remote_call_with_callbacks:
  fixes d :: "nat \<Rightarrow> ('v, 'x, 'm, 'b, 'w) callback_interface" and s :: "'b \<times> 'w"
  assumes "call_ok ovc ovs cr fs env request0 results0"
    and "every_call bad (\<lambda>i. direct_function (d i) (fn i)) (good_calls d fn) (B (passed_args env 0 fs)) s"
    and "run_body bad (\<lambda>i. direct_function (d i) (fn i)) (B (passed_args env 0 fs)) s = Some (Inr ret, args, s')"
    and "\<And>args r. run_body bad (\<lambda>i. passed_function (d i) (fn i)) (B args) s = Some r \<Longrightarrow> impl args s = r"
    and "list_all2 same_shape (passed_args env 0 fs) args" "answerable_args fs args"
    and "\<And>a. Ret a \<in> set fs \<Longrightarrow> \<exists>v. ret = Some v \<and> travels cr (snd a) v"
  shows "remote_call ovc ovs opts kj_text cr fs impl request0 results0 env st s =
    Some (Inr (), final_env env 0 fs args ret, st, s')"
proof -
  have "impl (passed_args env 0 fs) s = (Inr ret, args, s')"
    by (rule assms(4)) (use assms(3) callbacks.run_same [OF assms(2)] in simp)
  from assms(1) this assms(5-7) show ?thesis by (rule call_returns)
qed

section \<open>An example\<close>

text \<open>
  The method of the example of \<open>CallProps\<close> as callback, called by a method of the same declaration, which counts
  its calls, and again with what the first call left; and an empty function.
\<close>

definition counting_options :: "(nat, int exn) LogOptions" where
  "counting_options =
     \<lparr>log_fn = Some (\<lambda>m n. (Inl (Exn ''std::runtime_error'' 0), n)), max_chars = 200, log_level = Trace\<rparr>"

definition sample_interface :: "(int, int, int, nat, nat) callback_interface" where
  "sample_interface =
     \<lparr>client_overloads = sample_overloads False, server_overloads = sample_overloads False,
      client_options = counting_options, exn_text = (\<lambda>_. ''error''), return_type = num,
      callback_fields = sample_method ''Err'', request_message = sample_message, results_message = sample_message\<rparr>"

definition sample_functions :: "nat \<Rightarrow> (int, int, nat) cpp_method option" where
  "sample_functions i = (if i = 0 then Some sample_impl else None)"

definition sample_body :: "int var list \<Rightarrow> (int, int, nat) body" where
  "sample_body args =
     Local Suc (\<lambda>n. Invoke 0 args (\<lambda>r args. Invoke 0 args (\<lambda>r args.
       case r of
         Inl e \<Rightarrow> Finish (Inl e) args
       | Inr x \<Rightarrow> Invoke 1 [] (\<lambda>r _. Finish (if isl r then Inr x else Inr None) args))))"

definition sample_caller :: "(int, int, nat \<times> nat) cpp_method" where
  "sample_caller args s =
     (case run_body 0 (\<lambda>i. passed_function sample_interface (sample_functions i)) (sample_body args) s of
        None \<Rightarrow> (Inr None, args, s)
      | Some r \<Rightarrow> r)"

lemma sample_args: "client_env num [Val a, Ptr (Some p)] = (sample_env a)(1 := Ptr (Some p))"
  by (auto simp: client_env_def sample_env_def int_field_def stored_field_def numeral_2_eq_2 less_Suc_eq)

lemma sample_callback_ok:
  assumes "in_range I32 a" "in_range I32 p" "0 \<le> a" "in_range I32 (p + 1)" "in_range I32 (a + p)"
  shows "callback_ok sample_interface sample_impl [Val a, Ptr (Some p)] w"
proof -
  have "call_ok (sample_overloads False :: (int, int, nat) overloads) (sample_overloads False :: (int, int, nat) overloads)
      num (sample_method ''Err'') (client_env num [Val a, Ptr (Some p)]) sample_message sample_message"
    using assms(1,2) num_travels [of a] num_travels [of p] num_keeps_want
    by (simp add: sample_args call_ok_def sample_method_def sample_flags sample_overloads_def sample_message_def
        sample_env_def no_exception_def)
      (simp add: int_field_def stored_field_def new_slot_def)
  then show ?thesis
    using assms(3-5) num_travels [of "p + 1"] num_travels [of "a + p"]
    by (simp add: callback_ok_def sample_interface_def sample_impl_def result_ok_def sample_method_def sample_flags)
qed

lemma sample_direct:
  "0 \<le> a \<Longrightarrow> call_function 0 (direct_function sample_interface (sample_functions 0)) [Val a, Ptr (Some p)] (n, w) =
    Some (Inr (Some (a + p)), [Val a, Ptr (Some (p + 1))], n, w + 1)"
  "call_function 0 (direct_function sample_interface (sample_functions (Suc 0))) args s =
    Some (Inl (Exn ''std::bad_function_call'' 0), args, s)"
  by (simp_all add: call_function_def direct_function_def sample_functions_def direct_call_def sample_impl_def
      sample_interface_def sample_method_def)

theorem remote_call_with_callbacks_witness:
  "remote_call (sample_overloads False) (sample_overloads False) sample_options (\<lambda>_. ''error'') num
     (sample_method ''Err'') sample_caller sample_message sample_message (sample_env 5) () (0, 3) =
   Some (Inr (), (sample_env 5)(1 := Ptr (Some 9), 2 := Val 13), (), (1, 5))"
proof -
  let ?fn = "\<lambda>i. direct_function sample_interface (sample_functions i)"
  have range: "in_range I32 5" "in_range I32 7" "in_range I32 8" "in_range I32 9" "in_range I32 12" "in_range I32 13"
    by (simp_all add: in_range_def lim_table)
  note args = sample_calls(1) [of 5 "''Err''"]
  have good: "every_call 0 ?fn (good_calls (\<lambda>i. sample_interface) sample_functions)
      (sample_body (passed_args (sample_env 5) 0 (sample_method ''Err''))) (0, 3)"
    using sample_callback_ok [of 5 7 3] sample_callback_ok [of 5 8 4] range
    by (simp add: args sample_body_def sample_direct good_calls_def) (simp add: sample_functions_def)
  have run: "run_body 0 ?fn (sample_body (passed_args (sample_env 5) 0 (sample_method ''Err''))) (0, 3) =
      Some (Inr (Some 13), [Val 5, Ptr (Some 9)], (1, 5))"
    by (simp add: args sample_body_def sample_direct)
  have impl: "sample_caller args (0, 3) = r"
    if "run_body 0 (\<lambda>i. passed_function sample_interface (sample_functions i)) (sample_body args) (0, 3) = Some r" for args r
    using that by (simp add: sample_caller_def)
  have shape: "list_all2 same_shape (passed_args (sample_env 5) 0 (sample_method ''Err'')) [Val 5, Ptr (Some 9)]"
    by (simp add: args)
  have answer: "answerable_args (sample_method ''Err'') [Val 5, Ptr (Some 9)]"
    using num_travels [OF range(4)] by (simp add: sample_method_def)
  have ret: "\<exists>v. Some 13 = Some v \<and> travels num (snd a) v" if "Ret a \<in> set (sample_method ''Err'')" for a
    using num_travels [OF range(6)] by simp
  show ?thesis
    using remote_call_with_callbacks [where impl = sample_caller and opts = sample_options and kj_text = "\<lambda>_. ''error''"
        and st = "()" and bad = 0 and d = "\<lambda>i. sample_interface" and fn = sample_functions and B = sample_body
        and fs = "sample_method ''Err''" and env = "sample_env 5" and s = "(0, 3)", OF sample_ok [OF range(1), where d = False and t = "''Err''"] good run impl shape answer ret]
    by (simp only: sample_calls)
qed

end
