(* ===== verification/ObjectEnd.thy ===== *)
theory ObjectEnd
  imports Callbacks Cleanup
begin

text \<open>
  The end of a client object and of the implementation behind it (\<open>include/mp/proxy-io.h\<close>,
  \<open>include/mp/proxy-types.h\<close>): the destructor of the generated class, the remote \<open>destroy\<close> call it makes, and the
  destructor of the server object.
\<close>

section \<open>Steps of a destructor\<close>

text \<open>
  The state has the part the log callback acts on, the client's side of the connection and the
  other process. An exception that leaves a destructor ends the program; \<open>None\<close> is a call that does not
  return.
\<close>

type_synonym ('x, 'c, 'n, 'w) end_step = "'c \<times> 'n \<times> 'w \<Rightarrow> (('x exn + unit) \<times> 'c \<times> 'n \<times> 'w) option"

definition and_then :: "('x, 'c, 'n, 'w) end_step \<Rightarrow> ('x, 'c, 'n, 'w) end_step \<Rightarrow> ('x, 'c, 'n, 'w) end_step" where
  "and_then a b s =
     (case a s of
        None \<Rightarrow> None
      | Some (Inl e, s) \<Rightarrow> Some (Inl e, s)
      | Some (Inr _, s) \<Rightarrow> b s)"

definition logs :: "('c, 'x exn, unit) action \<Rightarrow> ('x, 'c, 'n, 'w) end_step" where
  "logs act s = Some (case act (fst s) of (r, st) \<Rightarrow> (r, st, snd s))"

section \<open>Log messages of the generated classes\<close>

text \<open>A client without connection writes to the log of Cap'n Proto, which is not part of the model.\<close>

definition clientDestroy ::
  "('c, 'x exn) LogOptions \<Rightarrow> string \<Rightarrow> string \<Rightarrow> bool \<Rightarrow> ('c, 'x exn, unit) action" where
  "clientDestroy opts thread cxx_name connected st =
     (if connected then MP_LOG opts thread Debug [''IPC client destroy '', cxx_name] st else (Inr (), st))"

definition serverDestroy ::
  "('c, 'x exn) LogOptions \<Rightarrow> string \<Rightarrow> string \<Rightarrow> ('c, 'x exn, unit) action" where
  "serverDestroy opts thread cxx_name = MP_LOG opts thread Debug [''IPC server destroy '', cxx_name]"

section \<open>The client object\<close>

text \<open>
  The generated \<open>destroy\<close> method, and what its request runs on the other side: \<open>invokeDestroy\<close> of
  the server object. \<open>invokeDestroy\<close> always returns (\<open>CleanupRun_beside\<close>).
\<close>

definition destroy_impl ::
  "('s \<Rightarrow> 's) \<Rightarrow> ('f \<Rightarrow> 's \<Rightarrow> ('x exn + unit) \<times> 's) \<Rightarrow> 'f proxy_server \<times> 's \<Rightarrow>
   ('x exn + unit) \<times> 'f proxy_server \<times> 's" where
  "destroy_impl reset run w =
     (case invokeDestroy reset run (fst w) (snd w) of
        Some (r, p, s) \<Rightarrow> (r, p, s)
      | None \<Rightarrow> (Inr (), w))"

definition destroy_method ::
  "('v, 'x, 'm, 'c, 'w) callback_interface \<Rightarrow> bool \<Rightarrow> ('w \<Rightarrow> ('x exn + unit) \<times> 'w) \<Rightarrow> 'c \<times> 'w \<Rightarrow>
   (('x exn + 'v option) \<times> 'v var list \<times> 'c \<times> 'w) option" where
  "destroy_method d connected destroy =
     client_method (client_overloads d) (client_options d) connected (return_type d) (callback_fields d)
       (request_message d)
       (serverInvoke (server_overloads d) (return_type d) (ServerDestroy destroy) (exn_text d)
          (server_layers (callback_fields d)) (Params (callback_fields d)) (results_message d))
       []"

text \<open>
  The function the constructor leaves in \<open>cleanup_fns\<close>: an exception of the \<open>destroy\<close> method is
  caught. \<open>sync\<close> is the function given to \<open>EventLoop::sync\<close>, which the theory \<open>Clients\<close> is about.
\<close>

definition cleanup_fn ::
  "('c, 'x exn) LogOptions \<Rightarrow> string \<Rightarrow>
   ('c \<times> 'w \<Rightarrow> (('x exn + 'v option) \<times> 'v var list \<times> 'c \<times> 'w) option) \<Rightarrow> ('n \<Rightarrow> 'n) \<Rightarrow>
   ('x, 'c, 'n, 'w) end_step" where
  "cleanup_fn opts thread destroy sync s =
     (case destroy (fst s, snd (snd s)) of
        None \<Rightarrow> None
      | Some (r, _, st, w) \<Rightarrow>
          and_then
            (logs (if isl r
                   then MP_LOG opts thread Warning [''Remote destroy call failed during cleanup. Continuing.'']
                   else (\<lambda>st. (Inr (), st))))
            (\<lambda>(st, n, w). Some (Inr (), st, sync n, w))
            (st, fst (snd s), w))"

text \<open>
  The destructor of the generated class and of its base. \<open>fns\<close> are the functions of the program in
  \<open>cleanup_fns\<close>, run by \<open>CleanupRun\<close> after the one of the constructor; \<open>self\<close> is the address that is printed.
\<close>

definition client_dtor ::
  "('c, 'x exn) LogOptions \<Rightarrow> string \<Rightarrow> string \<Rightarrow> string \<Rightarrow> bool \<Rightarrow>
   ('c \<times> 'w \<Rightarrow> (('x exn + 'v option) \<times> 'v var list \<times> 'c \<times> 'w) option) \<Rightarrow> ('n \<Rightarrow> 'n) \<Rightarrow>
   ('x, 'c, 'n, 'w) end_step list \<Rightarrow> ('x, 'c, 'n, 'w) end_step" where
  "client_dtor opts thread cxx_name self connected destroy sync fns =
     and_then (logs (clientDestroy opts thread cxx_name connected))
    (and_then (logs (MP_LOG opts thread Debug [''Cleaning up '', cxx_name, '' '', self]))
    (and_then (foldr and_then (cleanup_fn opts thread destroy sync # fns) (\<lambda>s. Some (Inr (), s)))
              (logs (MP_LOG opts thread Debug [''Destroying '', cxx_name, '' '', self]))))"

section \<open>The server object\<close>

text \<open>
  The destructor of the generated server class and of its base. The result is the job for the asynchronous thread;
  \<open>None\<close> is the failed assertion.
\<close>

definition server_dtor_logged ::
  "('c, 'x exn) LogOptions \<Rightarrow> string \<Rightarrow> string \<Rightarrow> string \<Rightarrow> 'f proxy_server \<Rightarrow> 'c \<Rightarrow>
   (('x exn + 'f list option) \<times> 'c) option" where
  "server_dtor_logged opts thread cxx_name self p st =
     (case serverDestroy opts thread cxx_name st of
        (Inl e, st) \<Rightarrow> Some (Inl e, st)
      | (Inr _, st) \<Rightarrow>
          (case MP_LOG opts thread Debug [''Cleaning up '', cxx_name, '' '', self] st of
             (Inl e, st) \<Rightarrow> Some (Inl e, st)
           | (Inr _, st) \<Rightarrow>
               (case ProxyServerBase_dtor p of
                  None \<Rightarrow> None
                | Some job \<Rightarrow>
                    (case MP_LOG opts thread Debug [''Destroying '', cxx_name, '' '', self] st of
                       (Inl e, st) \<Rightarrow> Some (Inl e, st)
                     | (Inr _, st) \<Rightarrow> Some (Inr job, st)))))"

section \<open>Quiet log callbacks\<close>

text \<open>A log callback that throws at most for messages of level \<open>Raise\<close>, as it is asked to.\<close>

definition quiet :: "('c, 'x exn) LogOptions \<Rightarrow> bool" where
  "quiet opts \<longleftrightarrow> (\<forall>f m st. log_fn opts = Some f \<longrightarrow> level m \<noteq> Raise \<longrightarrow> fst (f m st) = Inr ())"

lemma quiet_log:
  assumes "quiet opts" "l \<noteq> Raise"
  obtains st' where "MP_LOG opts thread l parts st = (Inr (), st')"
proof -
  have "fst (MP_LOG opts thread l parts st) = Inr ()"
    using assms by (simp add: MP_LOG_delivers quiet_def split: option.splits)
  then show ?thesis using that [of "snd (MP_LOG opts thread l parts st)"] by (metis prod.collapse)
qed

lemma logs_quiet:
  assumes "quiet opts" "l \<noteq> Raise"
  obtains st' where "and_then (logs (MP_LOG opts thread l parts)) b (st, n, w) = b (st', n, w)"
    "logs (MP_LOG opts thread l parts) (st, n, w) = Some (Inr (), st', n, w)"
proof -
  obtain st' where "MP_LOG opts thread l parts st = (Inr (), st')" using quiet_log [OF assms] .
  then show ?thesis using that [of st'] by (simp add: and_then_def logs_def)
qed

lemma nothing_logged [simp]: "and_then (logs (\<lambda>st. (Inr (), st))) b s = b s"
  by (simp add: and_then_def logs_def)

lemma cleanup_returns:
  assumes "quiet opts" "destroy (st, w) = Some (r, vs, st1, w')"
  shows "\<exists>st'. cleanup_fn opts thread destroy sync (st, n, w) = Some (Inr (), st', sync n, w')"
proof (cases "isl r")
  case True
  obtain st' where "MP_LOG opts thread Warning [''Remote destroy call failed during cleanup. Continuing.''] st1 = (Inr (), st')"
    by (rule quiet_log [OF assms(1), of Warning]) simp_all
  then show ?thesis using assms(2) True by (simp add: cleanup_fn_def and_then_def logs_def)
next
  case False
  then show ?thesis using assms(2) by (simp add: cleanup_fn_def)
qed

text \<open>
  What is left of the destructor after the function of the constructor: the functions of the program, up to the first that
  throws, and the last message.
\<close>

definition dtor_rest ::
  "('c, 'x exn) LogOptions \<Rightarrow> string \<Rightarrow> string \<Rightarrow> string \<Rightarrow> ('x, 'c, 'n, 'w) end_step list \<Rightarrow> ('x, 'c, 'n, 'w) end_step" where
  "dtor_rest opts thread cxx_name self fns =
     and_then (foldr and_then fns (\<lambda>s. Some (Inr (), s)))
       (logs (MP_LOG opts thread Debug [''Destroying '', cxx_name, '' '', self]))"

lemma and_then_assoc: "and_then (and_then a b) c = and_then a (and_then b c)"
  by (rule ext) (auto simp: and_then_def split: option.splits sum.splits)

lemma and_then_returns [simp]: "a s = Some (Inr (), t) \<Longrightarrow> and_then a b s = b t"
  by (simp add: and_then_def)

lemma client_dtor_returns:
  assumes "quiet opts" "\<And>st. \<exists>r vs st'. destroy (st, w) = Some (r, vs, st', w')"
  shows "\<exists>st'. client_dtor opts thread cxx_name self connected destroy sync fns (st, n, w) =
    dtor_rest opts thread cxx_name self fns (st', sync n, w')"
proof -
  obtain st1 where 1: "clientDestroy opts thread cxx_name connected st = (Inr (), st1)"
  proof (cases connected)
    case True
    show thesis
      by (rule quiet_log [OF assms(1), of Debug thread "[''IPC client destroy '', cxx_name]" st])
        (use that True in \<open>simp_all add: clientDestroy_def\<close>)
  qed (simp add: clientDestroy_def)
  obtain st2 where 2: "MP_LOG opts thread Debug [''Cleaning up '', cxx_name, '' '', self] st1 = (Inr (), st2)"
    by (rule quiet_log [OF assms(1), of Debug]) simp_all
  obtain st3 where 3: "cleanup_fn opts thread destroy sync (st2, n, w) = Some (Inr (), st3, sync n, w')"
    using assms(2) [of st2] cleanup_returns [OF assms(1)] by metis
  have "logs (clientDestroy opts thread cxx_name connected) (st, n, w) = Some (Inr (), st1, n, w)"
    "logs (MP_LOG opts thread Debug [''Cleaning up '', cxx_name, '' '', self]) (st1, n, w) = Some (Inr (), st2, n, w)"
    using 1 2 by (simp_all add: logs_def)
  then have "client_dtor opts thread cxx_name self connected destroy sync fns (st, n, w) =
      dtor_rest opts thread cxx_name self fns (st3, sync n, w')"
    using 3 by (simp add: client_dtor_def dtor_rest_def and_then_assoc)
  then show ?thesis by blast
qed

text \<open>Without functions of the program, and more generally when none of them throws, the destructor returns.\<close>

lemma dtor_rest_returns:
  assumes "quiet opts" "\<And>f s. f \<in> set fns \<Longrightarrow> \<exists>t. f s = Some (Inr (), t)"
  shows "\<exists>t. dtor_rest opts thread cxx_name self fns s = Some (Inr (), t)"
  using assms(2)
proof (induction fns arbitrary: s)
  case Nil
  obtain st n w where s: "s = (st, n, w)" by (cases s)
  obtain st' where "MP_LOG opts thread Debug [''Destroying '', cxx_name, '' '', self] st = (Inr (), st')"
    by (rule quiet_log [OF assms(1), of Debug]) simp_all
  then show ?case by (simp add: dtor_rest_def s logs_def)
next
  case (Cons f fns)
  obtain t where "f s = Some (Inr (), t)" using Cons.prems by fastforce
  then have "dtor_rest opts thread cxx_name self (f # fns) s = dtor_rest opts thread cxx_name self fns t"
    by (simp add: dtor_rest_def and_then_assoc)
  then show ?case using Cons by simp
qed

section \<open>The remote destroy call\<close>

text \<open>A \<open>destroy\<close> method has no parameter but the context, and no result.\<close>

definition destroy_ok :: "('v, 'x, 'm, 'c, 'w) callback_interface \<Rightarrow> bool" where
  "destroy_ok d \<longleftrightarrow> Params (callback_fields d) = [] \<and> \<not> has_ret (callback_fields d) \<and>
     call_ok (client_overloads d) (server_overloads d) (return_type d) (callback_fields d)
       (client_env (return_type d) []) (request_message d) (results_message d)"

lemma no_params: "Params fs = [] \<Longrightarrow> passed_args env k fs = []"
  using passed_args_simps(1) [of env k fs] by simp

lemma receive_no_params:
  assumes "Params fs = []" "\<not> has_ret fs" "well_ordered fs"
  shows "\<exists>r. receive ov (client_fields 0 fs) (Fields_of cr fs) response (env, st) = Some (r, env, st)"
proof -
  have "\<exists>r. handleChain client_count (read_results ov m) (client_fields 0 fs) [] (env, st) = Some (r, env, st)" for m
    using assms
  proof (induction fs)
    case (Cons f fs)
    then show ?case
      by (cases f) (auto simp: handleChain_Cons simp del: handleChain.simps(2,3))
  qed simp
  then show ?thesis
    using assms(1,2) by (cases response) (auto simp: receive_def IterateFields_eq Fields_of_def)
qed

lemma destroy_served:
  assumes "destroy_ok d" "destroy w = (r, w')"
  shows "\<exists>response. serverInvoke (server_overloads d) (return_type d) (ServerDestroy destroy) (exn_text d)
      (server_layers (callback_fields d)) (Params (callback_fields d)) (results_message d)
      (request_of (client_overloads d) (client_env (return_type d) []) 0 (callback_fields d) (request_message d)) w =
    Some (response, w')"
proof -
  note ok = assms(1) [unfolded destroy_ok_def call_ok_def]
  let ?fs = "callback_fields d" and ?env = "client_env (return_type d) []"
  let ?s = "\<lparr>results = results_message d, locals = [], world = w, lock_held = None, request_canceled = False,
    results_misused = False\<rparr>"
  define r' :: "'b exn + 'a option" where "r' = (case r of Inl e \<Rightarrow> Inl e | Inr _ \<Rightarrow> Inr None)"
  define s2 where "s2 = (entry ?env 0 ?fs ?s)\<lparr>world := w'\<rparr>"
  have base: "ServerDestroy destroy (entry ?env 0 ?fs ?s) = (r', s2)"
    using assms(2) by (cases r) (auto simp: ServerDestroy_def entry_state r'_def s2_def)
  have "request_ok ?env 0 ?fs (request_of (client_overloads d) ?env 0 ?fs (request_message d))"
    using ok by (intro request_of_ok) auto
  moreover have "locals s2 = [] @ []" "\<not> request_canceled s2" "world s2 = w'"
    using ok by (simp_all add: s2_def entry_state no_params)
  ultimately have "server_invoke (server_overloads d) (return_type d) (ServerDestroy destroy)
      (request_of (client_overloads d) ?env 0 ?fs (request_message d)) (server_layers ?fs) (Params ?fs) ?s =
    Some (outcome (is_a (server_overloads d)) ?fs r',
      s2\<lparr>results := answers (server_overloads d) (return_type d) ?fs [] r' (results s2)\<rparr>)"
    using server_chain [of ?env 0 ?fs "request_of (client_overloads d) ?env 0 ?fs (request_message d)"
        "server_overloads d" "ServerDestroy destroy" ?s r' s2 "[]" "[]" "return_type d"] ok base
    by (simp add: sendable_args_match no_params)
  then show ?thesis using \<open>world s2 = w'\<close> by (simp add: serverInvoke_def)
qed

lemma destroy_method_returns:
  assumes "destroy_ok d" "destroy w = (r, w')"
  shows "\<exists>r vs st'. destroy_method d True destroy (st, w) = Some (r, vs, st', w')"
    "\<exists>r vs st'. destroy_method d False destroy (st, w) = Some (r, vs, st', w)"
proof -
  note ok = assms(1) [unfolded destroy_ok_def]
  obtain response where served: "serverInvoke (server_overloads d) (return_type d) (ServerDestroy destroy) (exn_text d)
      (server_layers (callback_fields d)) (Params (callback_fields d)) (results_message d)
      (request_of (client_overloads d) (client_env (return_type d) []) 0 (callback_fields d) (request_message d)) w =
    Some (response, w')"
    using destroy_served [where destroy = destroy, OF assms] by blast
  have "well_ordered (callback_fields d)" using ok by (simp add: call_ok_def)
  then obtain res where "receive (client_overloads d) (client_fields 0 (callback_fields d))
      (Fields_of (return_type d) (callback_fields d)) response (client_env (return_type d) [], st) =
      Some (res, client_env (return_type d) [], st)"
    using receive_no_params [of "callback_fields d" "client_overloads d" "return_type d" response
        "client_env (return_type d) []" st] ok by blast
  from clientInvoke_sent [where send = "serverInvoke (server_overloads d) (return_type d) (ServerDestroy destroy) (exn_text d)
      (server_layers (callback_fields d)) (Params (callback_fields d)) (results_message d)" and opts = "client_options d",
      OF conjunct2 [OF conjunct2 [OF ok]] served this] ok
  show "\<exists>r vs st'. destroy_method d True destroy (st, w) = Some (r, vs, st', w')"
    by (auto simp: destroy_method_def client_method_def split: prod.splits)
  show "\<exists>r vs st'. destroy_method d False destroy (st, w) = Some (r, vs, st', w)"
    by (simp add: destroy_method_def client_method_def clientInvoke_def split: prod.splits)
qed

section \<open>The end of an object\<close>

lemma destroy_impl_eq:
  assumes "m_impl p" "run_all run (server_fns p) (reset s) = (r, left, s')"
  shows "destroy_impl reset run (p, s) = (r, p\<lparr>m_impl := False, server_fns := left\<rparr>, s')"
  using assms by (simp add: destroy_impl_def invokeDestroy_def CleanupRun_beside)

lemma server_dtor_quiet:
  assumes "quiet opts"
  obtains st' where "server_dtor_logged opts thread cxx_name self p st = map_option (\<lambda>job. (Inr job, st')) (ProxyServerBase_dtor p)"
proof -
  obtain st1 where 1: "serverDestroy opts thread cxx_name st = (Inr (), st1)"
    unfolding serverDestroy_def by (rule quiet_log [OF assms, of Debug]) simp_all
  obtain st2 where 2: "MP_LOG opts thread Debug [''Cleaning up '', cxx_name, '' '', self] st1 = (Inr (), st2)"
    by (rule quiet_log [OF assms, of Debug]) simp_all
  obtain st3 where 3: "MP_LOG opts thread Debug [''Destroying '', cxx_name, '' '', self] st2 = (Inr (), st3)"
    by (rule quiet_log [OF assms, of Debug]) simp_all
  show ?thesis using 1 2 3 that [of st3] by (simp add: server_dtor_logged_def split: option.splits)
qed

text \<open>
  C30. The end of a client object whose interface has a \<open>destroy\<close> method, with log callbacks that throw for no message of these
  levels. Whatever the remote \<open>destroy\<close> call does, no exception of it leaves the destructor, which always takes
  the client off its connection and goes on with the cleanup functions of the program. While the
  connection lasts, the call has run on the other side the destructor of the implementation and its cleanup functions,
  in this order, each once, up to the first that throws. When it left none, the destructor of the server object
  finds nothing to do; when it left some, which can only be because one threw, the assertion of that destructor
  fails. After a disconnect the call changes nothing there.
\<close>

theorem client_dtor_ends_object:
  assumes "destroy_ok d" "quiet opts" "quiet server_opts" "m_impl p"
    and "run_all run (server_fns p) (reset s) = (r, left, s')"
  shows "(\<exists>st'. client_dtor opts thread cxx_name self True (destroy_method d True (destroy_impl reset run)) sync fns
        (st, n, p, s) = dtor_rest opts thread cxx_name self fns (st', sync n, p\<lparr>m_impl := False, server_fns := left\<rparr>, s')) \<and>
    (\<exists>st'. server_dtor_logged server_opts thread' cxx_name' self' (p\<lparr>m_impl := False, server_fns := left\<rparr>) log_st =
        (if left = [] then Some (Inr None, st') else None)) \<and>
    (left \<noteq> [] \<longrightarrow> isl r) \<and>
    (\<exists>st'. client_dtor opts thread cxx_name self False (destroy_method d False (destroy_impl reset run)) sync fns
        (st, n, p, s) = dtor_rest opts thread cxx_name self fns (st', sync n, p, s))"
proof (intro conjI impI)
  note impl = destroy_impl_eq [where reset = reset, OF assms(4,5)]
  note ends = destroy_method_returns [where destroy = "destroy_impl reset run", OF assms(1) impl]
  show "\<exists>st'. client_dtor opts thread cxx_name self True (destroy_method d True (destroy_impl reset run)) sync fns
      (st, n, p, s) = dtor_rest opts thread cxx_name self fns (st', sync n, p\<lparr>m_impl := False, server_fns := left\<rparr>, s')"
    using assms(2) ends(1) by (rule client_dtor_returns)
  show "\<exists>st'. client_dtor opts thread cxx_name self False (destroy_method d False (destroy_impl reset run)) sync fns
      (st, n, p, s) = dtor_rest opts thread cxx_name self fns (st', sync n, p, s)"
    using assms(2) ends(2) by (rule client_dtor_returns)
  obtain st' where "server_dtor_logged server_opts thread' cxx_name' self' (p\<lparr>m_impl := False, server_fns := left\<rparr>) log_st =
      map_option (\<lambda>job. (Inr job, st')) (ProxyServerBase_dtor (p\<lparr>m_impl := False, server_fns := left\<rparr>))"
    by (rule server_dtor_quiet [OF assms(3)])
  then show "\<exists>st'. server_dtor_logged server_opts thread' cxx_name' self' (p\<lparr>m_impl := False, server_fns := left\<rparr>) log_st =
      (if left = [] then Some (Inr None, st') else None)"
    by (intro exI [of _ st']) (simp add: ProxyServerBase_dtor_def)
  assume "left \<noteq> []"
  then show "isl r" using run_all_Inr assms(5) by (cases r) fastforce+
qed

text \<open>
  An interface with a \<open>destroy\<close> method, an implementation that records what runs, with three cleanup
  functions, of which the second throws.
\<close>

definition recording_options :: "(Log list, int exn) LogOptions" where
  "recording_options =
     \<lparr>log_fn = Some (\<lambda>m ls. (if level m = Raise then Inl (Exn ''std::runtime_error'' 0) else Inr (), ls @ [level m])),
      max_chars = 200, log_level = Trace\<rparr>"

definition sample_destroy :: "(int, int, int, Log list, nat proxy_server \<times> nat list) callback_interface" where
  "sample_destroy =
     \<lparr>client_overloads = sample_overloads False, server_overloads = sample_overloads False,
      client_options = recording_options, exn_text = (\<lambda>_. ''error''), return_type = num,
      callback_fields = [Ctx (''context'', Accessor (FIELD_IN + FIELD_BOXED))],
      request_message = sample_message, results_message = sample_message\<rparr>"

definition sample_cleanup :: "nat \<Rightarrow> nat list \<Rightarrow> (int exn + unit) \<times> nat list" where
  "sample_cleanup f s = (if f = 2 then (Inl (Exn ''Err'' 1), s) else (Inr (), s @ [f]))"

definition sample_fn :: "(int, Log list, nat, 'w) end_step" where
  "sample_fn s = Some (Inr (), fst s, Suc (fst (snd s)), snd (snd s))"

theorem client_dtor_ends_object_witness:
  "(\<exists>st'. client_dtor recording_options ''t'' ''Foo'' ''0'' True
      (destroy_method sample_destroy True (destroy_impl (\<lambda>s. s @ [0]) sample_cleanup)) ((*) 3) [sample_fn]
      ([], 7, \<lparr>m_impl = True, server_fns = [1, 2, 3]\<rparr>, []) =
    Some (Inr (), st', 22, \<lparr>m_impl = False, server_fns = [3]\<rparr>, [0, 1])) \<and>
   server_dtor_logged recording_options ''u'' ''Foo'' ''1'' \<lparr>m_impl = False, server_fns = [3 :: nat]\<rparr> [] = None"
proof -
  have ok: "destroy_ok sample_destroy"
    by (simp add: destroy_ok_def sample_destroy_def call_ok_def sample_flags sample_overloads_def no_exception_def)
  have quiet: "quiet recording_options" by (simp add: quiet_def recording_options_def)
  have run: "run_all sample_cleanup (server_fns \<lparr>m_impl = True, server_fns = [1, 2, 3]\<rparr>) ((\<lambda>s. s @ [0]) []) =
      (Inl (Exn ''Err'' 1), [3], [0, 1])"
    by (simp add: sample_cleanup_def)
  have rest: "\<exists>st'. dtor_rest recording_options ''t'' ''Foo'' ''0'' [sample_fn] (st, 21, w) = Some (Inr (), st', 22, w)"
    for st :: "Log list" and w :: "nat proxy_server \<times> nat list"
  proof -
    obtain st' where "MP_LOG recording_options ''t'' Debug [''Destroying '', ''Foo'', '' '', ''0''] st = (Inr (), st')"
      by (rule quiet_log [OF quiet, of Debug]) simp_all
    then show ?thesis by (cases w) (simp add: dtor_rest_def sample_fn_def and_then_def logs_def)
  qed
  show ?thesis
    using client_dtor_ends_object [where reset = "\<lambda>s. s @ [0]" and run = sample_cleanup and st = "[]" and n = 7
        and sync = "(*) 3" and thread = "''t''" and cxx_name = "''Foo''" and self = "''0''" and fns = "[sample_fn]"
        and thread' = "''u''" and cxx_name' = "''Foo''" and self' = "''1''" and log_st = "[]", OF ok quiet quiet _ run] rest
    by simp (metis rest)
qed

end
