(* ===== verification/Spec2Isabelle.thy ===== *)
theory Spec2Isabelle
  imports Util Escape Logging Cancel LoopProps Waiter ThreadEnd Request Clients FieldTypes Roundtrip GenFileProps Spawn Connections ThreadMapProps Interfaces ClientCalls Callbacks ObjectEnd
begin

text \<open>
  A model of libmultiprocess, a C++ library for calls between processes over Cap'n Proto, with the
  theorems that make it correct.

  \<^bold>\<open>The program.\<close> A schema of interfaces is turned into C++ by the generator \<open>mpgen\<close>
  (\<open>src/mp/gen.cpp\<close>): for every method two chains of field objects, one for the client and one for
  the server. A client object (\<open>ProxyClient\<close>) runs the first in \<open>clientInvoke\<close>: it builds the arguments
  into a request, hands it to the event loop thread, waits, and reads the results. The server object
  (\<open>ProxyServer\<close>) runs the second in \<open>serverInvoke\<close>: it reads the arguments, calls the method of the
  implementation it wraps, and builds the results. A method with a \<open>Context\<close> argument runs on a worker
  thread of its own, one for each calling thread and connection. The event loop (\<open>src/mp/proxy.cpp\<close>) is
  the only thread that uses connections; other threads hand it functions with \<open>EventLoop::post\<close> and
  are woken through a \<open>Waiter\<close>. Clients, servers and connections (\<open>include/mp/proxy-io.h\<close>) tell each
  other through cleanup functions when they go.

  \<^bold>\<open>Theories and sources.\<close> Files of \<open>include/mp\<close> are named without the directory. Definitions have
  the names of the functions and classes they translate.

  \<^item> \<open>Prelude\<close>: results of code that may throw (\<open>'e + 'a\<close>), sums over the threads of a set, and the locale
    \<open>transition_invariant\<close>, a transition system with an invariant, which every state machine below interprets.
  \<^item> \<open>Util\<close> (\<open>util.h\<close>): \<open>Split\<close>, \<open>TypeName\<close>, \<open>TryFinally\<close>, \<open>Unlock\<close>. \<open>Escape\<close> (\<open>src/mp/util.cpp\<close>):
    \<open>LogEscape\<close>, equal to a reference definition whatever the pieces the text comes in. \<open>Logging\<close>
    (\<open>proxy-io.h\<close>): \<open>Logger\<close>, \<open>MP_LOG\<close>. \<open>Cancel\<close> (\<open>util.h\<close>): \<open>CancelMonitor\<close> and \<open>CancelProbe\<close>, in any order
    of destruction.
  \<^item> \<open>EventLoop\<close>, \<open>LoopInv\<close>, \<open>LoopProps\<close> (\<open>src/mp/proxy.cpp\<close>): \<open>EventLoopRef\<close>, \<open>loop\<close>, \<open>post\<close>, \<open>addAsyncCleanup\<close> and the
    asynchronous thread as a step relation \<open>loop_step\<close> over the sections that hold \<open>m_mutex\<close>, the
    reads and writes of the pipe and the notifications, for any number of posting threads. Its
    invariant gives: no assertion fails, posts run exactly once and are served, no wakeup is lost, no
    write meets a closed pipe, the loop ends when nothing refers to it and leaves what \<open>~EventLoop\<close>
    asserts.
  \<^item> \<open>Waiter\<close> (\<open>proxy-io.h\<close>): \<open>post\<close> and \<open>wait\<close> with nested waits as a stack of frames. \<open>ThreadPost\<close>
    (\<open>ProxyServer<Thread>::post\<close>): the chain of promises that keeps the requests of a worker in order, built on
    \<open>Waiter\<close>. \<open>ThreadEnd\<close>: who keeps the server object of a worker, the end of a
    request on both threads, and that the worker can be joined when its server goes.
    \<open>ClientCalls\<close> (\<open>proxy-types.h\<close>): how \<open>clientInvoke\<close> waits, with the functions that the event loop runs on its
    variables, and calls nested through callbacks. \<open>Request\<close> (\<open>type-context.h\<close>): one request on a worker against its cancellation by
    the event loop, lock by lock, with a \<open>ServerExcept\<close> that catches the interruption or not.
  \<^item> \<open>ThreadMaps\<close>, \<open>ThreadInv\<close>, \<open>ThreadMapProps\<close> (\<open>type-context.h\<close>, \<open>type-threadmap.h\<close>, \<open>SetThread\<close> and \<open>makeThread\<close> of
    \<open>src/mp/proxy.cpp\<close>): the maps \<open>request_threads\<close> and \<open>callback_threads\<close> of all threads, with calls, callbacks and
    disconnects that interleave, threads that run an event loop, and threads that end; threads work in pairs, none is kept
    for ever, and calls fail in the cases that \<open>context_threads\<close> names and in no other.
  \<^item> \<open>Cleanup\<close> (\<open>proxy.h\<close>, \<open>proxy-io.h\<close>): \<open>CleanupRun\<close>, and how an implementation is destroyed. \<open>Clients\<close>
    (\<open>proxy-io.h\<close>, \<open>src/mp/proxy.cpp\<close>): the list of disconnect callbacks
    with its iterators, \<open>ProxyClientBase\<close>, \<open>ProxyClient<Thread>\<close> and \<open>~Connection\<close> on a heap where a use of
    something that is gone is a fault, with threads that end while connections go. \<open>Connections\<close> (\<open>proxy-io.h\<close>): \<open>ConnectStream\<close>, \<open>_Serve\<close>, \<open>_Listen\<close> and
    what deletes a connection. \<open>Interfaces\<close> (\<open>type-interface.h\<close>, \<open>type-function.h\<close>): objects and
    callbacks passed as fields, who owns them, and when they are destroyed.
  \<^item> \<open>Codec\<close> (\<open>proxy.h\<close>, \<open>proxy-types.h\<close>): accessors, fields as slots of a message, destinations; the
    locales \<open>field_codec\<close>, \<open>present_field\<close> and \<open>nullable_field\<close> state what a field type promises (what was built is read back; it
    is seen as present; null is told apart). \<open>Containers\<close>, \<open>Roundtrip\<close> (\<open>type-vector.h\<close>, \<open>type-set.h\<close>,
    \<open>type-map.h\<close>, \<open>type-pair.h\<close>, \<open>type-tuple.h\<close>, \<open>type-struct.h\<close>, \<open>type-optional.h\<close>, \<open>type-pointer.h\<close>,
    \<open>type-message.h\<close>): field types made of others keep these promises. \<open>Numbers\<close> (\<open>type-number.h\<close>,
    \<open>type-chrono.h\<close>): conversions and comparisons with the widths and promotions of C++. \<open>FieldTypes\<close>
    (\<open>type-string.h\<close>, \<open>type-data.h\<close>, \<open>type-char.h\<close>, \<open>type-exception.h\<close>): the rest, and the interpretations.
  \<^item> \<open>Calls\<close>, \<open>CallChains\<close>, \<open>CallProps\<close> (\<open>proxy-types.h\<close>, \<open>type-pointer.h\<close>): \<open>handleChain\<close>, \<open>IterateFields\<close>, \<open>clientInvoke\<close>,
    \<open>PassField\<close>, \<open>ServerField\<close>, \<open>ServerRet\<close>, \<open>ServerExcept\<close>, \<open>ServerCall\<close>, \<open>serverInvoke\<close>. A remote call
    refines the local call, exceptions included. \<open>Callbacks\<close> (\<open>type-function.h\<close>, \<open>src/mp/gen.cpp\<close>): the generated client
    method, and functions passed as arguments; a method that calls them back over the connection ends as if it called
    them directly. \<open>ObjectEnd\<close> (\<open>proxy-io.h\<close>): the destructors of client and server objects with the remote
    \<open>destroy\<close> call between them, its errors and the log messages.
  \<^item> \<open>Generate\<close>, \<open>GenOutput\<close>, \<open>GenFiles\<close>, \<open>GenProps\<close>, \<open>GenFileProps\<close> (\<open>src/mp/gen.cpp\<close>): \<open>FieldList\<close>, the text of
    all generated files, the paths, the command line. \<open>generated_chains\<close> ties the text to the
    chains of \<open>CallChains\<close>; so the theorems on remote calls are about generated code.
  \<^item> \<open>Spawn\<close> (\<open>src/mp/util.cpp\<close>): \<open>SpawnProcess\<close>, \<open>ExecProcess\<close>, \<open>WaitProcess\<close> and the descriptors of both processes.

  \<^bold>\<open>State and results.\<close> An exception is \<open>Inl\<close>, a failed assertion or a use of an object that is gone is
  \<open>None\<close> or a fault of its own type; theorems state that they do not occur, or when they do. What
  several threads do is a relation between states whose steps are the parts that are atomic in the code: a section
  under a lock, a system call, an event of the loop. Histories (\<open>ran\<close>, \<open>started\<close>, \<open>gone\<close>) are added fields that no
  operation reads. The loops that recurse on data terminate by construction; \<open>CleanupRun\<close> and the loop of
  \<open>~Connection\<close> take elements off lists that the called functions can change, and are partial functions:
  that they return is a theorem where they do (\<open>connection_closed\<close>, \<open>impl_destroyed_once\<close>). No definition
  has fuel, and no bound is put on threads, connections, requests, sizes or depth.

  \<^bold>\<open>Parameters.\<close> Code of others is an argument of the definitions: the log callback, implementations of
  methods, overloads of the user (\<open>CustomBuildField\<close> and its companions), the Cap'n Proto compiler and
  schema parser, and the results of system calls. Of \<open>kj\<close> the model uses what its documentation says: a promise is settled once
  and its continuation runs later on the loop, destroying a promise cancels what waits for it,
  \<open>evalLater\<close> runs functions in order, a failed
  call rejects its promise. A reader of Cap'n Proto gives what the builder set, and a default where
  nothing was set.

  \<^bold>\<open>Not modelled.\<close> Bytes on the wire and the RPC system itself. Floating point fields, which the code copies. Which
  handler the overload resolution of C++ selects: a field type is given with its handlers. Moved-from
  variables (of a caller, and of the server that builds its results from them) keep their values in the model. Threads that end in the
  middle of a call: in \<open>ThreadMaps\<close> a thread ends outside its calls, a worker while it runs no request. There the
  start of a call, from \<open>clientInvoke\<close> to the method, is one step of both processes, and so is the end of a connection; a caller
  that a disconnect releases while its worker still runs the method stays in the call, and a thread that runs an event loop
  makes no call, except for the failed assertion of the first one: it would block its own loop. In \<open>Clients\<close> what runs
  under \<open>EventLoop::sync\<close> is one event of the loop; the remote calls that construct
  and destroy objects are not part of it (the latter are in \<open>ObjectEnd\<close>). The order in which \<open>kj\<close> reports independent events is
  left open. Writing the generated files does not fail. Log lines that report
  progress are left out. Build files, examples and tests have no behaviour of the library.
\<close>

end
